(* ===== verification/Prelude.thy ===== *)
theory Prelude
  imports Main "HOL-Library.Word"
begin

text \<open>
  Shared vocabulary of the development: the C integer widths, C strings as optional
  character lists, and the generic facts on words, list updates and searches that the
  component theories use.  Loop counters of the source that are bounded by a table size
  are \<open>nat\<close>; every value that the code stores or returns keeps its width.
\<close>

unbundle bit_operations_syntax

type_synonym u8 = "8 word"
type_synonym u16 = "16 word"
type_synonym u32 = "32 word"
type_synonym u64 = "64 word"

text \<open>A \<open>const char *\<close> argument: \<open>None\<close> is the null pointer, \<open>Some s\<close> points at the
  characters of \<open>s\<close> followed by the terminating NUL.\<close>

type_synonym cstr = "string option"

abbreviation NUL :: char where
  "NUL \<equiv> CHR 0x00"

text \<open>The status codes of the integer-returning kernel calls.\<close>

abbreviation OK :: int where "OK \<equiv> 0"
abbreviation ERR :: int where "ERR \<equiv> -1"

subsection \<open>Collections\<close>

named_theorems bit_flag_simps \<open>single-bit tests and updates of words\<close>
named_theorems word_bound_simps \<open>reading word arithmetic as natural numbers\<close>

subsection \<open>Single bits of a word\<close>

lemma and_bit_zero_iff [bit_flag_simps]:
  fixes w :: "'a::len word"
  shows "w AND 2 ^ n = 0 \<longleftrightarrow> \<not> bit w n"
  by (rule and_exp_eq_0_iff_not_bit)

lemma bit_or_bit [bit_flag_simps]:
  fixes w :: "'a::len word"
  assumes "n < LENGTH('a)"
  shows "bit (w OR 2 ^ n) m \<longleftrightarrow> bit w m \<or> m = n"
  using assms by (auto simp: bit_simps)

lemma bit_and_not_bit [bit_flag_simps]:
  fixes w :: "'a::len word"
  shows "bit (w AND NOT (2 ^ n)) m \<longleftrightarrow> bit w m \<and> m \<noteq> n"
  by (auto simp: bit_simps dest: bit_imp_le_length)

lemma bit_push_one:
  assumes "n < LENGTH('a::len)"
  shows "bit (push_bit n (1 :: 'a word)) m \<longleftrightarrow> m = n"
  using assms by (auto simp: bit_simps)

lemma and_push_one_zero_iff:
  fixes w :: "'a::len word"
  shows "w AND push_bit n 1 = 0 \<longleftrightarrow> \<not> bit w n"
  using and_exp_eq_0_iff_not_bit [of w n] by simp

subsection \<open>Words as natural numbers\<close>

lemma unat_plus_no_overflow [word_bound_simps]:
  fixes a b :: "'a::len word"
  assumes "unat a + unat b < 2 ^ LENGTH('a)"
  shows "unat (a + b) = unat a + unat b"
  using assms by (simp add: unat_word_ariths)

lemma unat_minus_no_underflow [word_bound_simps]:
  fixes a b :: "'a::len word"
  assumes "b \<le> a"
  shows "unat (a - b) = unat a - unat b"
  using assms by (simp add: unat_sub)

lemma unat_of_nat_less [word_bound_simps]:
  assumes "n < 2 ^ LENGTH('a::len)"
  shows "unat (of_nat n :: 'a word) = n"
  using assms by (simp add: unat_of_nat take_bit_nat_eq_self)

lemma unat_u64_less: "unat (w::u64) < 2 ^ 64"
  using unsigned_less [of w, where ?'a = nat] by simp

lemma unat_u64_max [simp]: "unat (- 1 :: u64) = 18446744073709551615"
  by (simp add: unsigned_minus_1_eq_mask mask_eq_exp_minus_1)

lemma unat_u32_less: "unat (w::u32) < 2 ^ 32"
  using unsigned_less [of w, where ?'a = nat] by simp

subsection \<open>Page arithmetic on 64-bit addresses\<close>

lemma page_mask: "(4095::u64) = mask 12"
  by (simp add: mask_eq_exp_minus_1)

lemma unat_page_offset: "unat ((w::u64) AND 4095) = unat w mod 4096"
  by (simp add: page_mask flip: take_bit_eq_mask) (simp add: take_bit_eq_mod unat_mod_distrib)

lemma page_aligned_iff: "(w::u64) AND 4095 = 0 \<longleftrightarrow> unat w mod 4096 = 0"
  by (metis unat_page_offset unat_eq_zero)

lemma unat_page_floor: "unat ((w::u64) AND - 4096) = unat w div 4096 * 4096"
proof -
  have "w AND NOT (mask 12) = push_bit 12 (drop_bit 12 w)"
    by (rule bit_word_eqI) (auto simp: bit_simps)
  then have eq: "w AND - 4096 = push_bit 12 (drop_bit 12 w)"
    by (simp add: mask_eq_exp_minus_1)
  have "unat (drop_bit 12 w) = unat w div 4096"
    by (simp add: drop_bit_eq_div unat_div_distrib)
  moreover have "unat w div 4096 * 4096 \<le> unat w" by simp
  moreover have "unat w < 2 ^ 64" by (rule unat_u64_less)
  ultimately show ?thesis
    by (simp add: eq push_bit_eq_mult unat_word_ariths)
qed

subsection \<open>First match in a table scan\<close>

lemma find_upt_Some_iff:
  "find P [0..<n] = Some i \<longleftrightarrow> i < n \<and> P i \<and> (\<forall>j<i. \<not> P j)"
proof
  assume "find P [0..<n] = Some i"
  then obtain k where "k < n" "P k" "i = k" "\<forall>j<k. \<not> P j"
    by (auto simp: find_Some_iff)
  then show "i < n \<and> P i \<and> (\<forall>j<i. \<not> P j)" by simp
next
  assume "i < n \<and> P i \<and> (\<forall>j<i. \<not> P j)"
  then show "find P [0..<n] = Some i"
    by (auto simp: find_Some_iff)
qed

lemma find_upt_None_iff: "find P [0..<n] = None \<longleftrightarrow> (\<forall>i<n. \<not> P i)"
  by (auto simp: find_None_iff)

end
