(* ===== verification/Kstring.thy ===== *)
theory Kstring
  imports Prelude
begin

text \<open>
  The freestanding string and memory helpers, \<open>kernel/kstring.c\<close>.  A buffer is the list of
  its bytes; a C string is the list of its characters before the terminator, and reading
  at the end gives the terminator.
\<close>

text \<open>The C string a character array holds, and the character an index reads from a string.\<close>

abbreviation c_string :: "string \<Rightarrow> string" where
  "c_string a \<equiv> takeWhile (\<lambda>c. c \<noteq> NUL) a"

definition char_at :: "string \<Rightarrow> nat \<Rightarrow> char" where
  "char_at s i = (if i < length s then s ! i else NUL)"

subsection \<open>Operations\<close>

definition cchar :: "string \<Rightarrow> char" where
  "cchar s = (case s of [] \<Rightarrow> NUL | c # _ \<Rightarrow> c)"

fun kstreq_loop :: "string \<Rightarrow> string \<Rightarrow> bool" where
  "kstreq_loop (a # as) (b # bs) =
     (if a \<noteq> NUL \<and> b \<noteq> NUL then (if a \<noteq> b then False else kstreq_loop as bs) else a = b)"
| "kstreq_loop as bs = (cchar as = cchar bs)"

definition kstreq :: "cstr \<Rightarrow> cstr \<Rightarrow> bool" where
  "kstreq a b = (case (a, b) of (Some x, Some y) \<Rightarrow> kstreq_loop x y | _ \<Rightarrow> False)"

definition kmemcpy :: "'a list \<Rightarrow> 'a list \<Rightarrow> nat \<Rightarrow> 'a list" where
  "kmemcpy dst src len = fold (\<lambda>i d. d[i := src ! i]) [0..<len] dst"

definition memcpy :: "'a list \<Rightarrow> 'a list \<Rightarrow> nat \<Rightarrow> 'a list" where
  "memcpy dst src len = fold (\<lambda>i d. d[i := src ! i]) [0..<len] dst"

definition kmemset :: "'a list \<Rightarrow> 'a \<Rightarrow> nat \<Rightarrow> 'a list" where
  "kmemset dst val len = fold (\<lambda>i d. d[i := val]) [0..<len] dst"

fun kmemcmp_loop :: "u8 list \<Rightarrow> u8 list \<Rightarrow> nat list \<Rightarrow> int" where
  "kmemcmp_loop p q [] = 0"
| "kmemcmp_loop p q (i # is) =
     (if p ! i \<noteq> q ! i then int (unat (p ! i)) - int (unat (q ! i)) else kmemcmp_loop p q is)"

definition kmemcmp :: "u8 list \<Rightarrow> u8 list \<Rightarrow> nat \<Rightarrow> int" where
  "kmemcmp a b len = kmemcmp_loop a b [0..<len]"

definition kmemzero :: "u8 list \<Rightarrow> nat \<Rightarrow> u8 list" where
  "kmemzero ptr len = fold (\<lambda>i p. p[i := 0]) [0..<len] ptr"

subsection \<open>What the loops compute\<close>

lemma fold_update_range:
  "m \<le> n \<Longrightarrow> n \<le> length d \<Longrightarrow>
   fold (\<lambda>i d. d[i := f i]) [m..<n] d = take m d @ map f [m..<n] @ drop n d"
proof (induction "n - m" arbitrary: m d)
  case (Suc k)
  then have up: "[m..<n] = m # [Suc m..<n]" by (simp add: upt_conv_Cons)
  have "fold (\<lambda>i d. d[i := f i]) [Suc m..<n] (d[m := f m]) =
      take (Suc m) (d[m := f m]) @ map f [Suc m..<n] @ drop n (d[m := f m])"
    by (rule Suc.hyps(1)) (use Suc in simp_all)
  with Suc show ?case by (simp add: up take_Suc_conv_app_nth)
qed simp

lemma map_nth_upt_take: "n \<le> length s \<Longrightarrow> map ((!) s) [0..<n] = take n s"
  by (rule nth_equalityI) simp_all

lemma kmemcpy_eq: "len \<le> length dst \<Longrightarrow> len \<le> length src \<Longrightarrow>
  kmemcpy dst src len = take len src @ drop len dst"
  by (simp add: kmemcpy_def fold_update_range map_nth_upt_take)

lemma kmemset_eq: "len \<le> length dst \<Longrightarrow> kmemset dst v len = replicate len v @ drop len dst"
  by (simp add: kmemset_def fold_update_range map_replicate_const)

lemma kmemzero_eq: "len \<le> length p \<Longrightarrow> kmemzero p len = replicate len 0 @ drop len p"
  by (simp add: kmemzero_def fold_update_range map_replicate_const)

lemma kmemcmp_loop_zero_iff: "kmemcmp_loop p q is = 0 \<longleftrightarrow> (\<forall>i\<in>set is. p ! i = q ! i)"
  by (induction "is") (auto dest: unsigned_word_eqI)

lemma kmemcmp_zero_iff:
  assumes "len \<le> length a" "len \<le> length b"
  shows "kmemcmp a b len = 0 \<longleftrightarrow> take len a = take len b"
  using assms
  by (auto simp: kmemcmp_def kmemcmp_loop_zero_iff list_eq_iff_nth_eq)

lemma kstreq_loop_iff: "NUL \<notin> set a \<Longrightarrow> NUL \<notin> set b \<Longrightarrow> kstreq_loop a b \<longleftrightarrow> a = b"
  by (induction a b rule: kstreq_loop.induct) (auto simp: cchar_def split: list.splits)

text \<open>
  C12: \<open>kstreq\<close> decides equality of two C strings: it answers true exactly when both
  pointers are non-null and the characters before the terminators are the same.
\<close>

theorem kstreq_correct:
  assumes "\<And>s. a = Some s \<Longrightarrow> NUL \<notin> set s" "\<And>s. b = Some s \<Longrightarrow> NUL \<notin> set s"
  shows "kstreq a b \<longleftrightarrow> a = b \<and> a \<noteq> None"
  using assms by (auto simp: kstreq_def kstreq_loop_iff split: option.splits)

theorem kstreq_correct_witness: "kstreq (Some ''tmp'') (Some ''tmp'') \<and> \<not> kstreq (Some ''tmp'') (Some ''tm'')"
  using kstreq_correct [of "Some ''tmp''" "Some ''tmp''"] kstreq_correct [of "Some ''tmp''" "Some ''tm''"]
  by simp

end
