(* ===== verification/Mailbox.thy ===== *)
theory Mailbox
  imports Prelude
begin

text \<open>
  The contract of a set of keyed FIFO mailboxes: what a process that sends or receives
  relies on.  \<open>inv n\<close> is the invariant of a state that has \<open>n\<close> more sends in it.
\<close>

fun send_all :: "('k \<Rightarrow> 'm \<Rightarrow> 's \<Rightarrow> 's option) \<Rightarrow> 'k \<Rightarrow> 'm list \<Rightarrow> 's \<Rightarrow> 's option" where
  "send_all send k [] s = Some s"
| "send_all send k (m # ms) s =
     (case send k m s of None \<Rightarrow> None | Some s' \<Rightarrow> send_all send k ms s')"

fun recv_n :: "('k \<Rightarrow> 's \<Rightarrow> ('s \<times> 'm) option) \<Rightarrow> 'k \<Rightarrow> nat \<Rightarrow> 's \<Rightarrow> ('s \<times> 'm list) option" where
  "recv_n recv k 0 s = Some (s, [])"
| "recv_n recv k (Suc n) s =
     (case recv k s of
        None \<Rightarrow> None
      | Some (s', m) \<Rightarrow> (case recv_n recv k n s' of None \<Rightarrow> None | Some (s'', ms) \<Rightarrow> Some (s'', m # ms)))"

locale mailbox =
  fixes send :: "'k \<Rightarrow> 'm \<Rightarrow> 's \<Rightarrow> 's option"
    and recv :: "'k \<Rightarrow> 's \<Rightarrow> ('s \<times> 'm) option"
    and contents :: "'s \<Rightarrow> 'k \<Rightarrow> 'm list"
    and room :: "'s \<Rightarrow> nat"
    and ok :: "'k \<Rightarrow> 'm \<Rightarrow> bool"
    and inv :: "nat \<Rightarrow> 's \<Rightarrow> bool"
  assumes send_fails: "inv n s \<Longrightarrow> send k m s = None \<longleftrightarrow> \<not> ok k m \<or> room s = 0"
    and send_effect: "inv (Suc n) s \<Longrightarrow> send k m s = Some s' \<Longrightarrow>
      inv n s' \<and> contents s' = (contents s)(k := contents s k @ [m]) \<and> Suc (room s') = room s"
    and recv_fails: "inv n s \<Longrightarrow> recv k s = None \<longleftrightarrow> contents s k = []"
    and recv_effect: "inv n s \<Longrightarrow> recv k s = Some (s', m) \<Longrightarrow>
      inv n s' \<and> contents s k = m # contents s' k \<and> (\<forall>j. j \<noteq> k \<longrightarrow> contents s' j = contents s j) \<and>
      room s' = Suc (room s)"
begin

lemma send_all_effect:
  "inv (length ms + n) s \<Longrightarrow> send_all send k ms s = Some s' \<Longrightarrow>
   inv n s' \<and> contents s' = (contents s)(k := contents s k @ ms) \<and> room s' + length ms = room s"
proof (induction ms arbitrary: s)
  case (Cons m ms)
  then obtain s1 where s1: "send k m s = Some s1" "send_all send k ms s1 = Some s'"
    by (auto split: option.splits)
  have "inv (Suc (length ms + n)) s" using Cons.prems(1) by simp
  note e = send_effect [OF this s1(1)]
  with Cons.IH [of s1] s1(2) show ?case by auto
qed simp

lemma send_all_succeeds:
  "inv (length ms + n) s \<Longrightarrow> \<forall>m\<in>set ms. ok k m \<Longrightarrow> length ms \<le> room s \<Longrightarrow>
   \<exists>s'. send_all send k ms s = Some s'"
proof (induction ms arbitrary: s)
  case (Cons m ms)
  then obtain s1 where s1: "send k m s = Some s1"
    using send_fails [OF Cons.prems(1), of k m] by (cases "send k m s") auto
  have "inv (Suc (length ms + n)) s" using Cons.prems(1) by simp
  from send_effect [OF this s1] Cons.IH [of s1] Cons.prems s1 show ?case by auto
qed simp

lemma recv_n_effect:
  "inv n s \<Longrightarrow> contents s k = ms @ rest \<Longrightarrow>
   \<exists>s'. recv_n recv k (length ms) s = Some (s', ms) \<and> inv n s' \<and> contents s' k = rest \<and>
     (\<forall>j. j \<noteq> k \<longrightarrow> contents s' j = contents s j)"
proof (induction ms arbitrary: s)
  case (Cons m ms)
  then obtain s1 m1 where r: "recv k s = Some (s1, m1)"
    using recv_fails [of n s k] by (cases "recv k s") auto
  note e = recv_effect [OF Cons.prems(1) r]
  with Cons.prems(2) have "m1 = m" "contents s1 k = ms @ rest" by auto
  with Cons.IH [of s1] e r show ?case by auto
qed simp

text \<open>First in, first out: what is sent comes out behind what was waiting, in the order of
  sending, and other mailboxes do not notice.\<close>

lemma fifo:
  assumes "inv (length ms + n) s" "\<forall>m\<in>set ms. ok k m" "length ms \<le> room s"
  shows "\<exists>s1 s2. send_all send k ms s = Some s1 \<and>
    recv_n recv k (length (contents s k) + length ms) s1 = Some (s2, contents s k @ ms) \<and>
    inv n s2 \<and> contents s2 = (contents s)(k := [])"
proof -
  obtain s1 where s1: "send_all send k ms s = Some s1"
    using send_all_succeeds assms by blast
  note e = send_all_effect [OF assms(1) s1]
  then have "contents s1 k = (contents s k @ ms) @ []" by simp
  from recv_n_effect [OF _ this, of n] e
  obtain s2 where s2: "recv_n recv k (length (contents s k @ ms)) s1 = Some (s2, contents s k @ ms)" "inv n s2"
    "contents s2 k = []" "\<forall>j. j \<noteq> k \<longrightarrow> contents s2 j = contents s1 j" by blast
  have "contents s2 = (contents s)(k := [])" using s2(3,4) e by (auto simp: fun_eq_iff)
  with s1 s2 show ?thesis by auto
qed

end

end
