(* ===== verification/Ipc.thy ===== *)
theory Ipc
  imports Kstring Mailbox "HOL-Library.Multiset"
begin

text \<open>
  The fixed-size in-kernel message queue, \<open>kernel/ipc.c\<close>.  A slot pointer is its index in
  the slot array; the output structure of \<open>ipc_recv\<close> is returned with the status.
\<close>

definition IPC_MAX_MESSAGES :: nat where "IPC_MAX_MESSAGES = 8"
definition IPC_MAX_MESSAGE_SIZE :: nat where "IPC_MAX_MESSAGE_SIZE = 16"

record ipc_message =
  sender_pid :: u32
  target_pid :: u32
  msg_size :: u32
  msg_data :: "u8 list"

record ipc_slot =
  slot_message :: ipc_message
  slot_sequence :: u64
  slot_used :: u8

record ipc =
  g_ipc_slots :: "ipc_slot list"
  g_ipc_next_sequence :: u64

subsection \<open>Operations\<close>

definition ipc_copy_payload :: "u8 list \<Rightarrow> u8 list \<Rightarrow> nat \<Rightarrow> u8 list" where
  "ipc_copy_payload dest src sz =
     fold (\<lambda>i d. d[i := 0]) [sz..<IPC_MAX_MESSAGE_SIZE]
       (fold (\<lambda>i d. d[i := src ! i]) [0..<sz] dest)"

definition ipc_zero_payload :: "u8 list \<Rightarrow> u8 list" where
  "ipc_zero_payload dest = fold (\<lambda>i d. d[i := 0]) [0..<IPC_MAX_MESSAGE_SIZE] dest"

definition ipc_clear_slot :: "ipc_slot \<Rightarrow> ipc_slot" where
  "ipc_clear_slot slot =
     slot\<lparr>slot_message := (slot_message slot)\<lparr>sender_pid := 0, target_pid := 0, msg_size := 0,
            msg_data := ipc_zero_payload (msg_data (slot_message slot))\<rparr>,
          slot_sequence := 0, slot_used := 0\<rparr>"

definition ipc_find_free_slot :: "ipc \<Rightarrow> nat option" where
  "ipc_find_free_slot s =
     find (\<lambda>i. slot_used (g_ipc_slots s ! i) = 0) [0..<IPC_MAX_MESSAGES]"

definition ipc_find_oldest_target_slot :: "u32 \<Rightarrow> ipc \<Rightarrow> nat option" where
  "ipc_find_oldest_target_slot target s =
     fold (\<lambda>i oldest.
        let slot = g_ipc_slots s ! i
        in if slot_used slot = 0 \<or> target_pid (slot_message slot) \<noteq> target then oldest
           else case oldest of
                  None \<Rightarrow> Some i
                | Some o' \<Rightarrow> if slot_sequence slot < slot_sequence (g_ipc_slots s ! o') then Some i
                            else oldest) [0..<IPC_MAX_MESSAGES] None"

definition ipc_init :: "ipc \<Rightarrow> ipc" where
  "ipc_init s = fold (\<lambda>i s. s\<lparr>g_ipc_slots := (g_ipc_slots s)[i := ipc_clear_slot (g_ipc_slots s ! i)]\<rparr>)
     [0..<IPC_MAX_MESSAGES] (s\<lparr>g_ipc_next_sequence := 1\<rparr>)"

definition ipc_send :: "u32 \<Rightarrow> u32 \<Rightarrow> u8 list option \<Rightarrow> u32 \<Rightarrow> ipc \<Rightarrow> ipc \<times> int" where
  "ipc_send sender target data sz s =
     (if sender = 0 \<or> target = 0 \<or> data = None \<or> sz = 0 \<or> sz > of_nat IPC_MAX_MESSAGE_SIZE
      then (s, ERR)
      else case ipc_find_free_slot s of
             None \<Rightarrow> (s, ERR)
           | Some i \<Rightarrow>
               let slot = g_ipc_slots s ! i;
                   msg = (slot_message slot)\<lparr>sender_pid := sender, target_pid := target, msg_size := sz,
                      msg_data := ipc_copy_payload (msg_data (slot_message slot)) (the data) (unat sz)\<rparr>
               in (s\<lparr>g_ipc_slots := (g_ipc_slots s)[i := slot\<lparr>slot_message := msg,
                        slot_sequence := g_ipc_next_sequence s, slot_used := 1\<rparr>],
                     g_ipc_next_sequence := g_ipc_next_sequence s + 1\<rparr>, OK))"

definition ipc_recv :: "u32 \<Rightarrow> ipc_message option \<Rightarrow> ipc \<Rightarrow> ipc \<times> ipc_message option \<times> int" where
  "ipc_recv target message s =
     (if target = 0 then (s, message, ERR)
      else case message of
        None \<Rightarrow> (s, message, ERR)
      | Some out \<Rightarrow>
          (case ipc_find_oldest_target_slot target s of
             None \<Rightarrow> (s, message, ERR)
           | Some i \<Rightarrow>
               let slot = g_ipc_slots s ! i; m = slot_message slot
               in (s\<lparr>g_ipc_slots := (g_ipc_slots s)[i := ipc_clear_slot slot]\<rparr>,
                   Some (out\<lparr>sender_pid := sender_pid m, target_pid := target_pid m, msg_size := msg_size m,
                     msg_data := ipc_copy_payload (msg_data out) (msg_data m) (unat (msg_size m))\<rparr>),
                   OK)))"

subsection \<open>The invariant and the queue a slot array stands for\<close>

definition slot_wf :: "ipc_slot \<Rightarrow> bool" where
  "slot_wf sl \<longleftrightarrow>
     length (msg_data (slot_message sl)) = 16 \<and> (slot_used sl = 0 \<or> slot_used sl = 1) \<and>
     (slot_used sl = 1 \<longrightarrow> sender_pid (slot_message sl) \<noteq> 0 \<and> target_pid (slot_message sl) \<noteq> 0 \<and>
        0 < unat (msg_size (slot_message sl)) \<and> unat (msg_size (slot_message sl)) \<le> 16 \<and>
        (\<forall>i. unat (msg_size (slot_message sl)) \<le> i \<longrightarrow> i < 16 \<longrightarrow> msg_data (slot_message sl) ! i = 0))"

definition ipc_inv :: "nat \<Rightarrow> ipc \<Rightarrow> bool" where
  "ipc_inv n s \<longleftrightarrow>
     length (g_ipc_slots s) = 8 \<and> (\<forall>sl\<in>set (g_ipc_slots s). slot_wf sl) \<and>
     unat (g_ipc_next_sequence s) + n < 2 ^ 64 \<and>
     (\<forall>i<8. slot_used (g_ipc_slots s ! i) = 1 \<longrightarrow>
        slot_sequence (g_ipc_slots s ! i) < g_ipc_next_sequence s) \<and>
     (\<forall>i<8. \<forall>j<8. slot_used (g_ipc_slots s ! i) = 1 \<longrightarrow> slot_used (g_ipc_slots s ! j) = 1 \<longrightarrow>
        slot_sequence (g_ipc_slots s ! i) = slot_sequence (g_ipc_slots s ! j) \<longrightarrow> i = j)"

abbreviation slot_for :: "u32 \<Rightarrow> ipc_slot \<Rightarrow> bool" where
  "slot_for target sl \<equiv> slot_used sl = 1 \<and> target_pid (slot_message sl) = target"

definition slot_content :: "ipc_slot \<Rightarrow> u32 \<times> u8 list" where
  "slot_content sl = (sender_pid (slot_message sl),
     take (unat (msg_size (slot_message sl))) (msg_data (slot_message sl)))"

definition pending :: "ipc \<Rightarrow> u32 \<Rightarrow> ipc_slot list" where
  "pending s target = sort_key slot_sequence (filter (slot_for target) (g_ipc_slots s))"

definition ipc_queue :: "ipc \<Rightarrow> u32 \<Rightarrow> (u32 \<times> u8 list) list" where
  "ipc_queue s target = map slot_content (pending s target)"

definition free_slots :: "ipc \<Rightarrow> nat" where
  "free_slots s = length (filter (\<lambda>sl. slot_used sl = 0) (g_ipc_slots s))"

lemma ipc_copy_payload_eq:
  assumes "length dest = 16" "n \<le> length src" "n \<le> 16"
  shows "ipc_copy_payload dest src n = take n src @ replicate (16 - n) 0"
  using assms by (simp add: ipc_copy_payload_def IPC_MAX_MESSAGE_SIZE_def fold_update_range
      map_nth_upt_take map_replicate_const)

lemma ipc_zero_payload_eq: "length dest = 16 \<Longrightarrow> ipc_zero_payload dest = replicate 16 0"
  by (simp add: ipc_zero_payload_def IPC_MAX_MESSAGE_SIZE_def fold_update_range map_replicate_const
      del: upt_rec_numeral)

text \<open>With distinct keys, sorting forgets the order of the input.\<close>

lemma sort_key_eqI:
  assumes "mset ys = mset xs" "sorted (map f ys)" "inj_on f (set xs)"
  shows "sort_key f xs = ys"
proof -
  have "sort (map f xs) = map f (sort_key f xs)" "sort (map f xs) = map f ys"
    using assms by (auto intro!: properties_for_sort)
  then have "map f (sort_key f xs) = map f ys" by simp
  moreover have "inj_on f (set (sort_key f xs) \<union> set ys)"
    using assms by (metis Un_absorb mset_eq_setD set_sort)
  ultimately show ?thesis by (simp add: inj_on_map_eq_map)
qed

lemma filter_update:
  "i < length xs \<Longrightarrow> filter P (xs[i := x]) =
     filter P (take i xs) @ (if P x then [x] else []) @ filter P (drop (Suc i) xs)"
  by (simp add: upd_conv_take_nth_drop)

lemma filter_nth_split:
  "i < length xs \<Longrightarrow> filter P xs =
     filter P (take i xs) @ (if P (xs ! i) then [xs ! i] else []) @ filter P (drop (Suc i) xs)"
  using filter_update [of i xs P "xs ! i"] by simp

lemma find_oldest_loop:
  fixes sl :: "nat \<Rightarrow> ipc_slot" and target :: u32
  defines "step \<equiv> \<lambda>i oldest.
        let slot = sl i
        in if slot_used slot = 0 \<or> target_pid (slot_message slot) \<noteq> target then oldest
           else case oldest of
                  None \<Rightarrow> Some i
                | Some o' \<Rightarrow> if slot_sequence slot < slot_sequence (sl o') then Some i else oldest"
  shows "case fold step [0..<n] None of
     None \<Rightarrow> \<forall>i<n. slot_used (sl i) = 0 \<or> target_pid (slot_message (sl i)) \<noteq> target
   | Some k \<Rightarrow> k < n \<and> slot_used (sl k) \<noteq> 0 \<and> target_pid (slot_message (sl k)) = target \<and>
       (\<forall>i<n. slot_used (sl i) \<noteq> 0 \<longrightarrow> target_pid (slot_message (sl i)) = target \<longrightarrow>
          slot_sequence (sl k) \<le> slot_sequence (sl i))"
proof (induction n)
  case (Suc n)
  then show ?case
    by (auto simp: step_def Let_def less_Suc_eq split: option.splits if_splits intro: order_trans less_imp_le)
qed simp

lemma ipc_find_oldest_spec:
  "case ipc_find_oldest_target_slot target s of
     None \<Rightarrow> \<forall>i<8. slot_used (g_ipc_slots s ! i) = 0 \<or> target_pid (slot_message (g_ipc_slots s ! i)) \<noteq> target
   | Some k \<Rightarrow> k < 8 \<and> slot_used (g_ipc_slots s ! k) \<noteq> 0 \<and>
       target_pid (slot_message (g_ipc_slots s ! k)) = target \<and>
       (\<forall>i<8. slot_used (g_ipc_slots s ! i) \<noteq> 0 \<longrightarrow> target_pid (slot_message (g_ipc_slots s ! i)) = target \<longrightarrow>
          slot_sequence (g_ipc_slots s ! k) \<le> slot_sequence (g_ipc_slots s ! i))"
  using find_oldest_loop [where target = target and sl = "\<lambda>i. g_ipc_slots s ! i" and n = 8]
  by (simp only: ipc_find_oldest_target_slot_def IPC_MAX_MESSAGES_def)

lemma ipc_invD:
  assumes "ipc_inv n s"
  shows "length (g_ipc_slots s) = 8" "i < 8 \<Longrightarrow> slot_wf (g_ipc_slots s ! i)"
    "unat (g_ipc_next_sequence s) + n < 2 ^ 64"
    "i < 8 \<Longrightarrow> slot_used (g_ipc_slots s ! i) = 1 \<Longrightarrow> slot_sequence (g_ipc_slots s ! i) < g_ipc_next_sequence s"
    "i < 8 \<Longrightarrow> j < 8 \<Longrightarrow> slot_used (g_ipc_slots s ! i) = 1 \<Longrightarrow> slot_used (g_ipc_slots s ! j) = 1 \<Longrightarrow>
      slot_sequence (g_ipc_slots s ! i) = slot_sequence (g_ipc_slots s ! j) \<Longrightarrow> i = j"
  using assms by (auto simp: ipc_inv_def)

lemma pending_inj:
  assumes "ipc_inv n s"
  shows "inj_on slot_sequence (set (filter (slot_for t) (g_ipc_slots s)))"
proof (rule inj_onI)
  fix x y
  assume "x \<in> set (filter (slot_for t) (g_ipc_slots s))" "y \<in> set (filter (slot_for t) (g_ipc_slots s))"
    and eq: "slot_sequence x = slot_sequence y"
  then obtain i j where "i < 8" "x = g_ipc_slots s ! i" "j < 8" "y = g_ipc_slots s ! j"
    "slot_used x = 1" "slot_used y = 1"
    using ipc_invD(1) [OF assms] by (auto simp: in_set_conv_nth)
  with eq ipc_invD(5) [OF assms, of i j] show "x = y" by simp
qed

lemma used_iff: "ipc_inv n s \<Longrightarrow> i < 8 \<Longrightarrow> slot_used (g_ipc_slots s ! i) \<noteq> 0 \<longleftrightarrow> slot_used (g_ipc_slots s ! i) = 1"
  using ipc_invD(2) by (fastforce simp: slot_wf_def)

lemma find_free_slot:
  assumes inv: "ipc_inv n s"
  shows "ipc_find_free_slot s = None \<longleftrightarrow> free_slots s = 0"
    and "ipc_find_free_slot s = Some i \<Longrightarrow> i < 8 \<and> slot_used (g_ipc_slots s ! i) = 0"
proof -
  have "ipc_find_free_slot s = None \<longleftrightarrow> (\<forall>i<8. slot_used (g_ipc_slots s ! i) \<noteq> 0)"
    by (auto simp: ipc_find_free_slot_def IPC_MAX_MESSAGES_def find_None_iff)
  also have "\<dots> \<longleftrightarrow> free_slots s = 0"
    using ipc_invD(1) [OF inv] by (auto simp: free_slots_def filter_empty_conv all_set_conv_all_nth)
  finally show "ipc_find_free_slot s = None \<longleftrightarrow> free_slots s = 0" .
  show "ipc_find_free_slot s = Some i \<Longrightarrow> i < 8 \<and> slot_used (g_ipc_slots s ! i) = 0"
    by (auto simp: ipc_find_free_slot_def IPC_MAX_MESSAGES_def find_Some_iff)
qed

lemma ipc_inv_update:
  assumes inv: "ipc_inv n s" and i: "i < 8" and wf: "slot_wf sl"
    and seq: "slot_used sl = 1 \<Longrightarrow> slot_sequence sl = g_ipc_next_sequence s \<and> 0 < n"
    and nxt: "nx = (if slot_used sl = 1 then g_ipc_next_sequence s + 1 else g_ipc_next_sequence s)"
  shows "ipc_inv (if slot_used sl = 1 then n - 1 else n)
    (s\<lparr>g_ipc_slots := (g_ipc_slots s)[i := sl], g_ipc_next_sequence := nx\<rparr>)"
proof -
  note D = ipc_invD [OF inv]
  have up: "slot_used sl = 1 \<Longrightarrow> unat nx = unat (g_ipc_next_sequence s) + 1"
    using seq nxt D(3) by (simp add: unat_plus_no_overflow)
  have less: "x < g_ipc_next_sequence s \<Longrightarrow> x < nx" for x
    using up nxt by (cases "slot_used sl = 1") (simp_all add: word_less_nat_alt)
  have ne: "slot_sequence (g_ipc_slots s ! k) \<noteq> g_ipc_next_sequence s"
    "g_ipc_next_sequence s \<noteq> slot_sequence (g_ipc_slots s ! k)"
    if "k < 8" "slot_used (g_ipc_slots s ! k) = 1" for k
    using D(4) [OF that] by auto
  have "g_ipc_next_sequence s < nx" if "slot_used sl = 1" using up that by (simp add: word_less_nat_alt)
  moreover have "\<forall>x\<in>set ((g_ipc_slots s)[i := sl]). slot_wf x"
    using inv wf set_update_subset_insert [of "g_ipc_slots s" i sl] by (auto simp: ipc_inv_def)
  moreover have "unat nx + (if slot_used sl = 1 then n - 1 else n) < 2 ^ 64"
    using D(3) up nxt seq by (cases "slot_used sl = 1") auto
  ultimately show ?thesis
    unfolding ipc_inv_def using D(1,4,5) less seq i
    by (auto simp: nth_list_update dest: ne split: if_splits)
qed

lemma free_slots_update:
  assumes "i < length (g_ipc_slots s)"
  shows "free_slots (s\<lparr>g_ipc_slots := (g_ipc_slots s)[i := sl], g_ipc_next_sequence := nx\<rparr>) +
      (if slot_used (g_ipc_slots s ! i) = 0 then 1 else 0) =
    free_slots s + (if slot_used sl = 0 then 1 else 0)"
  using filter_update [OF assms, of "\<lambda>sl. slot_used sl = 0" sl]
    filter_nth_split [OF assms, of "\<lambda>sl. slot_used sl = 0"]
  by (simp add: free_slots_def)

lemma pending_other:
  assumes "i < length (g_ipc_slots s)" "\<not> slot_for t (g_ipc_slots s ! i)" "\<not> slot_for t sl"
  shows "pending (s\<lparr>g_ipc_slots := (g_ipc_slots s)[i := sl], g_ipc_next_sequence := nx\<rparr>) t = pending s t"
  using assms(2,3) filter_update [OF assms(1), of "slot_for t" sl] filter_nth_split [OF assms(1), of "slot_for t"]
  by (auto simp: pending_def)


lemma ipc_send_effect:
  assumes inv: "ipc_inv (Suc n) s" and snd: "ipc_send sender target (Some data) sz s = (s', r)"
    and len: "length data = unat sz"
  shows "if sender = 0 \<or> target = 0 \<or> sz = 0 \<or> 16 < unat sz \<or> free_slots s = 0 then s' = s \<and> r = ERR
    else r = OK \<and> ipc_inv n s' \<and> ipc_queue s' = (ipc_queue s)(target := ipc_queue s target @ [(sender, data)]) \<and>
      Suc (free_slots s') = free_slots s"
proof (cases "sender = 0 \<or> target = 0 \<or> sz = 0 \<or> 16 < unat sz \<or> free_slots s = 0")
  case True
  then show ?thesis
    using snd find_free_slot(1) [OF inv]
    by (auto simp: ipc_send_def IPC_MAX_MESSAGE_SIZE_def word_less_nat_alt split: if_splits)
next
  case False
  then have args: "sender \<noteq> 0" "target \<noteq> 0" "sz \<noteq> 0" "unat sz \<le> 16" "free_slots s \<noteq> 0" by simp_all
  then obtain i where i: "ipc_find_free_slot s = Some i" using find_free_slot(1) [OF inv] by auto
  note free = find_free_slot(2) [OF inv i]
  define sl where "sl = (g_ipc_slots s ! i)\<lparr>slot_message := (slot_message (g_ipc_slots s ! i))
     \<lparr>sender_pid := sender, target_pid := target, msg_size := sz,
      msg_data := ipc_copy_payload (msg_data (slot_message (g_ipc_slots s ! i))) data (unat sz)\<rparr>,
     slot_sequence := g_ipc_next_sequence s, slot_used := 1\<rparr>"
  have s': "s' = s\<lparr>g_ipc_slots := (g_ipc_slots s)[i := sl],
      g_ipc_next_sequence := g_ipc_next_sequence s + 1\<rparr>" "r = OK"
    using snd args i
    by (simp_all add: ipc_send_def IPC_MAX_MESSAGE_SIZE_def word_less_nat_alt sl_def Let_def)
  have "slot_wf (g_ipc_slots s ! i)" using ipc_invD(2) [OF inv] free by simp
  then have cp: "ipc_copy_payload (msg_data (slot_message (g_ipc_slots s ! i))) data (unat sz) =
      data @ replicate (16 - unat sz) 0"
    using args len by (subst ipc_copy_payload_eq) (simp_all add: slot_wf_def)
  have sl: "slot_used sl = 1" "slot_sequence sl = g_ipc_next_sequence s" "slot_wf sl"
    "slot_content sl = (sender, data)" "target_pid (slot_message sl) = target"
    using args len cp
    by (simp_all add: sl_def slot_wf_def slot_content_def nth_append unat_gt_0)
  have il: "i < length (g_ipc_slots s)" using free ipc_invD(1) [OF inv] by simp
  have inv': "ipc_inv n s'"
    using ipc_inv_update [OF inv _ sl(3), of i "g_ipc_next_sequence s + 1"] sl free s' by simp
  have "pending s' target = pending s target @ [sl]"
    unfolding pending_def
  proof (rule sort_key_eqI)
    show "mset (sort_key slot_sequence (filter (slot_for target) (g_ipc_slots s)) @ [sl]) =
        mset (filter (slot_for target) (g_ipc_slots s'))"
      using filter_update [OF il, of "slot_for target" sl] filter_nth_split [OF il, of "slot_for target"]
        sl free s' by simp
    show "sorted (map slot_sequence (sort_key slot_sequence (filter (slot_for target) (g_ipc_slots s)) @ [sl]))"
      using ipc_invD(1,4) [OF inv] sl(2) by (auto simp: sorted_append in_set_conv_nth less_imp_le)
    show "inj_on slot_sequence (set (filter (slot_for target) (g_ipc_slots s')))"
      by (rule pending_inj [OF inv'])
  qed
  moreover have "pending s' t = pending s t" if "t \<noteq> target" for t
    unfolding s' using pending_other [OF il] free sl that by simp
  ultimately have "ipc_queue s' = (ipc_queue s)(target := ipc_queue s target @ [(sender, data)])"
    using sl(4) by (auto simp: ipc_queue_def fun_eq_iff)
  moreover have "Suc (free_slots s') = free_slots s"
    using free_slots_update [OF il, where sl = sl and nx = "g_ipc_next_sequence s + 1"] free sl s' by simp
  ultimately show ?thesis using False inv' s' by simp
qed


lemma ipc_recv_effect:
  assumes inv: "ipc_inv n s" and t: "target \<noteq> 0" and len: "length (msg_data out) = 16"
  shows "case ipc_recv target (Some out) s of (s', m, r) \<Rightarrow>
    (case ipc_queue s target of
       [] \<Rightarrow> s' = s \<and> m = Some out \<and> r = ERR
     | (sender, data) # rest \<Rightarrow> r = OK \<and> ipc_inv n s' \<and>
         m = Some (out\<lparr>sender_pid := sender, target_pid := target, msg_size := of_nat (length data),
               msg_data := data @ replicate (16 - length data) 0\<rparr>) \<and>
         ipc_queue s' = (ipc_queue s)(target := rest) \<and> free_slots s' = Suc (free_slots s))"
proof (cases "ipc_find_oldest_target_slot target s")
  case None
  then have "\<forall>i<8. \<not> slot_for target (g_ipc_slots s ! i)"
    using ipc_find_oldest_spec [of s target] by (auto simp: IPC_MAX_MESSAGES_def)
  then have "filter (slot_for target) (g_ipc_slots s) = []"
    using ipc_invD(1) [OF inv] by (auto simp: filter_empty_conv in_set_conv_nth)
  then have "ipc_queue s target = []" by (simp add: ipc_queue_def pending_def)
  with None t show ?thesis by (simp add: ipc_recv_def)
next
  case (Some i)
  let ?sl = "g_ipc_slots s ! i"
  have i: "i < 8" "slot_for target ?sl"
    and min: "\<And>j. j < 8 \<Longrightarrow> slot_for target (g_ipc_slots s ! j) \<Longrightarrow> slot_sequence ?sl \<le> slot_sequence (g_ipc_slots s ! j)"
    using ipc_find_oldest_spec [of s target] Some used_iff [OF inv, of i]
    by (auto simp: IPC_MAX_MESSAGES_def)
  have minS: "slot_sequence ?sl \<le> slot_sequence x" if "x \<in> set (filter (slot_for target) (g_ipc_slots s))" for x
    using that min ipc_invD(1) [OF inv] by (auto simp: in_set_conv_nth)
  have wf: "slot_wf ?sl" using ipc_invD(2) [OF inv i(1)] .
  have il: "i < length (g_ipc_slots s)" using i ipc_invD(1) [OF inv] by simp
  define c where "c = ipc_clear_slot ?sl"
  define s' where "s' = s\<lparr>g_ipc_slots := (g_ipc_slots s)[i := c], g_ipc_next_sequence := g_ipc_next_sequence s\<rparr>"
  have c: "slot_wf c" "slot_used c = 0"
    using wf by (simp_all add: c_def ipc_clear_slot_def slot_wf_def ipc_zero_payload_eq)
  have inv': "ipc_inv n s'"
    using ipc_inv_update [OF inv i(1) c(1), of "g_ipc_next_sequence s"] c(2) by (simp add: s'_def)
  have "pending s target = ?sl # pending s' target"
    unfolding pending_def
  proof (rule sort_key_eqI)
    show "mset (?sl # sort_key slot_sequence (filter (slot_for target) (g_ipc_slots s'))) =
        mset (filter (slot_for target) (g_ipc_slots s))"
      using filter_update [OF il, of "slot_for target" c] filter_nth_split [OF il, of "slot_for target"]
        i c by (simp add: s'_def)
    have "set (filter (slot_for target) (g_ipc_slots s')) \<subseteq> set (filter (slot_for target) (g_ipc_slots s))"
      using filter_update [OF il, of "slot_for target" c] c by (auto simp: s'_def dest: in_set_takeD in_set_dropD)
    then show "sorted (map slot_sequence (?sl # sort_key slot_sequence (filter (slot_for target) (g_ipc_slots s'))))"
      using minS by auto
    show "inj_on slot_sequence (set (filter (slot_for target) (g_ipc_slots s)))" by (rule pending_inj [OF inv])
  qed
  moreover have "pending s' t = pending s t" if "t \<noteq> target" for t
    unfolding s'_def by (rule pending_other [OF il]) (use i c that in auto)
  ultimately have q: "ipc_queue s target = slot_content ?sl # ipc_queue s' target"
    "\<And>t. t \<noteq> target \<Longrightarrow> ipc_queue s' t = ipc_queue s t"
    by (simp_all add: ipc_queue_def)
  have f: "free_slots s' = Suc (free_slots s)"
    using free_slots_update [OF il, where sl = c and nx = "g_ipc_next_sequence s"] i c by (simp add: s'_def)
  have "unat (msg_size (slot_message ?sl)) \<le> 16" "length (msg_data (slot_message ?sl)) = 16"
    using wf i by (simp_all add: slot_wf_def)
  then show ?thesis
    using t Some i q inv' f len
    by (auto simp: ipc_recv_def Let_def slot_content_def ipc_copy_payload_eq c_def [symmetric] s'_def)
qed

subsection \<open>The message queue as a set of mailboxes\<close>

definition post :: "u32 \<Rightarrow> u32 \<times> u8 list \<Rightarrow> ipc \<Rightarrow> ipc option" where
  "post target m s =
     (if length (snd m) < 2 ^ 32
      then case ipc_send (fst m) target (Some (snd m)) (of_nat (length (snd m))) s of
             (s', r) \<Rightarrow> if r = OK then Some s' else None
      else None)"

definition blank_message :: ipc_message where
  "blank_message = \<lparr>sender_pid = 0, target_pid = 0, msg_size = 0, msg_data = replicate 16 0\<rparr>"

definition fetch :: "u32 \<Rightarrow> ipc \<Rightarrow> (ipc \<times> u32 \<times> u8 list) option" where
  "fetch target s =
     (case ipc_recv target (Some blank_message) s of
        (s', Some m, r) \<Rightarrow> if r = OK then Some (s', sender_pid m, take (unat (msg_size m)) (msg_data m)) else None
      | _ \<Rightarrow> None)"

definition sendable :: "u32 \<Rightarrow> u32 \<times> u8 list \<Rightarrow> bool" where
  "sendable target m \<longleftrightarrow> target \<noteq> 0 \<and> fst m \<noteq> 0 \<and> snd m \<noteq> [] \<and> length (snd m) \<le> 16"

lemma unat_of_nat_u32: "n < 2 ^ 32 \<Longrightarrow> unat (of_nat n :: u32) = n"
  by (rule unat_of_nat_less) simp

lemma queue_entry:
  assumes "ipc_inv n s" "m \<in> set (ipc_queue s t)"
  shows "0 < length (snd m)" "length (snd m) \<le> 16"
proof -
  obtain sl where "sl \<in> set (g_ipc_slots s)" "slot_used sl = 1" "m = slot_content sl"
    using assms(2) by (auto simp: ipc_queue_def pending_def)
  with assms(1) show "0 < length (snd m)" "length (snd m) \<le> 16"
    by (auto simp: ipc_inv_def slot_wf_def slot_content_def)
qed

lemma queue_zero: "ipc_inv n s \<Longrightarrow> ipc_queue s 0 = []"
  by (auto simp: ipc_queue_def pending_def filter_empty_conv ipc_inv_def slot_wf_def)

lemma post_cases:
  assumes "ipc_inv (Suc n) s"
  shows "if \<not> sendable k m \<or> free_slots s = 0 then post k m s = None
    else \<exists>s'. post k m s = Some s' \<and> ipc_inv n s' \<and>
      ipc_queue s' = (ipc_queue s)(k := ipc_queue s k @ [m]) \<and> Suc (free_slots s') = free_slots s"
proof (cases "length (snd m) < 2 ^ 32")
  case True
  note u = unat_of_nat_u32 [OF True]
  obtain s' r where r: "ipc_send (fst m) k (Some (snd m)) (of_nat (length (snd m))) s = (s', r)" by fastforce
  have z: "of_nat (length (snd m)) = (0::u32) \<longleftrightarrow> snd m = []"
    unfolding unat_eq_zero [symmetric] u by simp
  from ipc_send_effect [OF assms r] u z True r show ?thesis
    by (auto simp: post_def sendable_def not_le split: if_splits)
qed (simp add: post_def sendable_def)

lemma fetch_cases:
  assumes inv: "ipc_inv n s"
  shows "case ipc_queue s k of
     [] \<Rightarrow> fetch k s = None
   | m # rest \<Rightarrow> \<exists>s'. fetch k s = Some (s', m) \<and> ipc_inv n s' \<and> ipc_queue s' = (ipc_queue s)(k := rest) \<and>
       free_slots s' = Suc (free_slots s)"
proof (cases "k = 0")
  case True
  with queue_zero [OF inv] show ?thesis by (simp add: fetch_def ipc_recv_def)
next
  case False
  show ?thesis
  proof (cases "ipc_queue s k")
    case Nil
    with ipc_recv_effect [OF inv False, of blank_message] show ?thesis
      by (auto simp: fetch_def blank_message_def split: prod.splits)
  next
    case (Cons m rest)
    then have "length (snd m) \<le> 16" using queue_entry [OF inv, of m k] by simp
    then have "unat (of_nat (length (snd m)) :: u32) = length (snd m)" by (simp add: unat_of_nat_u32)
    with Cons ipc_recv_effect [OF inv False, of blank_message] show ?thesis
      by (auto simp: fetch_def blank_message_def split: prod.splits)
  qed
qed

interpretation ipcq: mailbox post fetch ipc_queue free_slots sendable "\<lambda>n. ipc_inv (Suc n)"
proof unfold_locales
  fix n s k m
  assume inv: "ipc_inv (Suc n) s"
  show "post k m s = None \<longleftrightarrow> \<not> sendable k m \<or> free_slots s = 0"
    using post_cases [OF inv, of k m] by (auto split: if_splits)
  show "fetch k s = None \<longleftrightarrow> ipc_queue s k = []"
    using fetch_cases [OF inv, of k] by (auto split: list.splits)
  show "ipc_inv (Suc n) s' \<and> ipc_queue s k = m # ipc_queue s' k \<and>
      (\<forall>j. j \<noteq> k \<longrightarrow> ipc_queue s' j = ipc_queue s j) \<and> free_slots s' = Suc (free_slots s)"
    if "fetch k s = Some (s', m)" for s'
    using fetch_cases [OF inv, of k] that by (auto split: list.splits)
next
  fix n s k m s'
  assume "ipc_inv (Suc (Suc n)) s" "post k m s = Some s'"
  with post_cases [of "Suc n" s k m]
  show "ipc_inv (Suc n) s' \<and> ipc_queue s' = (ipc_queue s)(k := ipc_queue s k @ [m]) \<and> Suc (free_slots s') = free_slots s"
    by (auto split: if_splits)
qed

lemma ipc_init_slots:
  assumes "length (g_ipc_slots s) = 8"
  shows "g_ipc_slots (ipc_init s) = map ipc_clear_slot (g_ipc_slots s)"
    "g_ipc_next_sequence (ipc_init s) = 1"
proof -
  have *: "g_ipc_slots (fold (\<lambda>i s. s\<lparr>g_ipc_slots := (g_ipc_slots s)[i := ipc_clear_slot (g_ipc_slots s ! i)]\<rparr>) xs t) =
      fold (\<lambda>i d. d[i := ipc_clear_slot (d ! i)]) xs (g_ipc_slots t) \<and>
    g_ipc_next_sequence (fold (\<lambda>i s. s\<lparr>g_ipc_slots := (g_ipc_slots s)[i := ipc_clear_slot (g_ipc_slots s ! i)]\<rparr>) xs t) =
      g_ipc_next_sequence t" for xs and t :: ipc
    by (induction xs arbitrary: t) simp_all
  have "n \<le> length d \<Longrightarrow> fold (\<lambda>i d. d[i := ipc_clear_slot (d ! i)]) [0..<n] d =
      map ipc_clear_slot (take n d) @ drop n d" for n d
  proof (induction n)
    case (Suc n)
    then have "drop n d = d ! n # drop (Suc n) d" by (simp add: Cons_nth_drop_Suc)
    with Suc show ?case by (simp add: nth_append list_update_append take_Suc_conv_app_nth)
  qed simp
  from this [of 8 "g_ipc_slots s"] assms
  show "g_ipc_slots (ipc_init s) = map ipc_clear_slot (g_ipc_slots s)"
    by (simp add: ipc_init_def IPC_MAX_MESSAGES_def * del: upt_rec_numeral fold_simps)
  show "g_ipc_next_sequence (ipc_init s) = 1"
    by (simp add: ipc_init_def * del: upt_rec_numeral fold_simps)
qed

lemma ipc_init_inv:
  assumes "length (g_ipc_slots s) = 8" "\<forall>sl\<in>set (g_ipc_slots s). length (msg_data (slot_message sl)) = 16"
    and "n < 2 ^ 64 - 1"
  shows "ipc_inv n (ipc_init s)" "ipc_queue (ipc_init s) t = []" "free_slots (ipc_init s) = 8"
  using assms ipc_init_slots [OF assms(1)]
  by (auto simp: ipc_inv_def slot_wf_def ipc_clear_slot_def ipc_zero_payload_eq ipc_queue_def pending_def
      free_slots_def filter_empty_conv)

definition example_ipc :: ipc where
  "example_ipc = ipc_init \<lparr>g_ipc_slots =
     replicate 8 \<lparr>slot_message = blank_message, slot_sequence = 7, slot_used = 1\<rparr>, g_ipc_next_sequence = 9\<rparr>"

lemma example_ipc:
  "n < 2 ^ 64 - 1 \<Longrightarrow> ipc_inv n example_ipc" "ipc_queue example_ipc t = []" "free_slots example_ipc = 8"
proof -
  note init = ipc_init_inv [where s = "\<lparr>g_ipc_slots =
     replicate 8 \<lparr>slot_message = blank_message, slot_sequence = 7, slot_used = 1\<rparr>, g_ipc_next_sequence = 9\<rparr>",
     folded example_ipc_def]
  show "n < 2 ^ 64 - 1 \<Longrightarrow> ipc_inv n example_ipc" by (rule init) (simp_all add: blank_message_def)
  show "ipc_queue example_ipc t = []" "free_slots example_ipc = 8"
    using init(2,3) [of 0] by (simp_all add: blank_message_def)
qed

subsection \<open>Properties\<close>

text \<open>
  C13: the slot array implements one FIFO queue per target process.  \<open>ipc_send\<close> rejects
  zero process ids, empty and oversized payloads and a full table without changing
  anything, and otherwise appends the payload to the target's queue alone;
  \<open>ipc_recv\<close> fails without effect on an empty queue, and otherwise hands over the head of
  the queue, with every byte after the payload zeroed, and removes it.  Both keep the
  invariant, as long as the 64-bit sequence counter has not run out.
\<close>

theorem ipc_refines_queues:
  assumes "ipc_inv (Suc n) s" "length data = unat sz" "length (msg_data out) = 16" "pid \<noteq> 0"
  shows "(case ipc_send sender target (Some data) sz s of (s', r) \<Rightarrow>
      if sender = 0 \<or> target = 0 \<or> sz = 0 \<or> 16 < unat sz \<or> free_slots s = 0 then s' = s \<and> r = ERR
      else r = OK \<and> ipc_inv n s' \<and>
        ipc_queue s' = (ipc_queue s)(target := ipc_queue s target @ [(sender, data)])) \<and>
    (case ipc_recv pid (Some out) s of (s', m, r) \<Rightarrow>
      (case ipc_queue s pid of
         [] \<Rightarrow> s' = s \<and> m = Some out \<and> r = ERR
       | (from', payload) # rest \<Rightarrow> r = OK \<and> ipc_inv (Suc n) s' \<and>
           m = Some (out\<lparr>sender_pid := from', target_pid := pid, msg_size := of_nat (length payload),
                 msg_data := payload @ replicate (16 - length payload) 0\<rparr>) \<and>
           ipc_queue s' = (ipc_queue s)(pid := rest)))"
proof -
  obtain s' r where snd: "ipc_send sender target (Some data) sz s = (s', r)" by fastforce
  from ipc_send_effect [OF assms(1) snd assms(2)] ipc_recv_effect [OF assms(1,4,3)] snd show ?thesis
    by (auto split: prod.splits list.splits)
qed

theorem ipc_refines_queues_witness:
  "ipc_inv 5 (fst (ipc_send 1 2 (Some [65, 66]) 2 example_ipc)) \<and>
   ipc_queue (fst (ipc_send 1 2 (Some [65, 66]) 2 example_ipc)) 2 = [(1, [65, 66])]"
  using ipc_refines_queues [of 5 example_ipc "[65, 66]" 2 blank_message 2 1 2]
  by (auto simp: example_ipc blank_message_def split: prod.splits)

text \<open>
  C14: messages to one process are delivered in the order they were sent.  Sending up to as
  many valid messages as there are free slots succeeds, whatever is already pending; the
  target then receives first the messages that were waiting for it and then exactly the new
  ones, in this order, after which its queue is empty; the queues of all other processes are
  untouched.
\<close>

theorem ipc_delivers_in_order:
  assumes "ipc_inv (Suc (length ms + n)) s" "\<forall>m\<in>set ms. sendable k m" "length ms \<le> free_slots s"
  shows "\<exists>s1 s2. send_all post k ms s = Some s1 \<and>
    recv_n fetch k (length (ipc_queue s k) + length ms) s1 = Some (s2, ipc_queue s k @ ms) \<and>
    ipc_inv (Suc n) s2 \<and> ipc_queue s2 = (ipc_queue s)(k := [])"
  by (rule ipcq.fifo [OF assms])

theorem ipc_delivers_in_order_witness:
  "\<exists>s0 s1 s2. post 2 (9, [1]) example_ipc = Some s0 \<and> send_all post 2 [(1, [65]), (3, [66, 67])] s0 = Some s1 \<and>
     recv_n fetch 2 3 s1 = Some (s2, [(9, [1]), (1, [65]), (3, [66, 67])])"
proof -
  let ?ms = "[(1, [65]), (3, [66, 67])] :: (u32 \<times> u8 list) list"
  have first: "ipc_inv (Suc (Suc (length ?ms + 0))) example_ipc" by (rule example_ipc) simp
  have ok: "sendable 2 (9, [1])" "\<forall>m\<in>set ?ms. sendable 2 m" by (simp_all add: sendable_def)
  obtain s0 where s0: "post 2 (9, [1]) example_ipc = Some s0"
    using ipcq.send_fails [OF first, of 2 "(9, [1])"] ok(1) example_ipc(3) by (cases "post 2 (9, [1]) example_ipc") auto
  note e = ipcq.send_effect [OF first s0]
  have q: "ipc_queue s0 2 = [(9, [1])]" using e example_ipc(2) by simp
  have room: "length ?ms \<le> free_slots s0" using e example_ipc(3) by simp
  have len: "length [(9, [1]) :: u32 \<times> u8 list] + length ?ms = 3" "[(9, [1])] @ ?ms = [(9, [1]), (1, [65]), (3, [66, 67])]"
    by simp_all
  from ipc_delivers_in_order [OF conjunct1 [OF e] ok(2) room] s0 show ?thesis unfolding q len by blast
qed

end
