(* ===== verification/Vfs_Path.thy ===== *)
theory Vfs_Path
  imports Kstring "HOL-Library.Sublist"
begin

text \<open>
  Paths of the virtual filesystem (\<open>src/kernel/vfs.c\<close>): \<open>vfs_normalize_path\<close> with its array
  of 64 characters, and the prefix tests mounts are selected with.  The meaning of a path
  is the walk of its components from the root (\<open>tokens\<close>, \<open>resolve\<close>); \<open>spell\<close> writes a walk
  down again, and \<open>canon\<close> is the reference the loop is proved equal to.
\<close>

section \<open>Paths\<close>

definition VFS_MAX_PATH :: nat where "VFS_MAX_PATH = 64"

subsection \<open>Normalisation\<close>

text \<open>The scanning loops advance the input index while it is in bounds and the character
  satisfies a test.  Indices are below 64, so the 32-bit counters of the source never wrap.\<close>

function scan_while :: "(char \<Rightarrow> bool) \<Rightarrow> string \<Rightarrow> nat \<Rightarrow> nat" where
  "scan_while P path input =
     (if input < VFS_MAX_PATH \<and> P (char_at path input) then scan_while P path (input + 1) else input)"
  by pat_completeness auto
termination
  by (relation "measure (\<lambda>(P, path, input). VFS_MAX_PATH - input)") auto

declare scan_while.simps [simp del]

definition skip_separators :: "string \<Rightarrow> nat \<Rightarrow> nat" where
  "skip_separators = scan_while (\<lambda>c. c = CHR ''/'')"

definition component_end :: "string \<Rightarrow> nat \<Rightarrow> nat" where
  "component_end = scan_while (\<lambda>c. c \<noteq> CHR ''/'' \<and> c \<noteq> NUL)"

fun drop_component :: "string \<Rightarrow> nat \<Rightarrow> nat" where
  "drop_component normalized 0 = 0"
| "drop_component normalized (Suc n) =
     (if Suc n > 1 \<and> normalized ! n \<noteq> CHR ''/'' then drop_component normalized n else Suc n)"

lemma scan_while_eq:
  assumes "\<not> P NUL" "i \<le> 64"
  shows "scan_while P path i = min 64 (i + length (takeWhile P (drop i path)))"
  using assms(2)
proof (induction "64 - i" arbitrary: i)
  case 0
  then show ?case by (subst scan_while.simps) (simp add: VFS_MAX_PATH_def)
next
  case (Suc n)
  then have i: "i < 64" by simp
  show ?case
  proof (cases "P (char_at path i)")
    case True
    then have "i < length path" using assms(1) by (auto simp: char_at_def split: if_splits)
    then have "drop i path = char_at path i # drop (Suc i) path"
      by (simp add: Cons_nth_drop_Suc char_at_def)
    moreover have "scan_while P path i = scan_while P path (Suc i)"
      using True i by (subst scan_while.simps) (simp add: VFS_MAX_PATH_def)
    ultimately show ?thesis using Suc True i by simp
  next
    case False
    then have "takeWhile P (drop i path) = []"
      by (cases "i < length path") (simp_all add: char_at_def flip: Cons_nth_drop_Suc)
    then show ?thesis using False i by (subst scan_while.simps) simp
  qed
qed

lemma scan_while_mono: "i \<le> scan_while P path i"
proof (induction P path i rule: scan_while.induct)
  case (1 P path i)
  then show ?case by (subst scan_while.simps) force
qed

lemma component_end_progress:
  "s < VFS_MAX_PATH \<Longrightarrow> char_at path s \<noteq> CHR ''/'' \<Longrightarrow> char_at path s \<noteq> NUL \<Longrightarrow> s < component_end path s"
  using scan_while_mono [of "s + 1"] unfolding component_end_def by (subst scan_while.simps) (simp add: Suc_le_eq)

lemma skip_separators_stop:
  "skip_separators path i < VFS_MAX_PATH \<Longrightarrow> char_at path (skip_separators path i) \<noteq> CHR ''/''"
  unfolding skip_separators_def
proof (induction "\<lambda>c. c = CHR ''/''" path i rule: scan_while.induct)
  case (1 path i)
  show ?case
  proof (cases "i < VFS_MAX_PATH \<and> char_at path i = CHR ''/''")
    case True
    with 1 show ?thesis by (subst scan_while.simps, subst (asm) (2) scan_while.simps) simp
  next
    case False
    with 1(2) show ?thesis by (subst scan_while.simps, subst (asm) scan_while.simps) auto
  qed
qed

lemma normalize_step_decreases:
  assumes "s = skip_separators path i" "\<not> VFS_MAX_PATH \<le> s" "char_at path s \<noteq> NUL"
  shows "VFS_MAX_PATH - component_end path s < VFS_MAX_PATH - i"
proof -
  have "i \<le> s" using scan_while_mono assms(1) by (simp add: skip_separators_def)
  moreover have "s < component_end path s"
    using component_end_progress [of s path] skip_separators_stop [of path i] assms by simp
  ultimately show ?thesis using assms(2) by simp
qed

function normalize_loop :: "string \<Rightarrow> nat \<Rightarrow> nat \<Rightarrow> string \<Rightarrow> string \<times> int" where
  "normalize_loop path input output normalized =
     (let start = skip_separators path input
      in if VFS_MAX_PATH \<le> start then (normalized, ERR)
         else if char_at path start = NUL then (normalized[output := NUL], OK)
         else
           let input' = component_end path start;
               len = input' - start
           in if VFS_MAX_PATH \<le> input' then (normalized, ERR)
              else if len = 1 \<and> char_at path start = CHR ''.'' then normalize_loop path input' output normalized
              else if len = 2 \<and> char_at path start = CHR ''.'' \<and> char_at path (start + 1) = CHR ''.'' then
                if output = 1 then (normalized, ERR)
                else
                  let out = drop_component normalized output
                  in normalize_loop path input' (if out > 1 then out - 1 else out) normalized
              else
                let required = len + (if output > 1 then 1 else 0)
                in if output > (VFS_MAX_PATH - 1) - required then (normalized, ERR)
                   else
                     let n1 = (if output > 1 then normalized[output := CHR ''/''] else normalized);
                         o1 = (if output > 1 then output + 1 else output);
                         n2 = fold (\<lambda>i n. n[o1 + i := char_at path (start + i)]) [0..<len] n1
                     in normalize_loop path input' (o1 + len) n2)"
  by pat_completeness auto
termination
proof (relation "measure (\<lambda>(path, input, output, normalized). VFS_MAX_PATH - input)", goal_cases)
  case 1
  show ?case by simp
next
  case (2 path input outp normalized s e l)
  then show ?case using normalize_step_decreases [of s path input] by simp
next
  case (3 path input outp normalized s e l)
  then show ?case using normalize_step_decreases [of s path input] by simp
next
  case (4 path input outp normalized s e l)
  then show ?case using normalize_step_decreases [of s path input] by simp
qed

declare normalize_loop.simps [simp del]

definition vfs_normalize_path :: "cstr \<Rightarrow> string \<Rightarrow> string \<times> int" where
  "vfs_normalize_path path normalized =
     (case path of None \<Rightarrow> (normalized, ERR)
      | Some p \<Rightarrow> if char_at p 0 \<noteq> CHR ''/'' then (normalized, ERR)
                  else normalize_loop p 1 1 (normalized[0 := CHR ''/'']))"

definition vfs_copy_path :: "string \<Rightarrow> cstr \<Rightarrow> string \<times> int" where
  "vfs_copy_path dest path = vfs_normalize_path path dest"

text \<open>The idiom \<open>char canonical[VFS_MAX_PATH]; if (vfs_normalize_path(path, canonical) != 0)\<close>: the
  string in the local array, or \<open>None\<close> on failure.\<close>

definition normalized :: "cstr \<Rightarrow> string option" where
  "normalized path =
     (case vfs_normalize_path path (replicate VFS_MAX_PATH NUL) of
        (canonical, status) \<Rightarrow> if status \<noteq> OK then None else Some (c_string canonical))"

subsection \<open>Prefixes\<close>

fun path_length_loop :: "string \<Rightarrow> nat" where
  "path_length_loop [] = 0"
| "path_length_loop (c # cs) = (if c = NUL then 0 else Suc (path_length_loop cs))"

definition vfs_path_length :: "cstr \<Rightarrow> nat" where
  "vfs_path_length path = (case path of None \<Rightarrow> 0 | Some p \<Rightarrow> path_length_loop p)"

fun mount_child_loop :: "string \<Rightarrow> string \<Rightarrow> bool" where
  "mount_child_loop path [] = (char_at path 0 = CHR ''/'' \<and> char_at path 1 \<noteq> NUL)"
| "mount_child_loop path (m # ms) = (if char_at path 0 \<noteq> m then False else mount_child_loop (tl path) ms)"

definition vfs_path_is_mount_child :: "cstr \<Rightarrow> cstr \<Rightarrow> bool" where
  "vfs_path_is_mount_child path mount_path =
     (case (path, mount_path) of
        (Some p, Some m) \<Rightarrow>
          if char_at p 0 \<noteq> CHR ''/'' \<or> char_at m 0 \<noteq> CHR ''/'' then False
          else if char_at m 0 = CHR ''/'' \<and> char_at m 1 = NUL then char_at p 1 \<noteq> NUL
          else mount_child_loop p m
      | _ \<Rightarrow> False)"

fun strip_loop :: "string \<Rightarrow> string \<Rightarrow> cstr" where
  "strip_loop path [] = (if char_at path 0 = NUL then None else Some path)"
| "strip_loop path (c # pre) = (if char_at path 0 \<noteq> c then None else strip_loop (tl path) pre)"

definition vfs_strip_prefix :: "cstr \<Rightarrow> cstr \<Rightarrow> cstr" where
  "vfs_strip_prefix path pre =
     (case (path, pre) of
        (Some p, Some q) \<Rightarrow> if char_at q 0 = NUL then None else strip_loop p q
      | _ \<Rightarrow> None)"

subsection \<open>What a path means\<close>

text \<open>The components between separators, the directory walk they describe, and the
  canonical spelling of a list of component names.\<close>

function tokens :: "string \<Rightarrow> string list" where
  "tokens s =
     (let t = dropWhile (\<lambda>c. c = CHR ''/'') s
      in if t = [] then [] else takeWhile (\<lambda>c. c \<noteq> CHR ''/'') t # tokens (dropWhile (\<lambda>c. c \<noteq> CHR ''/'') t))"
  by pat_completeness auto
termination
proof (relation "measure length", goal_cases)
  case 1
  show ?case by simp
next
  case (2 s t)
  then have "hd t \<noteq> CHR ''/''" using hd_dropWhile [of "\<lambda>c. c = CHR ''/''" s] by auto
  then have "length (dropWhile (\<lambda>c. c \<noteq> CHR ''/'') t) < length t"
    using 2(2) length_dropWhile_le [of "\<lambda>c. c \<noteq> CHR ''/''" "tl t"] by (cases t) auto
  also have "\<dots> \<le> length s" using 2(1) length_dropWhile_le [of "\<lambda>c. c = CHR ''/''" s] by simp
  finally show ?case by simp
qed

declare tokens.simps [simp del]

fun resolve :: "string list \<Rightarrow> string list \<Rightarrow> string list option" where
  "resolve [] st = Some (rev st)"
| "resolve (c # cs) st =
     (if c = ''.'' then resolve cs st
      else if c = ''..'' then (case st of [] \<Rightarrow> None | _ # st' \<Rightarrow> resolve cs st')
      else resolve cs (c # st))"

definition spell :: "string list \<Rightarrow> string" where
  "spell cs = (if cs = [] then ''/'' else concat (map (\<lambda>c. CHR ''/'' # c) cs))"

definition component_ok :: "string \<Rightarrow> bool" where
  "component_ok c \<longleftrightarrow> c \<noteq> [] \<and> CHR ''/'' \<notin> set c \<and> NUL \<notin> set c \<and> c \<noteq> ''.'' \<and> c \<noteq> ''..''"

definition canon :: "cstr \<Rightarrow> string option" where
  "canon path =
     (case path of None \<Rightarrow> None
      | Some p \<Rightarrow> if p \<noteq> [] \<and> hd p = CHR ''/'' \<and> length p < 64
                  then map_option spell (resolve (tokens p) []) else None)"

lemma tokens_Nil [simp]: "tokens [] = []"
  by (subst tokens.simps) simp

lemma tokens_sep [simp]: "tokens (CHR ''/'' # s) = tokens s"
  by (simp add: tokens.simps [of s] tokens.simps [of "CHR ''/'' # s"])

lemma tokens_component:
  assumes "c \<noteq> []" "CHR ''/'' \<notin> set c" "r = [] \<or> hd r = CHR ''/''"
  shows "tokens (c @ r) = c # tokens r"
proof -
  have c: "dropWhile (\<lambda>c. c = CHR ''/'') (c @ r) = c @ r" using assms by (cases c) auto
  have "takeWhile (\<lambda>c. c \<noteq> CHR ''/'') (c @ r) = c @ takeWhile (\<lambda>c. c \<noteq> CHR ''/'') r"
    using assms(2) by (intro takeWhile_append2) auto
  moreover have "dropWhile (\<lambda>c. c \<noteq> CHR ''/'') (c @ r) = dropWhile (\<lambda>c. c \<noteq> CHR ''/'') r"
    using assms(2) by (intro dropWhile_append2) auto
  moreover have "takeWhile (\<lambda>c. c \<noteq> CHR ''/'') r = [] \<and> dropWhile (\<lambda>c. c \<noteq> CHR ''/'') r = r"
    using assms(3) by (cases r) simp_all
  ultimately show ?thesis using c assms(1) by (simp add: tokens.simps [of "c @ r"])
qed

lemma tokens_ok: "c \<in> set (tokens s) \<Longrightarrow> c \<noteq> [] \<and> CHR ''/'' \<notin> set c \<and> set c \<subseteq> set s"
proof (induction s rule: tokens.induct)
  case (1 s)
  define t where "t = dropWhile (\<lambda>c. c = CHR ''/'') s"
  have sub: "set t \<subseteq> set s" unfolding t_def by (auto dest: set_dropWhileD)
  have eq: "tokens s = (if t = [] then []
      else takeWhile (\<lambda>c. c \<noteq> CHR ''/'') t # tokens (dropWhile (\<lambda>c. c \<noteq> CHR ''/'') t))"
    by (subst tokens.simps) (simp only: Let_def t_def)
  show ?case
  proof (cases "t = []")
    case True
    then show ?thesis using 1(2) eq by simp
  next
    case False
    then have hd: "hd t \<noteq> CHR ''/''" unfolding t_def using hd_dropWhile [of "\<lambda>c. c = CHR ''/''" s] by auto
    have "c = takeWhile (\<lambda>c. c \<noteq> CHR ''/'') t \<or> c \<in> set (tokens (dropWhile (\<lambda>c. c \<noteq> CHR ''/'') t))"
      using 1(2) False unfolding eq by auto
    then show ?thesis
    proof
      assume c: "c = takeWhile (\<lambda>c. c \<noteq> CHR ''/'') t"
      then show ?thesis using hd False sub by (cases t) (auto dest: set_takeWhileD)
    next
      assume "c \<in> set (tokens (dropWhile (\<lambda>c. c \<noteq> CHR ''/'') t))"
      from 1(1) [OF t_def False this] show ?thesis using sub set_dropWhileD by fastforce
    qed
  qed
qed

lemma tokens_spell: "\<forall>c\<in>set cs. component_ok c \<Longrightarrow> tokens (spell cs) = cs"
proof -
  have "tokens (concat (map (\<lambda>c. CHR ''/'' # c) cs)) = cs" if "\<forall>c\<in>set cs. component_ok c" for cs
    using that
  proof (induction cs)
    case (Cons c cs)
    have "concat (map (\<lambda>c. CHR ''/'' # c) cs) = [] \<or> hd (concat (map (\<lambda>c. CHR ''/'' # c) cs)) = CHR ''/''"
      by (cases cs) auto
    with Cons show ?case using tokens_component [of c] by (simp add: component_ok_def)
  qed simp
  note this [of cs]
  moreover have "tokens (spell cs) = tokens (concat (map (\<lambda>c. CHR ''/'' # c) cs))"
    by (cases "cs = []") (simp_all add: spell_def)
  ultimately show "\<forall>c\<in>set cs. component_ok c \<Longrightarrow> tokens (spell cs) = cs" by (simp only:)
qed

lemma resolve_ok:
  assumes "resolve ts st = Some cs" "\<forall>c\<in>set ts. c \<noteq> [] \<and> CHR ''/'' \<notin> set c \<and> NUL \<notin> set c"
    "\<forall>c\<in>set st. component_ok c"
  shows "\<forall>c\<in>set cs. component_ok c"
  using assms
proof (induction ts arbitrary: st)
  case (Cons c ts)
  have r: "resolve (c # ts) st = Some cs" and ts: "\<forall>c\<in>set ts. c \<noteq> [] \<and> CHR ''/'' \<notin> set c \<and> NUL \<notin> set c"
    using Cons.prems(1,2) by simp_all
  consider "c = ''.''" | "c \<noteq> ''.''" "c = ''..''" | "c \<noteq> ''.''" "c \<noteq> ''..''" by blast
  then show ?case
  proof cases
    case 1
    then have "resolve ts st = Some cs" using r by simp
    from Cons.IH [OF this ts Cons.prems(3)] show ?thesis .
  next
    case 2
    then obtain s st' where st: "st = s # st'" "resolve ts st' = Some cs" using r by (cases st) simp_all
    then have "\<forall>c\<in>set st'. component_ok c" using Cons.prems(3) by simp
    from Cons.IH [OF st(2) ts this] show ?thesis .
  next
    case 3
    then have "resolve ts (c # st) = Some cs" using r by simp
    moreover have "component_ok c" using Cons.prems(2) 3 by (simp add: component_ok_def)
    then have "\<forall>c\<in>set (c # st). component_ok c" using Cons.prems(3) by simp
    ultimately show ?thesis by (rule Cons.IH [OF _ ts])
  qed
qed auto


lemma resolve_canonical: "\<forall>c\<in>set ts. component_ok c \<Longrightarrow> resolve ts st = Some (rev st @ ts)"
proof (induction ts arbitrary: st)
  case (Cons c ts)
  then have "component_ok c" by simp
  then have "resolve (c # ts) st = resolve ts (c # st)" by (simp add: component_ok_def)
  also have "\<dots> = Some (rev (c # st) @ ts)" by (rule Cons.IH) (use Cons.prems in simp)
  finally show ?case by simp
qed simp

lemma NUL_spell: "\<forall>c\<in>set cs. component_ok c \<Longrightarrow> NUL \<notin> set (spell cs)"
  by (auto simp: spell_def component_ok_def)

lemma spell_snoc: "spell (cs @ [c]) = (if cs = [] then [] else spell cs) @ CHR ''/'' # c"
  by (simp add: spell_def)

subsection \<open>The loop follows the walk\<close>

lemma drop_component_eq:
  assumes "take n arr = pre @ CHR ''/'' # c" "CHR ''/'' \<notin> set c" "n \<le> length arr"
  shows "drop_component arr n = length pre + 1"
proof -
  have "drop_component arr (length pre + 1 + k) = length pre + 1" if "k \<le> length c" for k
    using that
  proof (induction k)
    case 0
    have "arr ! length pre = take n arr ! length pre" using assms(1,3) by (subst nth_take) (auto dest: arg_cong [of _ _ length])
    then have "arr ! length pre = CHR ''/''" unfolding assms(1) by simp
    then show ?case by simp
  next
    case (Suc k)
    have "arr ! (length pre + 1 + k) = take n arr ! (length pre + 1 + k)"
      using assms(1,3) Suc.prems by (subst nth_take) (auto dest: arg_cong [of _ _ length])
    also have "\<dots> = c ! k" unfolding assms(1) by (simp add: nth_append)
    also have "\<dots> \<noteq> CHR ''/''" using assms(2) Suc.prems by (auto simp: in_set_conv_nth)
    finally show ?case using Suc by simp
  qed
  from this [of "length c"] arg_cong [OF assms(1), of length] assms(3) show ?thesis by simp
qed

lemma skip_separators_eq:
  assumes "length p < 64" "i \<le> length p"
  shows "drop (skip_separators p i) p = dropWhile (\<lambda>c. c = CHR ''/'') (drop i p)" "skip_separators p i \<le> length p"
proof -
  have "length (takeWhile (\<lambda>c. c = CHR ''/'') (drop i p)) \<le> length p - i"
    by (metis length_drop length_takeWhile_le)
  with assms have s: "skip_separators p i = i + length (takeWhile (\<lambda>c. c = CHR ''/'') (drop i p))"
    unfolding skip_separators_def by (subst scan_while_eq) auto
  show "drop (skip_separators p i) p = dropWhile (\<lambda>c. c = CHR ''/'') (drop i p)"
    unfolding s by (simp add: dropWhile_eq_drop add.commute)
  show "skip_separators p i \<le> length p"
    using s \<open>length _ \<le> length p - i\<close> assms(2) by simp
qed

lemma component_end_eq:
  assumes "length p < 64" "i \<le> length p" "NUL \<notin> set p"
  shows "take (component_end p i - i) (drop i p) = takeWhile (\<lambda>c. c \<noteq> CHR ''/'') (drop i p)"
    "drop (component_end p i) p = dropWhile (\<lambda>c. c \<noteq> CHR ''/'') (drop i p)"
    "component_end p i \<le> length p"
    "component_end p i - i = length (takeWhile (\<lambda>c. c \<noteq> CHR ''/'') (drop i p))"
proof -
  have eq: "takeWhile (\<lambda>c. c \<noteq> CHR ''/'' \<and> c \<noteq> NUL) (drop i p) = takeWhile (\<lambda>c. c \<noteq> CHR ''/'') (drop i p)"
    using assms(3) by (intro takeWhile_cong) (auto dest: in_set_dropD)
  have le: "length (takeWhile (\<lambda>c. c \<noteq> CHR ''/'') (drop i p)) \<le> length p - i"
    by (metis length_drop length_takeWhile_le)
  with assms have s: "component_end p i = i + length (takeWhile (\<lambda>c. c \<noteq> CHR ''/'') (drop i p))"
    unfolding component_end_def by (subst scan_while_eq) (auto simp: eq)
  show "take (component_end p i - i) (drop i p) = takeWhile (\<lambda>c. c \<noteq> CHR ''/'') (drop i p)"
    unfolding s by (simp add: takeWhile_eq_take [symmetric])
  show "drop (component_end p i) p = dropWhile (\<lambda>c. c \<noteq> CHR ''/'') (drop i p)"
    unfolding s by (simp add: dropWhile_eq_drop add.commute)
  show "component_end p i \<le> length p" using s le assms(2) by simp
  show "component_end p i - i = length (takeWhile (\<lambda>c. c \<noteq> CHR ''/'') (drop i p))" using s by simp
qed

lemma tokens_step:
  assumes "t = dropWhile (\<lambda>c. c = CHR ''/'') s"
  shows "tokens s = (if t = [] then []
     else takeWhile (\<lambda>c. c \<noteq> CHR ''/'') t # tokens (dropWhile (\<lambda>c. c \<noteq> CHR ''/'') t))"
  unfolding assms by (subst tokens.simps) (simp only: Let_def)

lemma normalize_loop_done:
  assumes "length p < 64" "i \<le> length p" "tokens (drop i p) = []"
  shows "normalize_loop p i out arr = (arr[out := NUL], OK)"
proof -
  have "drop (skip_separators p i) p = []"
    using assms(3) unfolding tokens_step [OF skip_separators_eq(1) [OF assms(1,2)]] by (auto split: if_splits)
  then have "skip_separators p i = length p" using skip_separators_eq(2) [OF assms(1,2)] by simp
  then show ?thesis using assms(1)
    by (subst normalize_loop.simps) (simp add: char_at_def VFS_MAX_PATH_def)
qed

text \<open>One round of the loop on the component \<open>c\<close> that lies at \<open>[s, e)\<close>.\<close>

lemma normalize_loop_step:
  assumes p: "length p < 64" "NUL \<notin> set p" and i: "i \<le> length p" and t: "tokens (drop i p) = c # ts"
  obtains s e where "i \<le> s" "e = s + length c" "e \<le> length p" "take (length c) (drop s p) = c"
    "ts = tokens (drop e p)" "e < length p \<Longrightarrow> p ! e = CHR ''/''" "i < length p \<Longrightarrow> p ! i = CHR ''/'' \<Longrightarrow> i < s"
    "normalize_loop p i out arr =
       (if c = ''.'' then normalize_loop p e out arr
        else if c = ''..'' then
          if out = 1 then (arr, ERR)
          else let o1 = drop_component arr out in normalize_loop p e (if o1 > 1 then o1 - 1 else o1) arr
        else if out > 63 - (length c + (if out > 1 then 1 else 0)) then (arr, ERR)
        else let n1 = (if out > 1 then arr[out := CHR ''/''] else arr);
                 o1 = (if out > 1 then out + 1 else out)
             in normalize_loop p e (o1 + length c) (fold (\<lambda>k n. n[o1 + k := c ! k]) [0..<length c] n1))"
proof -
  define s where "s = skip_separators p i"
  define e where "e = component_end p s"
  note se = skip_separators_eq [OF p(1) i, folded s_def]
  note ee = component_end_eq [OF p(1) se(2) p(2), folded e_def]
  have ne: "drop s p \<noteq> []" using t unfolding tokens_step [OF se(1)] by (auto simp del: drop_eq_Nil split: if_splits)
  have c: "c = takeWhile (\<lambda>c. c \<noteq> CHR ''/'') (drop s p)" "ts = tokens (drop e p)"
    using t ne unfolding tokens_step [OF se(1)] ee(2) by (simp_all del: drop_eq_Nil)
  have ge: "i \<le> s" "s \<le> e" unfolding s_def e_def skip_separators_def component_end_def by (rule scan_while_mono)+
  have len: "e - s = length c" using ee(4) c(1) by simp
  have s64: "s < length p" using ne by simp
  have hd: "char_at p s \<noteq> CHR ''/''" using skip_separators_stop [of p i] s64 p(1) by (simp add: s_def VFS_MAX_PATH_def)
  have nn: "char_at p s \<noteq> NUL" using p(2) s64 nth_mem by (metis char_at_def)
  have take: "take (length c) (drop s p) = c" using ee(1) c(1) len by simp
  have at: "char_at p (s + k) = c ! k" if "k < length c" for k
  proof -
    have "k < length (drop s p)" using that take by (metis length_take min_less_iff_conj)
    then have "s + k < length p" by simp
    then have "char_at p (s + k) = drop s p ! k" by (simp add: char_at_def)
    also have "\<dots> = take (length c) (drop s p) ! k" using that by simp
    finally show ?thesis using take by simp
  qed
  have "drop s p = char_at p s # drop (Suc s) p" using s64 by (simp add: char_at_def Cons_nth_drop_Suc)
  then have cne: "c \<noteq> []" using hd c(1) by simp
  have dot: "length c = 1 \<and> char_at p s = CHR ''.'' \<longleftrightarrow> c = ''.''"
    using at [of 0] cne by (cases c) (auto simp: char_at_def)
  have dots: "length c = 2 \<and> char_at p s = CHR ''.'' \<and> char_at p (s + 1) = CHR ''.'' \<longleftrightarrow> c = ''..''"
    using at [of 0] at [of 1] cne by (auto simp: length_Suc_conv numeral_2_eq_2)
  have b: "(VFS_MAX_PATH \<le> s) = False" "(char_at p s = NUL) = False" "(VFS_MAX_PATH \<le> e) = False" "VFS_MAX_PATH - 1 = 63"
    using s64 p(1) nn ee(3) by (simp_all add: VFS_MAX_PATH_def)
  have f: "fold (\<lambda>k n. n[o1 + k := char_at p (s + k)]) [0..<length c] n1 =
        fold (\<lambda>k n. n[o1 + k := c ! k]) [0..<length c] n1" for o1 n1
    using at by (intro fold_cong) auto
  have eq: "normalize_loop p i out arr =
       (if c = ''.'' then normalize_loop p e out arr
        else if c = ''..'' then
          if out = 1 then (arr, ERR)
          else let o1 = drop_component arr out in normalize_loop p e (if o1 > 1 then o1 - 1 else o1) arr
        else if out > 63 - (length c + (if out > 1 then 1 else 0)) then (arr, ERR)
        else let n1 = (if out > 1 then arr[out := CHR ''/''] else arr);
                 o1 = (if out > 1 then out + 1 else out)
             in normalize_loop p e (o1 + length c) (fold (\<lambda>k n. n[o1 + k := c ! k]) [0..<length c] n1))"
    by (simp only: normalize_loop.simps [of p i] Let_def s_def [symmetric] e_def [symmetric] len dot dots b f
        if_False simp_thms cong: if_cong)
  have slash: "p ! e = CHR ''/''" if "e < length p"
  proof -
    have "dropWhile (\<lambda>c. c \<noteq> CHR ''/'') (drop s p) \<noteq> []" unfolding ee(2) [symmetric] using that by simp
    then have "hd (drop e p) = CHR ''/''" unfolding ee(2) by (rule hd_dropWhile [THEN notnotD])
    then show ?thesis using that by (simp add: hd_drop_conv_nth)
  qed
  have later: "i < s" if "i < length p" "p ! i = CHR ''/''"
  proof -
    have "i \<noteq> s" using hd that by (auto simp: char_at_def)
    with ge(1) show ?thesis by simp
  qed
  have "e = s + length c" using ge(2) len by simp
  from that [OF ge(1) this ee(3) take c(2) slash later eq] show thesis by blast
qed

text \<open>Array updates that append a separator and a component to the first \<open>n\<close> characters.\<close>

lemma append_component:
  assumes "take n arr = x" "n = length x" "n + length c < length arr"
  shows "take (n + length c) (fold (\<lambda>k a. a[n + k := c ! k]) [0..<length c] arr) = x @ c"
    "length (fold (\<lambda>k a. a[n + k := c ! k]) [0..<length c] arr) = length arr"
proof -
  have "fold (\<lambda>k a. a[n + k := c ! k]) [0..<m] arr = take n arr @ take m c @ drop (n + m) arr"
    if "m \<le> length c" for m
    using that
  proof (induction m)
    case (Suc m)
    have "drop (n + m) arr = arr ! (n + m) # drop (n + Suc m) arr"
      using assms(3) Suc.prems by (simp add: Cons_nth_drop_Suc)
    with Suc show ?case using assms(3)
      by (simp add: list_update_append take_Suc_conv_app_nth)
  qed simp
  from this [of "length c"] show
    "take (n + length c) (fold (\<lambda>k a. a[n + k := c ! k]) [0..<length c] arr) = x @ c"
    "length (fold (\<lambda>k a. a[n + k := c ! k]) [0..<length c] arr) = length arr"
    using assms by auto
qed

lemma spell_length_pos: "0 < length (spell cs)" "length (spell cs) = 1 \<longleftrightarrow> cs = []" "1 < length (spell cs) \<longleftrightarrow> cs \<noteq> []"
  if "\<forall>c\<in>set cs. component_ok c"
  using that by (cases cs; simp add: spell_def component_ok_def)+

text \<open>The state of the loop: the first \<open>out\<close> characters spell the stack of components
  walked so far, and the output never overtakes the input.\<close>

definition walk_state :: "string \<Rightarrow> nat \<Rightarrow> nat \<Rightarrow> string \<Rightarrow> string list \<Rightarrow> bool" where
  "walk_state p i out arr st \<longleftrightarrow> i \<le> length p \<and> length arr = 64 \<and> (\<forall>c\<in>set st. component_ok c) \<and>
     out = length (spell (rev st)) \<and> take out arr = spell (rev st) \<and> out \<le> i \<and>
     (1 < out \<and> i < length p \<longrightarrow> p ! i = CHR ''/'')"

lemma walk_stay:
  "walk_state p i out arr st \<Longrightarrow> i \<le> e \<Longrightarrow> e \<le> length p \<Longrightarrow> (e < length p \<Longrightarrow> p ! e = CHR ''/'') \<Longrightarrow>
   walk_state p e out arr st"
  unfolding walk_state_def by auto

lemma walk_pop:
  assumes w: "walk_state p i out arr (d # st)" and e: "i \<le> e" "e \<le> length p" "e < length p \<Longrightarrow> p ! e = CHR ''/''"
  shows "walk_state p e (if drop_component arr out > 1 then drop_component arr out - 1 else drop_component arr out) arr st"
proof -
  define pre where "pre = (if st = [] then [] else spell (rev st))"
  have sp: "spell (rev (d # st)) = pre @ CHR ''/'' # d" using spell_snoc [of "rev st" d] by (simp add: pre_def)
  note ws = w [unfolded walk_state_def sp]
  have "component_ok d" using ws by simp
  then have ok: "CHR ''/'' \<notin> set d" "\<forall>c\<in>set (rev st). component_ok c" using ws by (simp_all add: component_ok_def)
  have t: "take out arr = pre @ CHR ''/'' # d" using ws by blast
  then have out: "out \<le> length arr" using ws by (metis length_take min.cobounded1 min_def)
  have dc: "drop_component arr out = length pre + 1" by (rule drop_component_eq [OF t ok(1) out])
  have len: "out = length pre + 1 + length d" using w sp by (simp add: walk_state_def)
  have tk: "take k arr = take k (pre @ CHR ''/'' # d)" if "k \<le> out" for k
    using t that by (metis min.absorb1 take_take)
  show ?thesis
  proof (cases "st = []")
    case True
    then show ?thesis using w e dc tk [of 1] len by (simp add: walk_state_def pre_def spell_def)
  next
    case False
    then have "1 < length pre" using spell_length_pos(3) [OF ok(2)] by (simp add: pre_def)
    then have "drop_component arr out > 1" "drop_component arr out - 1 = length (spell (rev st))"
      using False dc by (auto simp: pre_def)
    moreover have "take (length (spell (rev st))) arr = spell (rev st)" "length (spell (rev st)) \<le> i"
      using False tk [of "length pre"] len ws by (simp_all add: pre_def)
    ultimately show ?thesis using e ws by (simp add: walk_state_def)
  qed
qed

lemma walk_push:
  assumes w: "walk_state p i out arr st" and c: "component_ok c" and p: "length p < 64"
    and s: "i \<le> s" "i < length p \<Longrightarrow> p ! i = CHR ''/'' \<Longrightarrow> i < s" "s + length c \<le> length p"
      "s + length c < length p \<Longrightarrow> p ! (s + length c) = CHR ''/''"
    and o1: "o1 = (if out > 1 then out + 1 else out)" "n1 = (if out > 1 then arr[out := CHR ''/''] else arr)"
  shows "out \<le> 63 - (length c + (if out > 1 then 1 else 0))"
    "walk_state p (s + length c) (o1 + length c) (fold (\<lambda>k n. n[o1 + k := c ! k]) [0..<length c] n1) (c # st)"
proof -
  have st: "\<forall>c\<in>set (rev st). component_ok c" and out: "out = length (spell (rev st))" "take out arr = spell (rev st)" "length arr = 64"
    using w unfolding walk_state_def set_rev by blast+
  have cne: "c \<noteq> []" using c by (simp add: component_ok_def)
  have "i < length p" using s(1,3) cne by (cases c) auto
  then have os: "o1 \<le> s" using w s(1,2) unfolding o1 walk_state_def by (cases "1 < out") auto
  then have o64: "o1 + length c < 64" using s(3) p by simp
  then show "out \<le> 63 - (length c + (if out > 1 then 1 else 0))" unfolding o1 by (auto split: if_splits)
  have one: "out = 1 \<longleftrightarrow> st = []" "1 < out \<longleftrightarrow> st \<noteq> []" using spell_length_pos(2,3) [OF st] out(1) by simp_all
  have pre: "take o1 n1 = (if st = [] then [] else spell (rev st)) @ ''/''"
    using out o64 one unfolding o1 by (cases "1 < out") (auto simp: take_Suc_conv_app_nth spell_def)
  have len: "o1 = length ((if st = [] then [] else spell (rev st)) @ ''/'')" "length n1 = 64"
    using one out unfolding o1 by (auto simp: spell_def)
  have sp: "spell (rev (c # st)) = ((if st = [] then [] else spell (rev st)) @ ''/'') @ c"
    using spell_snoc [of "rev st" c] by simp
  note ap = append_component [OF pre len(1), of c, unfolded len(2), OF o64]
  have "length (spell (rev (c # st))) = o1 + length c" unfolding sp length_append len(1) ..
  then show "walk_state p (s + length c) (o1 + length c) (fold (\<lambda>k n. n[o1 + k := c ! k]) [0..<length c] n1) (c # st)"
    using ap os c st s(3,4) len(2) unfolding walk_state_def sp by auto
qed

definition holds_string :: "string \<Rightarrow> string \<Rightarrow> bool" where
  "holds_string arr s \<longleftrightarrow> length arr = 64 \<and> length s < 64 \<and> take (Suc (length s)) arr = s @ [NUL]"

lemma holds_string_c_string:
  assumes "holds_string arr s" "NUL \<notin> set s"
  shows "c_string arr = s"
proof -
  have "arr = (s @ [NUL]) @ drop (Suc (length s)) arr"
    using assms(1) append_take_drop_id [of "Suc (length s)" arr] by (simp add: holds_string_def)
  then have "c_string arr = c_string ((s @ [NUL]) @ drop (Suc (length s)) arr)" by (rule arg_cong)
  also have "\<dots> = s" using assms(2) by (simp add: takeWhile_append)
  finally show ?thesis .
qed

lemma normalize_loop_resolve:
  assumes p: "length p < 64" "NUL \<notin> set p" and w: "walk_state p i out arr st"
  shows "case resolve (tokens (drop i p)) st of
       None \<Rightarrow> snd (normalize_loop p i out arr) = ERR
     | Some cs \<Rightarrow> snd (normalize_loop p i out arr) = OK \<and> holds_string (fst (normalize_loop p i out arr)) (spell cs)"
  using w
proof (induction "length p - i" arbitrary: i out arr st rule: less_induct)
  case less
  have i: "i \<le> length p" using less.prems by (simp add: walk_state_def)
  show ?case
  proof (cases "tokens (drop i p)")
    case Nil
    have a: "length arr = 64" "take out arr = spell (rev st)" "out = length (spell (rev st))" "out < 64"
      using less.prems p(1) by (auto simp: walk_state_def)
    then have "holds_string (arr[out := NUL]) (spell (rev st))"
      by (simp add: holds_string_def take_Suc_conv_app_nth)
    then show ?thesis using normalize_loop_done [OF p(1) i Nil] Nil by simp
  next
    case (Cons c ts)
    have cs: "c \<noteq> []" "CHR ''/'' \<notin> set c" "NUL \<notin> set c"
      using tokens_ok [of c "drop i p"] Cons p(2) by (auto dest: in_set_dropD)
    show ?thesis
    proof (rule normalize_loop_step [OF p i Cons, of out arr], goal_cases)
    case (1 s e)
    note se = 1(1,2,3,5,6,7) and eq = 1(8)
    have "i < e" using se(1,2) cs(1) by (cases c) auto
    then have dec: "length p - e < length p - i" using se(3) by simp
    consider "c = ''.''" | "c \<noteq> ''.''" "c = ''..''" | "c \<noteq> ''.''" "c \<noteq> ''..''" by blast
    then show ?thesis
    proof cases
      case 1
      from less.hyps [OF dec walk_stay [OF less.prems less_imp_le [OF \<open>i < e\<close>] se(3,5)]] show ?thesis unfolding Cons eq using 1 se(4) by simp
    next
      case 2
      show ?thesis
      proof (cases st)
        case Nil
        then have "out = 1" using less.prems by (simp add: walk_state_def spell_def)
        then show ?thesis unfolding Cons eq using 2 Nil by simp
      next
        case st: (Cons d st')
        have "out \<noteq> 1" using less.prems spell_length_pos(2) [of "rev st"] st by (simp add: walk_state_def)
        moreover note less.hyps [OF dec walk_pop [OF less.prems [unfolded st] _ se(3,5)]] \<open>i < e\<close>
        ultimately show ?thesis unfolding Cons eq Let_def using 2 st se(4) by simp
      qed
    next
      case 3
      then have "component_ok c" using cs by (simp add: component_ok_def)
      note push = walk_push [OF less.prems this p(1) se(1,6) _ _ refl refl]
      have "e = s + length c" using se(2) .
      with push se(3,5) have le: "out \<le> 63 - (length c + (if out > 1 then 1 else 0))"
        and wp: "walk_state p e ((if out > 1 then out + 1 else out) + length c)
          (fold (\<lambda>k n. n[(if out > 1 then out + 1 else out) + k := c ! k]) [0..<length c]
             (if out > 1 then arr[out := CHR ''/''] else arr)) (c # st)" by simp_all
      from less.hyps [OF dec wp] show ?thesis
        unfolding Cons eq Let_def using 3 se(4) leD [OF le] by (simp only: resolve.simps if_False)
    qed
    qed
  qed
qed

text \<open>A path of 64 or more characters is always rejected.\<close>

lemma normalize_loop_long:
  assumes "64 \<le> length p" "NUL \<notin> set p"
  shows "snd (normalize_loop p i out arr) = ERR"
proof (induction "64 - i" arbitrary: i out arr rule: less_induct)
  case less
  let ?s = "skip_separators p i"
  show ?case
  proof (cases "64 \<le> ?s")
    case True
    then show ?thesis by (subst normalize_loop.simps) (simp add: VFS_MAX_PATH_def)
  next
    case False
    then have "?s < length p" using assms(1) by simp
    then have nn: "char_at p ?s \<noteq> NUL" using assms(2) nth_mem by (metis char_at_def)
    have "64 - component_end p ?s < 64 - i"
      using normalize_step_decreases [OF refl _ nn] False by (simp add: VFS_MAX_PATH_def)
    note IH = less.hyps [OF this]
    show ?thesis using False nn by (subst normalize_loop.simps) (simp add: Let_def IH VFS_MAX_PATH_def)
  qed
qed

lemma canon_Some:
  assumes "canon (Some p) = Some q" "NUL \<notin> set p"
  obtains cs where "q = spell cs" "\<forall>c\<in>set cs. component_ok c" "resolve (tokens p) [] = Some cs"
proof -
  from assms(1) obtain cs where cs: "resolve (tokens p) [] = Some cs" "q = spell cs"
    by (auto simp: canon_def split: if_splits)
  have "\<forall>c\<in>set (tokens p). c \<noteq> [] \<and> CHR ''/'' \<notin> set c \<and> NUL \<notin> set c"
    using tokens_ok assms(2) by blast
  from resolve_ok [OF cs(1) this] cs show thesis by (intro that) auto
qed

lemma vfs_normalize_path_canon:
  assumes p: "NUL \<notin> set p" and arr: "length arr = 64"
  shows "case canon (Some p) of
       None \<Rightarrow> snd (vfs_normalize_path (Some p) arr) = ERR
     | Some q \<Rightarrow> snd (vfs_normalize_path (Some p) arr) = OK \<and> holds_string (fst (vfs_normalize_path (Some p) arr)) q"
proof (cases "p \<noteq> [] \<and> hd p = CHR ''/''")
  case False
  then have "char_at p 0 \<noteq> CHR ''/''" by (cases p) (auto simp: char_at_def)
  then show ?thesis using False by (auto simp: canon_def vfs_normalize_path_def)
next
  case True
  then obtain r where r: "p = CHR ''/'' # r" by (cases p) auto
  then have eq: "vfs_normalize_path (Some p) arr = normalize_loop p 1 1 (arr[0 := CHR ''/''])"
    by (simp add: vfs_normalize_path_def char_at_def)
  show ?thesis
  proof (cases "length p < 64")
    case False
    then show ?thesis using normalize_loop_long [of p] p by (simp add: eq canon_def)
  next
    case len: True
    have "walk_state p 1 1 (arr[0 := CHR ''/'']) []"
      using r arr by (cases arr) (auto simp: walk_state_def spell_def)
    note res = normalize_loop_resolve [OF len p this]
    have "tokens (drop 1 p) = tokens p" using r by simp
    then have "canon (Some p) = map_option spell (resolve (tokens (drop 1 p)) [])"
      using True len by (simp add: canon_def)
    with res show ?thesis unfolding eq by (cases "resolve (tokens (drop 1 p)) []") simp_all
  qed
qed

lemma canon_canonical:
  assumes "canon (Some p) = Some q" "NUL \<notin> set p"
  shows "length q < 64" "NUL \<notin> set q" "hd q = CHR ''/''" "canon (Some q) = Some q"
proof -
  obtain cs where cs: "q = spell cs" "\<forall>c\<in>set cs. component_ok c" using canon_Some [OF assms] by blast
  show len: "length q < 64"
    using vfs_normalize_path_canon [OF assms(2), of "replicate 64 NUL"] assms(1) by (simp add: holds_string_def)
  show "NUL \<notin> set q" using NUL_spell cs by simp
  show hd: "hd q = CHR ''/''" using cs by (cases cs) (simp_all add: spell_def)
  have "q \<noteq> []" using spell_length_pos(1) [OF cs(2)] cs(1) by auto
  then show "canon (Some q) = Some q"
    using len hd tokens_spell [OF cs(2)] resolve_canonical [OF cs(2), of "[]"] cs(1) by (simp add: canon_def)
qed

lemma normalized_canon:
  assumes "NUL \<notin> set p"
  shows "normalized (Some p) = canon (Some p)"
proof -
  obtain arr r where v: "vfs_normalize_path (Some p) (replicate VFS_MAX_PATH NUL) = (arr, r)" by fastforce
  show ?thesis
  proof (cases "canon (Some p)")
    case None
    then show ?thesis
      using vfs_normalize_path_canon [OF assms, of "replicate VFS_MAX_PATH NUL"] v
      by (simp add: normalized_def VFS_MAX_PATH_def)
  next
    case (Some q)
    then have "r = OK" "holds_string arr q"
      using vfs_normalize_path_canon [OF assms, of "replicate VFS_MAX_PATH NUL"] v by (simp_all add: VFS_MAX_PATH_def)
    then have "c_string arr = q" using holds_string_c_string canon_canonical(2) [OF Some assms] by blast
    then show ?thesis using Some v \<open>r = OK\<close> by (simp add: normalized_def)
  qed
qed

lemma normalized_None [simp]: "normalized None = None"
  by (simp add: normalized_def vfs_normalize_path_def)

lemma canonical_again:
  assumes "normalized (Some p) = Some q" "NUL \<notin> set p"
  shows "normalized (Some q) = Some q" "NUL \<notin> set q" "length q < 64"
  using canon_canonical [of p q] assms normalized_canon by simp_all

subsection \<open>Mounts are selected by components\<close>

lemma path_length_loop_eq [simp]: "NUL \<notin> set p \<Longrightarrow> path_length_loop p = length p"
  by (induction p) auto

lemma mount_child_loop_eq:
  assumes "NUL \<notin> set m" "NUL \<notin> set p"
  shows "mount_child_loop p m \<longleftrightarrow> (\<exists>r. r \<noteq> [] \<and> p = m @ CHR ''/'' # r)"
  using assms
proof (induction m arbitrary: p)
  case Nil
  then show ?case by (cases p; cases "tl p") (auto simp: char_at_def)
next
  case (Cons c m)
  then show ?case by (cases p) (auto simp: char_at_def)
qed

lemma strip_loop_eq:
  assumes "NUL \<notin> set q" "NUL \<notin> set p"
  shows "strip_loop p q = (if \<exists>r. r \<noteq> [] \<and> p = q @ r then Some (drop (length q) p) else None)"
  using assms
proof (induction q arbitrary: p)
  case Nil
  then show ?case by (cases p) (auto simp: char_at_def)
next
  case (Cons c q)
  then show ?case by (cases p) (auto simp: char_at_def)
qed

lemma spell_inject:
  assumes "\<forall>c\<in>set cs. component_ok c" "\<forall>c\<in>set ds. component_ok c"
  shows "spell cs = spell ds \<longleftrightarrow> cs = ds"
  using tokens_spell [OF assms(1)] tokens_spell [OF assms(2)] by metis

lemma spell_append:
  "ms \<noteq> [] \<Longrightarrow> ds \<noteq> [] \<Longrightarrow> spell (ms @ ds) = spell ms @ spell ds"
  by (simp add: spell_def)

lemma tokens_append_sep:
  assumes "\<forall>c\<in>set ms. component_ok c"
  shows "tokens (spell ms @ CHR ''/'' # r) = ms @ tokens r"
proof (cases "ms = []")
  case True
  then show ?thesis by (simp add: spell_def)
next
  case False
  have "tokens (concat (map (\<lambda>c. CHR ''/'' # c) ms) @ CHR ''/'' # r) = ms @ tokens r"
    using assms
  proof (induction ms)
    case (Cons c ms)
    have "tokens (c @ concat (map (\<lambda>c. CHR ''/'' # c) ms) @ CHR ''/'' # r) =
        c # tokens (concat (map (\<lambda>c. CHR ''/'' # c) ms) @ CHR ''/'' # r)"
      using Cons.prems by (intro tokens_component) (cases ms; auto simp: component_ok_def)+
    with Cons show ?case by simp
  qed simp
  with False show ?thesis by (simp add: spell_def)
qed

lemma mount_child_components:
  assumes "\<forall>c\<in>set cs. component_ok c" "\<forall>c\<in>set ms. component_ok c"
  shows "vfs_path_is_mount_child (Some (spell cs)) (Some (spell ms)) \<longleftrightarrow> strict_prefix ms cs"
proof -
  have at0: "char_at (spell xs) 0 = CHR ''/''" for xs by (cases xs) (auto simp: spell_def char_at_def)
  have at1: "char_at (spell xs) 1 = NUL \<longleftrightarrow> xs = []" if "\<forall>c\<in>set xs. component_ok c" for xs
    using that by (cases xs; cases "hd xs") (auto simp: spell_def char_at_def component_ok_def)
  show ?thesis
  proof (cases "ms = []")
    case True
    then show ?thesis using at0 at1 [OF assms(1)] at1 [OF assms(2)]
      by (auto simp: vfs_path_is_mount_child_def strict_prefix_def)
  next
    case False
    then have "vfs_path_is_mount_child (Some (spell cs)) (Some (spell ms)) \<longleftrightarrow>
        (\<exists>r. r \<noteq> [] \<and> spell cs = spell ms @ CHR ''/'' # r)"
      using at0 at1 [OF assms(2)] mount_child_loop_eq [OF NUL_spell [OF assms(2)] NUL_spell [OF assms(1)]]
      by (simp add: vfs_path_is_mount_child_def)
    also have "\<dots> \<longleftrightarrow> strict_prefix ms cs"
    proof
      assume "\<exists>r. r \<noteq> [] \<and> spell cs = spell ms @ CHR ''/'' # r"
      then obtain r where r: "r \<noteq> []" "spell cs = spell ms @ CHR ''/'' # r" by blast
      have "cs = ms @ tokens r" using tokens_spell [OF assms(1)] tokens_append_sep [OF assms(2)] r(2) by metis
      moreover have "ms \<noteq> cs" using r(2) by auto
      ultimately show "strict_prefix ms cs" by (auto simp: strict_prefix_def)
    next
      assume "strict_prefix ms cs"
      then obtain ds where ds: "cs = ms @ ds" "ds \<noteq> []" by (auto simp: strict_prefix_def prefix_def)
      then obtain d ds' where d: "ds = d # ds'" by (cases ds) auto
      have "d \<noteq> []" using assms(1) ds d by (simp add: component_ok_def)
      then show "\<exists>r. r \<noteq> [] \<and> spell cs = spell ms @ CHR ''/'' # r"
        using spell_append [OF False ds(2)] ds d
        by (intro exI [of _ "d @ concat (map (\<lambda>c. CHR ''/'' # c) ds')"]) (simp add: spell_def)
    qed
    finally show ?thesis .
  qed
qed

section \<open>Properties\<close>

text \<open>
  C24: \<open>vfs_normalize_path\<close> computes the canonical spelling of the walk a path describes.  A
  path is rejected exactly when it does not start with a separator, has 64 or more
  characters, or climbs above the root; otherwise the array holds the components that
  remain after dropping empty and \<open>.\<close> components and resolving \<open>..\<close>, and normalising that
  string again returns it unchanged, so two spellings of a walk become equal strings.
\<close>

theorem vfs_normalize_path_equiv:
  assumes "NUL \<notin> set p" "length arr = 64"
  shows "case canon (Some p) of
       None \<Rightarrow> snd (vfs_normalize_path (Some p) arr) = ERR
     | Some q \<Rightarrow> snd (vfs_normalize_path (Some p) arr) = OK \<and>
         c_string (fst (vfs_normalize_path (Some p) arr)) = q \<and>
         canon (Some q) = Some q \<and> length q < 64 \<and> (\<forall>c\<in>set (tokens q). component_ok c) \<and> q = spell (tokens q)"
proof (cases "canon (Some p)")
  case None
  then show ?thesis using vfs_normalize_path_canon [OF assms] by simp
next
  case (Some q)
  obtain cs where cs: "q = spell cs" "\<forall>c\<in>set cs. component_ok c" using canon_Some [OF Some assms(1)] by blast
  note q = canon_canonical [OF Some assms(1)]
  have "snd (vfs_normalize_path (Some p) arr) = OK \<and> holds_string (fst (vfs_normalize_path (Some p) arr)) q"
    using vfs_normalize_path_canon [OF assms] Some by simp
  then have "snd (vfs_normalize_path (Some p) arr) = OK" "c_string (fst (vfs_normalize_path (Some p) arr)) = q"
    using holds_string_c_string q(2) by blast+
  with Some q cs tokens_spell [OF cs(2)] show ?thesis by simp
qed

theorem vfs_normalize_path_equiv_witness:
  "snd (vfs_normalize_path (Some ''/a//b/.././c/'') (replicate 64 NUL)) = OK \<and>
   c_string (fst (vfs_normalize_path (Some ''/a//b/.././c/'') (replicate 64 NUL))) = ''/a/c''"
proof -
  have "tokens ''/a//b/.././c/'' = [''a'', ''b'', ''..'', ''.'', ''c'']"
    by (simp add: tokens.simps)
  then have "canon (Some ''/a//b/.././c/'') = Some ''/a/c''" by (simp add: canon_def spell_def)
  then show ?thesis
    using vfs_normalize_path_equiv [of "''/a//b/.././c/''" "replicate 64 NUL"] by simp
qed

end
