(* ===== verification/Page_Allocator.thy ===== *)
theory Page_Allocator
  imports Prelude
begin

text \<open>
  What the clients of the physical page allocator rely on: page tables, kernel stacks,
  heap arenas and user regions are all built from pages that an allocator hands out by
  address, with address 0 as the failure value.
\<close>

fun alloc_many :: "('s \<Rightarrow> 's \<times> u64) \<Rightarrow> nat \<Rightarrow> 's \<Rightarrow> 's \<times> u64 list" where
  "alloc_many alloc 0 s = (s, [])"
| "alloc_many alloc (Suc n) s =
     (let (s1, a) = alloc s; (s2, rest) = alloc_many alloc n s1 in (s2, a # rest))"

locale page_allocator =
  fixes alloc :: "'s \<Rightarrow> 's \<times> u64"
    and release :: "u64 \<Rightarrow> 's \<Rightarrow> 's"
    and managed :: "'s \<Rightarrow> u64 set"
    and avail :: "'s \<Rightarrow> u64 set"
    and inv :: "'s \<Rightarrow> bool"
  assumes avail_managed: "avail s \<subseteq> managed s"
    and avail_finite: "finite (avail s)"
    and avail_nonzero: "inv s \<Longrightarrow> 0 \<notin> avail s"
    and alloc_empty: "inv s \<Longrightarrow> avail s = {} \<Longrightarrow> alloc s = (s, 0)"
    and alloc_takes: "inv s \<Longrightarrow> avail s \<noteq> {} \<Longrightarrow>
      snd (alloc s) \<in> avail s \<and> avail (fst (alloc s)) = avail s - {snd (alloc s)}"
    and alloc_inv: "inv s \<Longrightarrow> inv (fst (alloc s))"
    and alloc_managed: "inv s \<Longrightarrow> managed (fst (alloc s)) = managed s"
    and release_gives: "inv s \<Longrightarrow> a \<in> managed s \<Longrightarrow> a \<noteq> 0 \<Longrightarrow>
      inv (release a s) \<and> avail (release a s) = insert a (avail s)"
    and release_managed: "managed (release a s) = managed s"
    and release_foreign: "inv s \<Longrightarrow> a \<notin> managed s \<Longrightarrow> release a s = s"
begin

lemma alloc_zero_iff: "inv s \<Longrightarrow> snd (alloc s) = 0 \<longleftrightarrow> avail s = {}"
  by (metis alloc_empty alloc_takes avail_nonzero snd_conv)

lemma alloc_fails: "inv s \<Longrightarrow> alloc s = (s', 0) \<Longrightarrow> s' = s \<and> avail s = {}"
  by (metis alloc_empty alloc_zero_iff fst_conv snd_conv)

lemma alloc_succeeds:
  assumes "inv s" "alloc s = (s', a)" "a \<noteq> 0"
  shows "a \<in> avail s" "avail s' = avail s - {a}" "inv s'" "managed s' = managed s"
    "a \<in> managed s"
proof -
  from assms have "avail s \<noteq> {}" using alloc_zero_iff by fastforce
  with assms alloc_takes [of s] show "a \<in> avail s" "avail s' = avail s - {a}" by auto
  then show "a \<in> managed s" using avail_managed by blast
  show "inv s'" using assms alloc_inv [of s] by simp
  show "managed s' = managed s" using assms alloc_managed [of s] by simp
qed

text \<open>Successive allocations never hand out a page twice.\<close>

lemma alloc_many_distinct:
  assumes "inv s" "alloc_many alloc n s = (s', pages)" "0 \<notin> set pages"
  shows "distinct pages" "set pages \<subseteq> avail s" "avail s' = avail s - set pages" "inv s'"
    "length pages = n"
  using assms
proof (induction n arbitrary: s s' pages)
  case 0
  { case 1 then show ?case by simp }
  { case 2 then show ?case by simp }
  { case 3 then show ?case by simp }
  { case 4 then show ?case by simp }
  { case 5 then show ?case by simp }
next
  case (Suc n)
  have main: "distinct pages \<and> set pages \<subseteq> avail s \<and> avail s' = avail s - set pages \<and> inv s'
      \<and> length pages = Suc n"
    if inv: "inv s" and run: "alloc_many alloc (Suc n) s = (s', pages)" and nz: "0 \<notin> set pages"
    for s s' pages
  proof -
    from run obtain s1 a rest where 1: "alloc s = (s1, a)" "alloc_many alloc n s1 = (s', rest)"
      "pages = a # rest"
      by (auto split: prod.splits)
    with nz have "a \<noteq> 0" "0 \<notin> set rest" by auto
    note a = alloc_succeeds [OF inv 1(1) this(1)] and nz' = this(2)
    note rest = Suc.IH [OF a(3) 1(2) nz']
    show ?thesis using a rest 1(3) by auto
  qed
  { case 1 with main show ?case by blast }
  { case 2 with main show ?case by blast }
  { case 3 with main show ?case by blast }
  { case 4 with main show ?case by blast }
  { case 5 with main show ?case by blast }
qed

lemma alloc_many_managed:
  "inv s \<Longrightarrow> managed (fst (alloc_many alloc n s)) = managed s"
  by (induction n arbitrary: s)
     (auto split: prod.splits, (metis alloc_inv alloc_managed fst_conv)+)

text \<open>As long as enough pages are available, none of them fails.\<close>

lemma alloc_many_enough:
  "inv s \<Longrightarrow> n \<le> card (avail s) \<Longrightarrow> 0 \<notin> set (snd (alloc_many alloc n s))"
proof (induction n arbitrary: s)
  case (Suc n)
  obtain s1 a where 1: "alloc s = (s1, a)" by fastforce
  from Suc.prems(2) have "avail s \<noteq> {}" by auto
  with Suc.prems(1) 1 have nz: "a \<noteq> 0" using alloc_zero_iff by fastforce
  note a = alloc_succeeds [OF Suc.prems(1) 1 nz]
  from a(1,2) Suc.prems(2) have "n \<le> card (avail s1)"
    by (simp add: avail_finite)
  from Suc.IH [OF a(3) this] nz show ?case by (auto simp: 1 split: prod.split)
qed simp

text \<open>Giving a page back undoes its allocation, and makes the next allocation succeed.\<close>

lemma release_undoes_alloc:
  assumes "inv s" "alloc s = (s', a)" "a \<noteq> 0"
  shows "inv (release a s')" "avail (release a s') = avail s"
  using alloc_succeeds [OF assms] release_gives [of s' a] assms(3) by auto

lemma release_makes_progress:
  assumes "inv s" "a \<in> managed s" "a \<noteq> 0"
  shows "snd (alloc (release a s)) \<noteq> 0"
  using release_gives [OF assms] alloc_zero_iff by (metis insert_not_empty)

end

end
