(* ===== verification/Pmm.thy ===== *)
theory Pmm
  imports Page_Allocator
begin

text \<open>
  The physical page allocator, \<open>kernel/mm/pmm.c\<close>.  The four file-scope variables are the
  fields of the record \<open>pmm\<close>; the bitmap keeps its 64-bit words.  A set bit means used.
\<close>

definition PAGE_SIZE :: u64 where
  "PAGE_SIZE = 4096"

definition PMM_MAX_PAGES :: nat where
  "PMM_MAX_PAGES = 128 * 1024 * 1024 div 4096"

definition BITS_PER_WORD :: nat where
  "BITS_PER_WORD = 64"

record pmm =
  g_bitmap :: "u64 list"
  g_mem_base :: u64
  g_total_pages :: u64
  g_free_pages :: u64

subsection \<open>Operations\<close>

definition align_down :: "u64 \<Rightarrow> u64" where
  "align_down value = value AND NOT (PAGE_SIZE - 1)"

definition align_up :: "u64 \<Rightarrow> u64" where
  "align_up value = (value + PAGE_SIZE - 1) AND NOT (PAGE_SIZE - 1)"

definition add_saturated :: "u64 \<Rightarrow> u64 \<Rightarrow> u64" where
  "add_saturated a b = (if a > - 1 - b then - 1 else a + b)"

definition align_up_saturated :: "u64 \<Rightarrow> u64" where
  "align_up_saturated value =
     (if value AND (PAGE_SIZE - 1) = 0 then value
      else if value > - 1 - (PAGE_SIZE - 1) then - 1
      else align_up value)"

definition managed_end :: "pmm \<Rightarrow> u64" where
  "managed_end s = add_saturated (g_mem_base s) (g_total_pages s * PAGE_SIZE)"

definition bitmap_clear :: "pmm \<Rightarrow> nat \<Rightarrow> bool" where
  "bitmap_clear s page \<longleftrightarrow>
     g_bitmap s ! (page div BITS_PER_WORD) AND push_bit (page mod BITS_PER_WORD) 1 = 0"

definition set_used :: "nat \<Rightarrow> pmm \<Rightarrow> pmm" where
  "set_used page s =
     (let word = page div BITS_PER_WORD;
          mask = push_bit (page mod BITS_PER_WORD) 1
      in if g_bitmap s ! word AND mask = 0
         then s\<lparr>g_bitmap := (g_bitmap s)[word := g_bitmap s ! word OR mask],
                g_free_pages := g_free_pages s - 1\<rparr>
         else s)"

definition set_free :: "nat \<Rightarrow> pmm \<Rightarrow> pmm" where
  "set_free page s =
     (let word = page div BITS_PER_WORD;
          mask = push_bit (page mod BITS_PER_WORD) 1
      in if g_bitmap s ! word AND mask \<noteq> 0
         then s\<lparr>g_bitmap := (g_bitmap s)[word := g_bitmap s ! word AND NOT mask],
                g_free_pages := g_free_pages s + 1\<rparr>
         else s)"

definition pmm_init :: "u64 \<Rightarrow> u64 \<Rightarrow> pmm" where
  "pmm_init mem_base mem_size =
     (let pages = mem_size div PAGE_SIZE;
          total = (if unat pages > PMM_MAX_PAGES then of_nat PMM_MAX_PAGES else pages);
          s0 = \<lparr>g_bitmap = replicate (PMM_MAX_PAGES div BITS_PER_WORD) (- 1),
                g_mem_base = mem_base, g_total_pages = total, g_free_pages = 0\<rparr>;
          s1 = fold set_free [0..<unat total] s0
      in if mem_base = 0 \<and> total > 0 then set_used 0 s1 else s1)"

definition pmm_reserve_range :: "u64 \<Rightarrow> u64 \<Rightarrow> pmm \<Rightarrow> pmm" where
  "pmm_reserve_range start sz s =
     (if sz = 0 \<or> g_total_pages s = 0 then s
      else
        let end' = add_saturated start sz;
            limit = managed_end s
        in if end' \<le> g_mem_base s \<or> start \<ge> limit then s
           else
             let page_start =
                   (if start < g_mem_base s then 0
                    else (align_down start - g_mem_base s) div PAGE_SIZE);
                 page_end =
                   (if end' \<ge> limit then g_total_pages s
                    else let e = (align_up_saturated end' - g_mem_base s) div PAGE_SIZE
                         in if e > g_total_pages s then g_total_pages s else e)
             in fold set_used [unat page_start..<unat page_end] s)"

definition pmm_alloc_page :: "pmm \<Rightarrow> pmm \<times> u64" where
  "pmm_alloc_page s =
     (case find (bitmap_clear s) [0..<unat (g_total_pages s)] of
        Some page \<Rightarrow> (set_used page s, g_mem_base s + of_nat page * PAGE_SIZE)
      | None \<Rightarrow> (s, 0))"

fun find_run :: "pmm \<Rightarrow> nat \<Rightarrow> nat list \<Rightarrow> nat \<Rightarrow> nat \<Rightarrow> nat option" where
  "find_run s count [] run_start run_count = None"
| "find_run s count (page # pages) run_start run_count =
     (if bitmap_clear s page then
        let run_start' = (if run_count = 0 then page else run_start);
            run_count' = run_count + 1
        in if run_count' = count then Some run_start'
           else find_run s count pages run_start' run_count'
      else find_run s count pages run_start 0)"

definition pmm_alloc_pages :: "u64 \<Rightarrow> pmm \<Rightarrow> pmm \<times> u64" where
  "pmm_alloc_pages count s =
     (if count = 0 \<or> count > g_total_pages s then (s, 0)
      else case find_run s (unat count) [0..<unat (g_total_pages s)] 0 0 of
             Some run_start \<Rightarrow>
               (fold set_used [run_start..<run_start + unat count] s,
                g_mem_base s + of_nat run_start * PAGE_SIZE)
           | None \<Rightarrow> (s, 0))"

definition pmm_free_page :: "u64 \<Rightarrow> pmm \<Rightarrow> pmm" where
  "pmm_free_page paddr s =
     (if paddr < g_mem_base s \<or> paddr AND (PAGE_SIZE - 1) \<noteq> 0 then s
      else
        let page = (paddr - g_mem_base s) div PAGE_SIZE
        in if page \<ge> g_total_pages s then s else set_free (unat page) s)"

definition pmm_free_count :: "pmm \<Rightarrow> u64" where
  "pmm_free_count s = g_free_pages s"

definition pmm_total_count :: "pmm \<Rightarrow> u64" where
  "pmm_total_count s = g_total_pages s"


subsection \<open>The abstract view: a set of free pages\<close>

definition page_used :: "pmm \<Rightarrow> nat \<Rightarrow> bool" where
  "page_used s page \<longleftrightarrow> bit (g_bitmap s ! (page div BITS_PER_WORD)) (page mod BITS_PER_WORD)"

definition free_pages :: "pmm \<Rightarrow> nat set" where
  "free_pages s = {page. page < unat (g_total_pages s) \<and> \<not> page_used s page}"

definition page_addr :: "pmm \<Rightarrow> nat \<Rightarrow> u64" where
  "page_addr s page = g_mem_base s + of_nat page * PAGE_SIZE"

text \<open>The bitmap covers the managed pages and the counter counts its clear bits.\<close>

definition pmm_wf :: "pmm \<Rightarrow> bool" where
  "pmm_wf s \<longleftrightarrow>
     length (g_bitmap s) = PMM_MAX_PAGES div BITS_PER_WORD \<and>
     unat (g_total_pages s) \<le> PMM_MAX_PAGES \<and>
     unat (g_free_pages s) = card (free_pages s)"

text \<open>The board's RAM map: page aligned, not wrapping, with the zero page reserved.\<close>

definition pmm_geometry :: "pmm \<Rightarrow> bool" where
  "pmm_geometry s \<longleftrightarrow>
     g_mem_base s AND (PAGE_SIZE - 1) = 0 \<and>
     unat (g_mem_base s) + unat (g_total_pages s) * 4096 < 2 ^ 64"

definition zero_page_reserved :: "pmm \<Rightarrow> bool" where
  "zero_page_reserved s \<longleftrightarrow> (g_mem_base s = 0 \<and> g_total_pages s > 0 \<longrightarrow> page_used s 0)"

lemmas pmm_const_defs = PAGE_SIZE_def PMM_MAX_PAGES_def BITS_PER_WORD_def

lemma bitmap_clear_iff [simp]: "bitmap_clear s page \<longleftrightarrow> \<not> page_used s page"
  by (simp add: bitmap_clear_def page_used_def BITS_PER_WORD_def bit_flag_simps)

lemma set_used_frame [simp]:
  "g_mem_base (set_used page s) = g_mem_base s"
  "g_total_pages (set_used page s) = g_total_pages s"
  "length (g_bitmap (set_used page s)) = length (g_bitmap s)"
  by (simp_all add: set_used_def Let_def)

lemma set_free_frame [simp]:
  "g_mem_base (set_free page s) = g_mem_base s"
  "g_total_pages (set_free page s) = g_total_pages s"
  "length (g_bitmap (set_free page s)) = length (g_bitmap s)"
  by (simp_all add: set_free_def Let_def)

lemma div_mod_64_eq_iff:
  "(q::nat) div 64 = p div 64 \<Longrightarrow> q mod 64 = p mod 64 \<longleftrightarrow> q = p"
  by (metis div_mult_mod_eq)

lemma page_index_less:
  "length (g_bitmap s) = PMM_MAX_PAGES div BITS_PER_WORD \<Longrightarrow> page < PMM_MAX_PAGES \<Longrightarrow>
   page div 64 < length (g_bitmap s)"
  by (simp add: pmm_const_defs)

lemma page_used_set_used:
  assumes "length (g_bitmap s) = PMM_MAX_PAGES div BITS_PER_WORD" "page < PMM_MAX_PAGES"
  shows "page_used (set_used page s) q \<longleftrightarrow> page_used s q \<or> q = page"
  using page_index_less [OF assms]
  by (cases "q div 64 = page div 64")
     (auto simp: page_used_def set_used_def Let_def BITS_PER_WORD_def bit_flag_simps
        div_mod_64_eq_iff)

lemma page_used_set_free:
  assumes "length (g_bitmap s) = PMM_MAX_PAGES div BITS_PER_WORD" "page < PMM_MAX_PAGES"
  shows "page_used (set_free page s) q \<longleftrightarrow> page_used s q \<and> q \<noteq> page"
  using page_index_less [OF assms]
  by (cases "q div 64 = page div 64")
     (auto simp: page_used_def set_free_def Let_def BITS_PER_WORD_def bit_flag_simps
        div_mod_64_eq_iff)

lemma finite_free_pages [simp]: "finite (free_pages s)"
  by (simp add: free_pages_def)

lemma card_free_pages_le: "card (free_pages s) \<le> unat (g_total_pages s)"
proof -
  have "free_pages s \<subseteq> {..<unat (g_total_pages s)}"
    by (auto simp: free_pages_def)
  then show ?thesis
    by (metis card_lessThan card_mono finite_lessThan)
qed

lemma set_used_free_count:
  "g_free_pages (set_used page s) =
     (if page_used s page then g_free_pages s else g_free_pages s - 1)"
  by (simp add: set_used_def Let_def page_used_def BITS_PER_WORD_def bit_flag_simps)

lemma set_free_free_count:
  "g_free_pages (set_free page s) =
     (if page_used s page then g_free_pages s + 1 else g_free_pages s)"
  by (simp add: set_free_def Let_def page_used_def BITS_PER_WORD_def bit_flag_simps)

lemma pmm_wf_bitmap_length: "pmm_wf s \<Longrightarrow> length (g_bitmap s) = PMM_MAX_PAGES div BITS_PER_WORD"
  by (simp add: pmm_wf_def)

lemma pmm_wf_page_bound:
  "pmm_wf s \<Longrightarrow> page < unat (g_total_pages s) \<Longrightarrow> page < PMM_MAX_PAGES"
  by (simp add: pmm_wf_def)

lemma free_pages_set_used:
  assumes "pmm_wf s" "page < unat (g_total_pages s)"
  shows "free_pages (set_used page s) = free_pages s - {page}"
  using assms
  by (auto simp: free_pages_def page_used_set_used pmm_wf_bitmap_length pmm_wf_page_bound)

lemma free_pages_set_free:
  assumes "pmm_wf s" "page < unat (g_total_pages s)"
  shows "free_pages (set_free page s) = insert page (free_pages s)"
  using assms
  by (auto simp: free_pages_def page_used_set_free pmm_wf_bitmap_length pmm_wf_page_bound)

lemma set_used_wf:
  assumes "pmm_wf s" "page < unat (g_total_pages s)"
  shows "pmm_wf (set_used page s)"
proof (cases "page_used s page")
  case True
  then have "set_used page s = s"
    by (simp add: set_used_def page_used_def Let_def BITS_PER_WORD_def bit_flag_simps)
  with assms show ?thesis by simp
next
  case False
  with assms have mem: "page \<in> free_pages s" by (simp add: free_pages_def)
  then have "0 < card (free_pages s)" using card_gt_0_iff by fastforce
  with assms(1) have "1 \<le> g_free_pages s"
    by (simp add: pmm_wf_def word_le_nat_alt)
  with assms False mem show ?thesis
    by (simp add: pmm_wf_def free_pages_set_used set_used_free_count word_bound_simps)
qed

lemma set_free_wf:
  assumes "pmm_wf s" "page < unat (g_total_pages s)"
  shows "pmm_wf (set_free page s)"
proof (cases "page_used s page")
  case False
  then have "set_free page s = s"
    by (simp add: set_free_def page_used_def Let_def BITS_PER_WORD_def bit_flag_simps)
  with assms show ?thesis by simp
next
  case True
  then have notin: "page \<notin> free_pages s" by (simp add: free_pages_def)
  have "card (free_pages s) \<le> PMM_MAX_PAGES"
    using card_free_pages_le [of s] assms(1) by (simp add: pmm_wf_def)
  then have "unat (g_free_pages s) + unat (1::u64) < 2 ^ 64"
    using assms(1) by (simp add: pmm_wf_def PMM_MAX_PAGES_def)
  then have "unat (g_free_pages s + 1) = Suc (unat (g_free_pages s))"
    by (subst unat_plus_no_overflow) simp_all
  with assms True notin show ?thesis
    by (simp add: pmm_wf_def free_pages_set_free set_free_free_count)
qed

lemma fold_set_used:
  assumes "pmm_wf s" "set pages \<subseteq> {..<unat (g_total_pages s)}"
  shows "pmm_wf (fold set_used pages s)"
    and "g_mem_base (fold set_used pages s) = g_mem_base s"
    and "g_total_pages (fold set_used pages s) = g_total_pages s"
    and "free_pages (fold set_used pages s) = free_pages s - set pages"
    and "page_used (fold set_used pages s) q \<longleftrightarrow> page_used s q \<or> q \<in> set pages"
  using assms
  by (induction pages arbitrary: s)
     (auto simp: set_used_wf free_pages_set_used page_used_set_used pmm_wf_bitmap_length
        pmm_wf_page_bound)

subsection \<open>Addresses\<close>

lemma unat_page_addr:
  assumes "pmm_geometry s" "page < unat (g_total_pages s)"
  shows "unat (page_addr s page) = unat (g_mem_base s) + page * 4096"
proof -
  from assms have bound: "unat (g_mem_base s) + page * 4096 < 2 ^ 64"
    by (simp add: pmm_geometry_def)
  then have m: "unat (of_nat page * (4096::u64)) = page * 4096"
    by (simp add: unat_word_ariths unat_of_nat take_bit_nat_eq_self)
  with bound show ?thesis
    by (simp add: page_addr_def PAGE_SIZE_def unat_plus_no_overflow)
qed

lemma page_addr_aligned:
  assumes "pmm_geometry s" "page < unat (g_total_pages s)"
  shows "page_addr s page AND (PAGE_SIZE - 1) = 0"
  using assms unat_page_addr [OF assms]
  by (simp add: PAGE_SIZE_def page_aligned_iff pmm_geometry_def)

lemma page_addr_inj:
  assumes "pmm_geometry s" "p < unat (g_total_pages s)" "q < unat (g_total_pages s)"
    "page_addr s p = page_addr s q"
  shows "p = q"
proof -
  have "unat (g_mem_base s) + p * 4096 = unat (g_mem_base s) + q * 4096"
    by (metis assms unat_page_addr)
  then show ?thesis by simp
qed

lemma page_addr_nonzero:
  assumes "pmm_geometry s" "zero_page_reserved s" "page \<in> free_pages s"
  shows "page_addr s page \<noteq> 0"
proof
  assume zero: "page_addr s page = 0"
  from assms(3) have lt: "page < unat (g_total_pages s)" by (simp add: free_pages_def)
  with zero unat_page_addr [OF assms(1) lt] have "g_mem_base s = 0" "page = 0"
    by (simp_all add: unat_eq_zero)
  with assms(2,3) lt show False
    by (simp add: zero_page_reserved_def free_pages_def word_less_nat_alt)
qed

lemma pmm_free_page_addr:
  assumes "pmm_geometry s" "page < unat (g_total_pages s)"
  shows "pmm_free_page (page_addr s page) s = set_free page s"
proof -
  have addr: "unat (page_addr s page) = unat (g_mem_base s) + page * 4096"
    by (rule unat_page_addr [OF assms])
  then have ge: "g_mem_base s \<le> page_addr s page"
    by (simp add: word_le_nat_alt)
  then have "unat ((page_addr s page - g_mem_base s) div PAGE_SIZE) = page"
    by (simp add: PAGE_SIZE_def unat_div_distrib word_bound_simps addr)
  with ge assms page_addr_aligned [OF assms] show ?thesis
    by (simp add: pmm_free_page_def Let_def word_le_nat_alt word_less_nat_alt)
qed

lemma set_used_geometry [simp]: "pmm_geometry (set_used page s) = pmm_geometry s"
  by (simp add: pmm_geometry_def)

lemma set_free_geometry [simp]: "pmm_geometry (set_free page s) = pmm_geometry s"
  by (simp add: pmm_geometry_def)

lemma set_used_zero_reserved:
  "pmm_wf s \<Longrightarrow> page < unat (g_total_pages s) \<Longrightarrow> zero_page_reserved s \<Longrightarrow>
   zero_page_reserved (set_used page s)"
  by (auto simp: zero_page_reserved_def page_used_set_used pmm_wf_bitmap_length
      pmm_wf_page_bound)

subsection \<open>Initialisation\<close>

lemma fold_set_free:
  assumes "pmm_wf s" "set pages \<subseteq> {..<unat (g_total_pages s)}"
  shows "pmm_wf (fold set_free pages s)"
    and "g_mem_base (fold set_free pages s) = g_mem_base s"
    and "g_total_pages (fold set_free pages s) = g_total_pages s"
    and "free_pages (fold set_free pages s) = free_pages s \<union> set pages"
  using assms
  by (induction pages arbitrary: s) (auto simp: set_free_wf free_pages_set_free)

lemma all_used_wf:
  assumes "unat t \<le> PMM_MAX_PAGES"
  shows "pmm_wf \<lparr>g_bitmap = replicate (PMM_MAX_PAGES div BITS_PER_WORD) (- 1),
           g_mem_base = b, g_total_pages = t, g_free_pages = 0\<rparr>" (is "pmm_wf ?s")
    and "free_pages \<lparr>g_bitmap = replicate (PMM_MAX_PAGES div BITS_PER_WORD) (- 1),
           g_mem_base = b, g_total_pages = t, g_free_pages = 0\<rparr> = {}"
proof -
  show "free_pages ?s = {}"
  proof -
    have "page_used ?s page" if "page < unat t" for page
    proof -
      from that assms have "page div BITS_PER_WORD < PMM_MAX_PAGES div BITS_PER_WORD"
        by (simp add: pmm_const_defs)
      moreover have "page mod BITS_PER_WORD < 64" by (simp add: BITS_PER_WORD_def)
      ultimately show ?thesis by (simp add: page_used_def)
    qed
    then show ?thesis by (auto simp: free_pages_def)
  qed
  then show "pmm_wf ?s" using assms by (simp add: pmm_wf_def)
qed

lemma pmm_init_spec:
  shows pmm_init_wf: "pmm_wf (pmm_init b n)"
    and pmm_init_base: "g_mem_base (pmm_init b n) = b"
    and pmm_init_total: "unat (g_total_pages (pmm_init b n)) = min (unat n div 4096) PMM_MAX_PAGES"
    and pmm_init_free: "free_pages (pmm_init b n) =
      {(if b = 0 then 1 else 0)..<min (unat n div 4096) PMM_MAX_PAGES}"
    and pmm_init_zero: "zero_page_reserved (pmm_init b n)"
proof -
  define t :: u64 where
    "t = (if unat (n div PAGE_SIZE) > PMM_MAX_PAGES then of_nat PMM_MAX_PAGES else n div PAGE_SIZE)"
  define s0 where "s0 = \<lparr>g_bitmap = replicate (PMM_MAX_PAGES div BITS_PER_WORD) (- 1),
      g_mem_base = b, g_total_pages = t, g_free_pages = 0\<rparr>"
  define s1 where "s1 = fold set_free [0..<unat t] s0"
  have init: "pmm_init b n = (if b = 0 \<and> t > 0 then set_used 0 s1 else s1)"
    unfolding pmm_init_def Let_def t_def s0_def s1_def ..
  have t: "unat t = min (unat n div 4096) PMM_MAX_PAGES"
    by (auto simp: t_def PAGE_SIZE_def unat_div_distrib PMM_MAX_PAGES_def)
  then have "pmm_wf s0" "free_pages s0 = {}" "g_mem_base s0 = b" "g_total_pages s0 = t"
    unfolding s0_def by (simp_all add: all_used_wf)
  note f = this
  have s1: "pmm_wf s1" "g_mem_base s1 = b" "g_total_pages s1 = t" "free_pages s1 = {0..<unat t}"
    using fold_set_free [OF f(1), of "[0..<unat t]"] f(2-4) by (auto simp: s1_def lessThan_atLeast0)
  consider (res) "b = 0" "0 < unat t" "pmm_init b n = set_used 0 s1"
    | (plain) "\<not> (b = 0 \<and> 0 < unat t)" "pmm_init b n = s1"
    using init by (cases "b = 0 \<and> t > 0") (auto simp: word_less_nat_alt)
  note cases = this
  show "pmm_wf (pmm_init b n)"
    by (rule cases) (use s1 in \<open>auto intro: set_used_wf\<close>)
  show "g_mem_base (pmm_init b n) = b"
    by (rule cases) (use s1 in auto)
  show "unat (g_total_pages (pmm_init b n)) = min (unat n div 4096) PMM_MAX_PAGES"
    by (rule cases) (use s1 t in auto)
  show "free_pages (pmm_init b n) = {(if b = 0 then 1 else 0)..<min (unat n div 4096) PMM_MAX_PAGES}"
  proof (rule cases)
    assume c: "b = 0" "0 < unat t" "pmm_init b n = set_used 0 s1"
    have "free_pages (set_used 0 s1) = {0..<unat t} - {0}"
      using c(2) s1 by (simp add: free_pages_set_used)
    also have "\<dots> = {1..<unat t}" by auto
    finally show ?thesis unfolding c(3) t using c(1) by simp
  next
    assume c: "\<not> (b = 0 \<and> 0 < unat t)" "pmm_init b n = s1"
    show ?thesis unfolding c(2) s1(4) t [symmetric] using c(1) by (cases "b = 0") simp_all
  qed
  show "zero_page_reserved (pmm_init b n)"
  proof (rule cases)
    assume c: "b = 0" "0 < unat t" "pmm_init b n = set_used 0 s1"
    have "0 < PMM_MAX_PAGES" by (simp add: PMM_MAX_PAGES_def)
    then have "page_used (pmm_init b n) 0"
      unfolding c(3) using s1(1) by (simp add: page_used_set_used pmm_wf_bitmap_length)
    then show ?thesis by (simp add: zero_page_reserved_def)
  next
    assume c: "\<not> (b = 0 \<and> 0 < unat t)" "pmm_init b n = s1"
    then show ?thesis using s1(2,3) by (auto simp: zero_page_reserved_def word_less_nat_alt)
  qed
qed

subsection \<open>Single-page allocation\<close>

lemma pmm_alloc_page_cases:
  assumes "pmm_wf s"
  obtains (full) "free_pages s = {}" "pmm_alloc_page s = (s, 0)"
    | (page) p where "p \<in> free_pages s" "\<forall>q\<in>free_pages s. p \<le> q"
        "pmm_alloc_page s = (set_used p s, page_addr s p)"
proof (cases "find (bitmap_clear s) [0..<unat (g_total_pages s)]")
  case None
  then have "free_pages s = {}" by (auto simp: find_upt_None_iff free_pages_def)
  with None full show thesis by (simp add: pmm_alloc_page_def)
next
  case (Some p)
  then have "p \<in> free_pages s" "\<forall>q\<in>free_pages s. p \<le> q"
    by (auto simp: find_upt_Some_iff free_pages_def not_less [symmetric])
  with Some page show thesis by (simp add: pmm_alloc_page_def page_addr_def)
qed

subsection \<open>Contiguous allocation: first fit\<close>

definition free_run :: "pmm \<Rightarrow> nat \<Rightarrow> nat \<Rightarrow> bool" where
  "free_run s count start \<longleftrightarrow> (\<forall>q. start \<le> q \<and> q < start + count \<longrightarrow> \<not> page_used s q)"

text \<open>What the scan knows at page \<open>k\<close>: the last \<open>rc\<close> pages are free, the page before
  them is used, and no run of the wanted length ends at or before \<open>k\<close>.\<close>

definition scan_inv :: "pmm \<Rightarrow> nat \<Rightarrow> nat \<Rightarrow> nat \<Rightarrow> nat \<Rightarrow> bool" where
  "scan_inv s count k rs rc \<longleftrightarrow>
     rc \<le> k \<and> rc < count \<and> (0 < rc \<longrightarrow> rs = k - rc) \<and>
     (\<forall>q. k - rc \<le> q \<and> q < k \<longrightarrow> \<not> page_used s q) \<and>
     (rc = k \<or> page_used s (k - rc - 1)) \<and>
     (\<forall>r. r + count \<le> k \<longrightarrow> \<not> free_run s count r)"

lemma scan_inv_clear:
  assumes "scan_inv s count k rs rc" "\<not> page_used s k" "Suc rc < count"
  shows "scan_inv s count (Suc k) (if rc = 0 then k else rs) (Suc rc)"
proof -
  have "\<not> free_run s count r" if r: "r + count = Suc k" for r
  proof -
    from r assms(1,3) have "r < k - rc" "rc \<noteq> k" by (auto simp: scan_inv_def)
    with assms(1) have "page_used s (k - rc - 1)" "r \<le> k - rc - 1" "k - rc - 1 < r + count"
      using r by (auto simp: scan_inv_def)
    then show ?thesis by (auto simp: free_run_def)
  qed
  with assms show ?thesis
    by (auto simp: scan_inv_def le_Suc_eq less_Suc_eq)
qed

lemma scan_inv_used:
  assumes "scan_inv s count k rs rc" "page_used s k"
  shows "scan_inv s count (Suc k) rs 0"
proof -
  have "\<not> free_run s count r" if "r + count = Suc k" for r
    using that assms by (auto simp: free_run_def scan_inv_def intro!: exI [of _ k])
  with assms show ?thesis by (auto simp: scan_inv_def le_Suc_eq)
qed

lemma scan_inv_found:
  assumes "scan_inv s count k rs rc" "\<not> page_used s k" "Suc rc = count"
  shows "free_run s count (k - rc)" "\<forall>r < k - rc. \<not> free_run s count r"
    "(if rc = 0 then k else rs) = k - rc" "k - rc + count = Suc k"
  using assms by (auto simp: scan_inv_def free_run_def less_Suc_eq)

lemma find_run_spec:
  assumes "scan_inv s count k rs rc" "k \<le> n"
  shows "case find_run s count [k..<n] rs rc of
           Some r \<Rightarrow> r + count \<le> n \<and> free_run s count r \<and> (\<forall>r'<r. \<not> free_run s count r')
         | None \<Rightarrow> \<forall>r. r + count \<le> n \<longrightarrow> \<not> free_run s count r"
  using assms
proof (induction "n - k" arbitrary: k rs rc)
  case 0
  then show ?case by (auto simp: scan_inv_def)
next
  case (Suc m)
  then have lt: "k < n" and list: "[k..<n] = k # [Suc k..<n]"
    by (simp_all add: upt_conv_Cons)
  consider "page_used s k" | "\<not> page_used s k" "Suc rc = count" | "\<not> page_used s k" "Suc rc < count"
    using Suc.prems by (fastforce simp: scan_inv_def)
  then show ?case
  proof cases
    case 1
    with Suc lt show ?thesis by (simp add: list scan_inv_used)
  next
    case 2
    from scan_inv_found [OF Suc.prems(1) 2] 2 lt show ?thesis
      by (simp add: list Let_def del: if_split)
  next
    case 3
    have "scan_inv s count (Suc k) (if rc = 0 then k else rs) (Suc rc)"
      by (rule scan_inv_clear [OF Suc.prems(1) 3])
    with Suc.hyps(1) [of "Suc k"] Suc.hyps(2) lt 3 show ?thesis
      by (simp add: list Let_def del: if_split)
  qed
qed

lemma scan_inv_start: "0 < count \<Longrightarrow> scan_inv s count 0 0 0"
  by (simp add: scan_inv_def)

lemma pmm_alloc_pages_cases:
  assumes "count \<noteq> 0"
  obtains (none) "pmm_alloc_pages count s = (s, 0)"
      "\<forall>r. r + unat count \<le> unat (g_total_pages s) \<longrightarrow> \<not> free_run s (unat count) r"
    | (run) r where "r + unat count \<le> unat (g_total_pages s)" "free_run s (unat count) r"
        "\<forall>r'<r. \<not> free_run s (unat count) r'"
        "pmm_alloc_pages count s = (fold set_used [r..<r + unat count] s, page_addr s r)"
proof (cases "count > g_total_pages s")
  case True
  then show thesis
    by (intro none) (auto simp: pmm_alloc_pages_def word_less_nat_alt)
next
  case False
  have pos: "0 < unat count" using assms by (simp add: unat_gt_0)
  note spec = find_run_spec [OF scan_inv_start [OF pos], of "unat (g_total_pages s)" s]
  show thesis
  proof (cases "find_run s (unat count) [0..<unat (g_total_pages s)] 0 0")
    case None
    with spec False assms show thesis by (intro none) (auto simp: pmm_alloc_pages_def)
  next
    case (Some r)
    with spec False assms show thesis
      by (intro run [of r]) (auto simp: pmm_alloc_pages_def page_addr_def)
  qed
qed


subsection \<open>Reserving a range\<close>

lemma unat_align_down: "unat (align_down v) = unat v div 4096 * 4096"
  by (simp add: align_down_def PAGE_SIZE_def unat_page_floor)

lemma unat_align_up:
  assumes "unat v + 4095 < 2 ^ 64"
  shows "unat (align_up v) = (unat v + 4095) div 4096 * 4096"
proof -
  have "unat (v + 4095) = unat v + 4095"
    using assms by (simp add: unat_plus_no_overflow)
  then show ?thesis
    by (simp add: align_up_def PAGE_SIZE_def unat_page_floor add.commute)
qed

lemma unat_align_up_saturated:
  assumes "unat v + 4095 < 2 ^ 64"
  shows "unat (align_up_saturated v) = (unat v + 4095) div 4096 * 4096"
proof (cases "v AND 4095 = 0")
  case True
  then have "4096 dvd unat v" by (simp add: page_aligned_iff dvd_eq_mod_eq_0)
  then have "(unat v + 4095) div 4096 * 4096 = unat v" by (auto elim!: dvdE)
  with True show ?thesis by (simp add: align_up_saturated_def PAGE_SIZE_def)
next
  case False
  have "unat (- 4096 :: u64) = 2 ^ 64 - 4096" by simp
  with assms have "\<not> v > - 4096" by (simp add: word_less_nat_alt)
  with False show ?thesis
    using unat_align_up [OF assms] by (simp add: align_up_saturated_def PAGE_SIZE_def)
qed

lemma unat_add_saturated: "unat (add_saturated a b) = min (unat a + unat b) (2 ^ 64 - 1)"
proof -
  have "unat (- 1 - b) = 2 ^ 64 - 1 - unat b"
    using unat_minus_no_underflow [of b "- 1"] by simp
  then have "a > - 1 - b \<longleftrightarrow> 2 ^ 64 - 1 < unat a + unat b"
    using unat_u64_less [of b] by (auto simp: word_less_nat_alt)
  then show ?thesis
    by (auto simp: add_saturated_def unat_plus_no_overflow)
qed

lemma unat_managed_end:
  assumes "pmm_geometry s"
  shows "unat (managed_end s) = unat (g_mem_base s) + unat (g_total_pages s) * 4096"
proof -
  from assms have "unat (g_total_pages s * PAGE_SIZE) = unat (g_total_pages s) * 4096"
    by (simp add: pmm_geometry_def PAGE_SIZE_def unat_word_ariths)
  with assms show ?thesis
    by (simp add: managed_end_def unat_add_saturated pmm_geometry_def)
qed

text \<open>Page \<open>page\<close> shares a byte with the \<open>sz\<close> bytes from \<open>start\<close>.\<close>

definition page_overlaps :: "pmm \<Rightarrow> u64 \<Rightarrow> u64 \<Rightarrow> nat \<Rightarrow> bool" where
  "page_overlaps s start sz page \<longleftrightarrow>
     max (unat start) (unat (g_mem_base s) + page * 4096)
       < min (unat start + unat sz) (unat (g_mem_base s) + (page + 1) * 4096)"

lemma reserve_bounds_arith:
  fixes b n S E p :: nat
  assumes "4096 dvd b" "p < n" "b \<le> S"
  shows "(S div 4096 * 4096 - b) div 4096 \<le> p \<longleftrightarrow> S < b + (p + 1) * 4096"
    and "p < ((E + 4095) div 4096 * 4096 - b) div 4096 \<longleftrightarrow> b + p * 4096 < E"
proof -
  from assms(1) obtain k where b: "b = k * 4096" by (metis dvd_div_mult_self)
  have cancel: "(x * 4096 - b) div 4096 = x - k" for x
    by (simp add: b flip: diff_mult_distrib)
  have "S div 4096 < p + k + 1 \<longleftrightarrow> S < (p + k + 1) * 4096"
    by (rule div_less_iff_less_mult) simp
  then show "(S div 4096 * 4096 - b) div 4096 \<le> p \<longleftrightarrow> S < b + (p + 1) * 4096"
    unfolding cancel by (simp add: b algebra_simps) linarith
  have "p + k + 1 \<le> (E + 4095) div 4096 \<longleftrightarrow> (p + k + 1) * 4096 \<le> E + 4095"
    by (rule less_eq_div_iff_mult_less_eq) simp
  then show "p < ((E + 4095) div 4096 * 4096 - b) div 4096 \<longleftrightarrow> b + p * 4096 < E"
    unfolding cancel by (simp add: b algebra_simps) linarith
qed

lemma pmm_reserve_pages:
  assumes "pmm_wf s" "pmm_geometry s"
  obtains ps where "pmm_reserve_range start sz s = fold set_used ps s"
    "set ps = {p. p < unat (g_total_pages s) \<and> page_overlaps s start sz p}"
proof -
  define B N where "B = unat (g_mem_base s)" and "N = unat (g_total_pages s)"
  define E where "E = unat start + unat sz"
  let ?stop = "add_saturated start sz" and ?lim = "managed_end s"
  have lim: "unat ?lim = B + N * 4096"
    using unat_managed_end [OF assms(2)] by (simp add: B_def N_def)
  have dvd: "4096 dvd B" and small: "B + N * 4096 < 2 ^ 64"
    using assms(2) by (auto simp: pmm_geometry_def PAGE_SIZE_def page_aligned_iff B_def N_def)
  have e: "unat ?stop = min E (2 ^ 64 - 1)" by (simp add: unat_add_saturated E_def)
  have ov: "page_overlaps s start sz p \<longleftrightarrow>
      unat start < E \<and> unat start < B + (p + 1) * 4096 \<and> B + p * 4096 < E" for p
    by (auto simp: page_overlaps_def B_def E_def)
  consider (skip) "sz = 0 \<or> N = 0 \<or> E \<le> B \<or> B + N * 4096 \<le> unat start"
    | (mark) "sz \<noteq> 0" "N \<noteq> 0" "B < E" "unat start < B + N * 4096" by linarith
  then show thesis
  proof cases
    case skip
    then have "{p. p < N \<and> page_overlaps s start sz p} = {}"
      using dvd by (auto simp: ov E_def)
    moreover have "pmm_reserve_range start sz s = s"
      using skip e lim small unat_u64_less [of "g_mem_base s"]
      by (auto simp: pmm_reserve_range_def Let_def word_le_nat_alt N_def B_def unat_eq_zero)
    ultimately show thesis using that [of "[]"] by (simp add: N_def)
  next
    case mark
    then have "unat sz \<noteq> 0" by (simp add: unat_eq_zero)
    then have pos: "unat start < E" by (simp add: E_def)
    define ps where "ps = (if start < g_mem_base s then 0
      else (align_down start - g_mem_base s) div PAGE_SIZE)"
    define pe where "pe = (if ?stop \<ge> ?lim then g_total_pages s
      else let x = (align_up_saturated ?stop - g_mem_base s) div PAGE_SIZE
           in if x > g_total_pages s then g_total_pages s else x)"
    have eq: "pmm_reserve_range start sz s = fold set_used [unat ps..<unat pe] s"
      using mark e lim small
      by (simp add: pmm_reserve_range_def Let_def word_le_nat_alt N_def B_def unat_eq_zero
          ps_def pe_def not_le)
    have lo: "unat ps \<le> p \<longleftrightarrow> unat start < B + (p + 1) * 4096" if "p < N" for p
    proof (cases "start < g_mem_base s")
      case True
      then show ?thesis by (simp add: ps_def B_def word_less_nat_alt)
    next
      case False
      then have le: "B \<le> unat start" by (simp add: B_def word_le_nat_alt not_less)
      then have "B \<le> unat start div 4096 * 4096"
        using dvd by (metis div_le_mono dvd_div_mult_self mult_le_mono1)
      then have "g_mem_base s \<le> align_down start"
        by (simp add: word_le_nat_alt unat_align_down B_def)
      with False have "unat ps = (unat start div 4096 * 4096 - B) div 4096"
        by (simp add: ps_def PAGE_SIZE_def unat_div_distrib word_bound_simps unat_align_down B_def)
      with reserve_bounds_arith(1) [OF dvd that le] show ?thesis by simp
    qed
    have hi: "p < unat pe \<longleftrightarrow> B + p * 4096 < E" if "p < N" for p
    proof (cases "?stop \<ge> ?lim")
      case True
      then have "B + N * 4096 \<le> E" using e lim by (simp add: word_le_nat_alt)
      with True that show ?thesis by (simp add: pe_def N_def)
    next
      case False
      then have lt: "E < B + N * 4096" and ee: "unat ?stop = E"
        using e lim small by (auto simp: word_le_nat_alt)
      obtain k where k: "B = k * 4096" using dvd by (metis dvd_div_mult_self)
      have "k + N \<le> 4503599627370495" using small unfolding k by simp
      then have sm: "unat ?stop + 4095 < 2 ^ 64"
        unfolding ee using lt k by simp
      let ?x = "(align_up_saturated ?stop - g_mem_base s) div PAGE_SIZE"
      have "B \<le> (E + 4095) div 4096 * 4096"
      proof -
        have "k \<le> (E + 4095) div 4096"
          using mark(3) k by (simp add: less_eq_div_iff_mult_less_eq)
        then show ?thesis unfolding k by simp
      qed
      then have "g_mem_base s \<le> align_up_saturated ?stop"
        by (simp add: word_le_nat_alt unat_align_up_saturated [OF sm] ee B_def)
      then have x: "unat ?x = ((E + 4095) div 4096 * 4096 - B) div 4096"
        by (simp add: PAGE_SIZE_def unat_div_distrib word_bound_simps
            unat_align_up_saturated [OF sm] ee B_def)
      have "unat pe = min (unat ?x) N"
        using False by (auto simp: pe_def Let_def N_def word_less_nat_alt)
      then show ?thesis
        using reserve_bounds_arith(2) [OF dvd that order_refl] that unfolding x by simp
    qed
    have "unat pe \<le> N" by (auto simp: pe_def Let_def N_def not_less simp flip: word_le_nat_alt)
    then have mem: "p \<in> set [unat ps..<unat pe] \<longleftrightarrow> p < N \<and> unat ps \<le> p \<and> p < unat pe" for p
      by auto
    have "set [unat ps..<unat pe] = {p. p < N \<and> page_overlaps s start sz p}"
      by (rule set_eqI) (use pos in \<open>auto simp: mem lo hi ov simp del: set_upt\<close>)
    with eq that show thesis by (simp add: N_def)
  qed
qed

lemma pmm_reserve_range_spec:
  assumes "pmm_wf s" "pmm_geometry s"
  shows "pmm_wf (pmm_reserve_range start sz s)"
    and "g_mem_base (pmm_reserve_range start sz s) = g_mem_base s"
    and "g_total_pages (pmm_reserve_range start sz s) = g_total_pages s"
    and "free_pages (pmm_reserve_range start sz s) =
           {p \<in> free_pages s. \<not> page_overlaps s start sz p}"
    and "zero_page_reserved s \<Longrightarrow> zero_page_reserved (pmm_reserve_range start sz s)"
proof -
  obtain ps where eq: "pmm_reserve_range start sz s = fold set_used ps s"
    and ps: "set ps = {p. p < unat (g_total_pages s) \<and> page_overlaps s start sz p}"
    by (rule pmm_reserve_pages [OF assms])
  then have sub: "set ps \<subseteq> {..<unat (g_total_pages s)}" by auto
  note f = fold_set_used [OF assms(1) sub]
  show "pmm_wf (pmm_reserve_range start sz s)"
    "g_mem_base (pmm_reserve_range start sz s) = g_mem_base s"
    "g_total_pages (pmm_reserve_range start sz s) = g_total_pages s"
    unfolding eq by (rule f)+
  show "free_pages (pmm_reserve_range start sz s) = {p \<in> free_pages s. \<not> page_overlaps s start sz p}"
    unfolding eq f(4) ps by (auto simp: free_pages_def)
  show "zero_page_reserved (pmm_reserve_range start sz s)" if "zero_page_reserved s"
    using that f(2,3,5) unfolding eq by (auto simp: zero_page_reserved_def)
qed


subsection \<open>The allocator as a provider of pages\<close>

definition pmm_inv :: "pmm \<Rightarrow> bool" where
  "pmm_inv s \<longleftrightarrow> pmm_wf s \<and> pmm_geometry s \<and> zero_page_reserved s"

definition managed_addrs :: "pmm \<Rightarrow> u64 set" where
  "managed_addrs s = page_addr s ` {..<unat (g_total_pages s)}"

definition free_addrs :: "pmm \<Rightarrow> u64 set" where
  "free_addrs s = page_addr s ` free_pages s"

lemma pmm_init_inv:
  assumes "b AND (PAGE_SIZE - 1) = 0" "unat b + unat n < 2 ^ 64"
  shows "pmm_inv (pmm_init b n)"
proof -
  have "min (unat n div 4096) PMM_MAX_PAGES * 4096 \<le> unat n div 4096 * 4096"
    by simp
  also have "\<dots> \<le> unat n" by simp
  finally show ?thesis
    using assms
    by (simp add: pmm_inv_def pmm_geometry_def pmm_init_wf pmm_init_zero pmm_init_base
        pmm_init_total)
qed

lemma page_addr_set_used [simp]: "page_addr (set_used p s) = page_addr s"
  by (simp add: page_addr_def fun_eq_iff)

lemma page_addr_set_free [simp]: "page_addr (set_free p s) = page_addr s"
  by (simp add: page_addr_def fun_eq_iff)

lemma set_used_inv: "pmm_inv s \<Longrightarrow> p < unat (g_total_pages s) \<Longrightarrow> pmm_inv (set_used p s)"
  by (simp add: pmm_inv_def set_used_wf set_used_zero_reserved)

lemma free_addrs_set_used:
  assumes "pmm_inv s" "p < unat (g_total_pages s)"
  shows "free_addrs (set_used p s) = free_addrs s - {page_addr s p}"
  using assms page_addr_inj [of s]
  by (auto simp: free_addrs_def free_pages_set_used pmm_inv_def) (auto simp: free_pages_def)

lemma free_addrs_set_used_page:
  "pmm_inv s \<Longrightarrow> p \<in> free_pages s \<Longrightarrow>
   page_addr s ` free_pages (set_used p s) = page_addr s ` free_pages s - {page_addr s p}"
  using free_addrs_set_used [of s p] by (simp add: free_addrs_def free_pages_def)

lemma set_free_zero_reserved:
  assumes "pmm_inv s" "p < unat (g_total_pages s)" "page_addr s p \<noteq> 0"
  shows "zero_page_reserved (set_free p s)"
proof -
  from assms(3) have "g_mem_base s = 0 \<longrightarrow> p \<noteq> 0" by (auto simp: page_addr_def intro: gr0I)
  with assms(1,2) show ?thesis
    by (auto simp: pmm_inv_def zero_page_reserved_def page_used_set_free pmm_wf_bitmap_length
        pmm_wf_page_bound)
qed

lemma pmm_free_page_foreign:
  assumes "pmm_geometry s" "a \<notin> managed_addrs s"
  shows "pmm_free_page a s = s"
proof (rule ccontr)
  assume "pmm_free_page a s \<noteq> s"
  then have ge: "g_mem_base s \<le> a" and al: "a AND (PAGE_SIZE - 1) = 0"
    and lt: "(a - g_mem_base s) div PAGE_SIZE < g_total_pages s"
    by (auto simp: pmm_free_page_def Let_def not_le split: if_splits)
  define p where "p = unat ((a - g_mem_base s) div PAGE_SIZE)"
  have p: "p < unat (g_total_pages s)" using lt by (simp add: p_def word_less_nat_alt)
  have "unat (g_mem_base s) mod 4096 = 0" "unat a mod 4096 = 0"
    using assms(1) al by (simp_all add: pmm_geometry_def PAGE_SIZE_def page_aligned_iff)
  then have "(unat a - unat (g_mem_base s)) mod 4096 = 0"
    by (simp add: mod_eq_0_iff_dvd)
  then have "p * 4096 = unat a - unat (g_mem_base s)"
    using ge by (auto simp: p_def PAGE_SIZE_def unat_div_distrib word_bound_simps)
  then have "page_addr s p = a"
    using unat_page_addr [OF assms(1) p] ge
    by (intro unsigned_word_eqI [where ?'a = nat]) (simp add: word_le_nat_alt)
  with p have "a \<in> managed_addrs s" by (auto simp: managed_addrs_def)
  with assms(2) show False by contradiction
qed

interpretation pp: page_allocator pmm_alloc_page pmm_free_page managed_addrs free_addrs pmm_inv
proof unfold_locales
  fix s a
  show "free_addrs s \<subseteq> managed_addrs s"
    by (auto simp: free_addrs_def managed_addrs_def free_pages_def)
  show "finite (free_addrs s)" by (simp add: free_addrs_def)
  show "managed_addrs (pmm_free_page a s) = managed_addrs s"
    by (simp add: pmm_free_page_def Let_def managed_addrs_def)
  assume inv: "pmm_inv s"
  show "0 \<notin> free_addrs s"
    using inv page_addr_nonzero [of s] by (force simp: pmm_inv_def free_addrs_def)
  from inv have wf: "pmm_wf s" by (simp add: pmm_inv_def)
  show "pmm_alloc_page s = (s, 0)" if "free_addrs s = {}"
    by (rule pmm_alloc_page_cases [OF wf]) (use that in \<open>auto simp: free_addrs_def\<close>)
  show "snd (pmm_alloc_page s) \<in> free_addrs s \<and>
      free_addrs (fst (pmm_alloc_page s)) = free_addrs s - {snd (pmm_alloc_page s)}"
    if "free_addrs s \<noteq> {}"
    by (rule pmm_alloc_page_cases [OF wf])
       (use that inv in \<open>simp_all add: free_addrs_def free_addrs_set_used_page\<close>)
  show "pmm_inv (fst (pmm_alloc_page s))"
    by (rule pmm_alloc_page_cases [OF wf])
       (use inv in \<open>auto simp: free_pages_def intro: set_used_inv\<close>)
  show "managed_addrs (fst (pmm_alloc_page s)) = managed_addrs s"
    by (rule pmm_alloc_page_cases [OF wf]) (auto simp: managed_addrs_def)
  show "pmm_free_page a s = s" if "a \<notin> managed_addrs s"
    using inv that by (simp add: pmm_inv_def pmm_free_page_foreign)
  show "pmm_inv (pmm_free_page a s) \<and> free_addrs (pmm_free_page a s) = insert a (free_addrs s)"
    if a: "a \<in> managed_addrs s" "a \<noteq> 0"
  proof -
    from a(1) obtain p where p: "a = page_addr s p" "p < unat (g_total_pages s)"
      by (auto simp: managed_addrs_def)
    with inv have eq: "pmm_free_page a s = set_free p s"
      by (simp add: pmm_inv_def pmm_free_page_addr)
    have "pmm_inv (set_free p s)"
      using inv p a set_free_zero_reserved [of s p] by (simp add: pmm_inv_def set_free_wf)
    moreover have "free_addrs (set_free p s) = insert a (free_addrs s)"
      using inv p by (simp add: free_addrs_def free_pages_set_free pmm_inv_def)
    ultimately show ?thesis unfolding eq by blast
  qed
qed

subsection \<open>Properties\<close>

lemma pmm_invD:
  "pmm_inv s \<Longrightarrow> pmm_wf s" "pmm_inv s \<Longrightarrow> pmm_geometry s" "pmm_inv s \<Longrightarrow> zero_page_reserved s"
  by (simp_all add: pmm_inv_def)

lemma example_pmm_inv: "pmm_inv (pmm_init 0x40000000 0x4000)"
  by (rule pmm_init_inv) (simp_all add: PAGE_SIZE_def)

text \<open>
  C1: \<open>pmm_alloc_page\<close> returns 0 exactly when no page is free, and then changes
  nothing; otherwise it returns the page-aligned address of the lowest free page, that
  page alone becomes used, and the free counter drops by one.
\<close>

theorem pmm_alloc_page_correct:
  assumes "pmm_inv s"
  shows "case pmm_alloc_page s of (s', a) \<Rightarrow>
     pmm_inv s' \<and>
     (if free_pages s = {} then a = 0 \<and> s' = s
      else a \<noteq> 0 \<and> a AND (PAGE_SIZE - 1) = 0 \<and>
           a = page_addr s (Min (free_pages s)) \<and>
           free_pages s' = free_pages s - {Min (free_pages s)} \<and>
           unat (pmm_free_count s') + 1 = unat (pmm_free_count s))"
proof (rule pmm_alloc_page_cases [OF pmm_invD(1) [OF assms]])
  assume "free_pages s = {}" "pmm_alloc_page s = (s, 0)"
  with assms show ?thesis by simp
next
  fix p assume p: "p \<in> free_pages s" "\<forall>q\<in>free_pages s. p \<le> q"
    "pmm_alloc_page s = (set_used p s, page_addr s p)"
  then have Min: "Min (free_pages s) = p" by (intro Min_eqI) auto
  from p(1) have lt: "p < unat (g_total_pages s)" by (simp add: free_pages_def)
  have inv: "pmm_inv (set_used p s)" using assms lt by (rule set_used_inv)
  have "page_addr s p \<noteq> 0" "page_addr s p AND (PAGE_SIZE - 1) = 0"
    using assms p(1) lt by (auto simp: pmm_invD page_addr_nonzero page_addr_aligned)
  moreover have free: "free_pages (set_used p s) = free_pages s - {p}"
    using assms lt by (simp add: pmm_invD free_pages_set_used)
  moreover have "unat (pmm_free_count (set_used p s)) + 1 = unat (pmm_free_count s)"
    using pmm_invD(1) [OF inv] pmm_invD(1) [OF assms] p(1) card_Suc_Diff1 [of "free_pages s" p]
    by (simp add: pmm_wf_def pmm_free_count_def free)
  ultimately show ?thesis using p inv Min by auto
qed

theorem pmm_alloc_page_correct_witness:
  "case pmm_alloc_page (pmm_init 0x40000000 0x4000) of (s', a) \<Rightarrow>
     pmm_inv s' \<and> a = 0x40000000 \<and> unat (pmm_free_count s') + 1 = 4"
proof -
  have free: "free_pages (pmm_init 0x40000000 0x4000) = {0..<4}"
    by (simp add: pmm_init_free PMM_MAX_PAGES_def)
  have "Min {0..<4::nat} = 0" by (intro Min_eqI) auto
  moreover have "unat (pmm_free_count (pmm_init 0x40000000 0x4000)) = 4"
    using pmm_init_wf [of "0x40000000" "0x4000"] by (simp add: pmm_wf_def pmm_free_count_def free)
  ultimately show ?thesis
    using pmm_alloc_page_correct [OF example_pmm_inv]
    by (auto simp: free page_addr_def pmm_init_base split: prod.splits)
qed

text \<open>
  C2: \<open>pmm_alloc_pages\<close> is first fit: it fails exactly when no run of \<open>count\<close>
  consecutive free pages exists, and otherwise returns the lowest such run, marking these
  pages and no others as used.
\<close>

theorem pmm_alloc_pages_first_fit:
  assumes "pmm_inv s" "count \<noteq> 0"
  shows "case pmm_alloc_pages count s of (s', a) \<Rightarrow>
     pmm_inv s' \<and>
     (if \<exists>r. r + unat count \<le> unat (g_total_pages s) \<and> free_run s (unat count) r
      then a \<noteq> 0 \<and>
           (\<exists>r. a = page_addr s r \<and> r + unat count \<le> unat (g_total_pages s) \<and>
                free_run s (unat count) r \<and> (\<forall>r'<r. \<not> free_run s (unat count) r') \<and>
                free_pages s' = free_pages s - {r..<r + unat count})
      else a = 0 \<and> s' = s)"
proof (rule pmm_alloc_pages_cases [OF assms(2), where s = s])
  assume "pmm_alloc_pages count s = (s, 0)"
    "\<forall>r. r + unat count \<le> unat (g_total_pages s) \<longrightarrow> \<not> free_run s (unat count) r"
  with assms(1) show ?thesis by auto
next
  fix r assume r: "r + unat count \<le> unat (g_total_pages s)" "free_run s (unat count) r"
    "\<forall>r'<r. \<not> free_run s (unat count) r'"
    "pmm_alloc_pages count s = (fold set_used [r..<r + unat count] s, page_addr s r)"
  have pos: "0 < unat count" using assms(2) by (simp add: unat_gt_0)
  let ?s' = "fold set_used [r..<r + unat count] s"
  have sub: "set [r..<r + unat count] \<subseteq> {..<unat (g_total_pages s)}" using r(1) by auto
  note f = fold_set_used [OF pmm_invD(1) [OF assms(1)] sub]
  have "pmm_inv ?s'"
    using f assms(1) by (auto simp: pmm_inv_def pmm_geometry_def zero_page_reserved_def)
  moreover have "r \<in> free_pages s"
    using r(1,2) pos by (auto simp: free_pages_def free_run_def)
  then have "page_addr s r \<noteq> 0"
    using assms(1) by (simp add: pmm_invD page_addr_nonzero)
  ultimately show ?thesis using r f(4) by auto
qed

theorem pmm_alloc_pages_first_fit_witness:
  "case pmm_alloc_pages 2 (pmm_init 0x40000000 0x4000) of (s', a) \<Rightarrow> pmm_inv s' \<and> a \<noteq> 0"
proof -
  let ?s = "pmm_init 0x40000000 0x4000"
  have free: "free_pages ?s = {0..<4}"
    by (simp add: pmm_init_free PMM_MAX_PAGES_def)
  have "\<not> page_used ?s q" if "q < 2" for q
  proof -
    from that have "q \<in> free_pages ?s" unfolding free by simp
    then show ?thesis by (simp add: free_pages_def)
  qed
  then have "0 + unat (2::u64) \<le> unat (g_total_pages ?s) \<and> free_run ?s (unat (2::u64)) 0"
    by (simp add: free_run_def pmm_init_total PMM_MAX_PAGES_def)
  then have ex: "\<exists>r. r + unat (2::u64) \<le> unat (g_total_pages ?s) \<and> free_run ?s (unat (2::u64)) r"
    by blast
  show ?thesis
    using pmm_alloc_pages_first_fit [OF example_pmm_inv, of 2] ex
    by (auto split: prod.splits if_splits)
qed

text \<open>
  C3: \<open>pmm_reserve_range\<close> takes exactly the managed pages that share a byte with the
  range out of the free set, for every start and size, including ranges that wrap past the
  end of the address space or stick out of the managed memory.
\<close>

theorem pmm_reserve_range_exact:
  assumes "pmm_inv s"
  shows "pmm_inv (pmm_reserve_range start sz s) \<and>
     free_pages (pmm_reserve_range start sz s) =
       {p \<in> free_pages s. \<not> page_overlaps s start sz p}"
  using pmm_reserve_range_spec [OF assms [THEN pmm_invD(1)] assms [THEN pmm_invD(2)], of start sz]
    assms
  by (simp add: pmm_inv_def pmm_geometry_def)

theorem pmm_reserve_range_exact_witness:
  "free_pages (pmm_reserve_range 0x40000FFF 2 (pmm_init 0x40000000 0x4000)) = {2, 3}"
proof -
  have "page_overlaps (pmm_init 0x40000000 0x4000) 0x40000FFF 2 p \<longleftrightarrow> p < 2" for p
    by (auto simp: page_overlaps_def pmm_init_base)
  moreover have "free_pages (pmm_init 0x40000000 0x4000) = {0..<4}"
    by (simp add: pmm_init_free PMM_MAX_PAGES_def)
  ultimately show ?thesis
    using pmm_reserve_range_exact [OF example_pmm_inv, of "0x40000FFF" 2] by auto
qed

lemma card_free_addrs:
  assumes "pmm_inv s"
  shows "card (free_addrs s) = unat (pmm_free_count s)"
proof -
  have "inj_on (page_addr s) (free_pages s)"
    by (rule inj_onI) (use assms in \<open>auto simp: free_pages_def intro: page_addr_inj [OF pmm_invD(2)]\<close>)
  then show ?thesis
    using assms by (simp add: free_addrs_def card_image pmm_inv_def pmm_wf_def pmm_free_count_def)
qed

text \<open>
  C4: as many successive single-page allocations as the free counter promises all
  succeed, with pairwise distinct pages that were free before; giving any one of them
  back makes it, and only it, allocatable again.
\<close>

theorem pmm_alloc_many_distinct:
  assumes "pmm_inv s" "n \<le> unat (pmm_free_count s)"
  shows "case alloc_many pmm_alloc_page n s of (s', pages) \<Rightarrow>
     0 \<notin> set pages \<and> distinct pages \<and> length pages = n \<and> set pages \<subseteq> free_addrs s \<and>
     free_addrs s' = free_addrs s - set pages \<and>
     (\<forall>a \<in> set pages. free_addrs (pmm_free_page a s') = insert a (free_addrs s'))"
proof -
  obtain s' pages where run: "alloc_many pmm_alloc_page n s = (s', pages)" by fastforce
  have nz: "0 \<notin> set pages"
    using pp.alloc_many_enough [of s n] assms card_free_addrs run by simp
  note d = pp.alloc_many_distinct [OF assms(1) run nz]
  have "free_addrs (pmm_free_page a s') = insert a (free_addrs s')" if "a \<in> set pages" for a
  proof -
    have "managed_addrs s' = managed_addrs s"
      using pp.alloc_many_managed [OF assms(1), of n] run by simp
    with that d(2) pp.avail_managed have "a \<in> managed_addrs s'" by blast
    with d(4) that nz show ?thesis using pp.release_gives by metis
  qed
  with d nz run show ?thesis by simp
qed

theorem pmm_alloc_many_distinct_witness:
  "case alloc_many pmm_alloc_page 2 (pmm_init 0x40000000 0x4000) of (s', pages) \<Rightarrow>
     0 \<notin> set pages \<and> distinct pages \<and> length pages = 2"
proof -
  let ?s = "pmm_init 0x40000000 0x4000"
  have "unat (pmm_free_count ?s) = 4"
    using pmm_init_wf [of "0x40000000" "0x4000"]
    by (simp add: pmm_wf_def pmm_free_count_def pmm_init_free PMM_MAX_PAGES_def)
  then show ?thesis
    using pmm_alloc_many_distinct [OF example_pmm_inv, of 2] by (simp split: prod.splits)
qed

text \<open>
  C5: on a board whose RAM starts at address 0, \<open>pmm_free_page(0)\<close> un-reserves the
  page that \<open>pmm_init\<close> set aside as the failure value, and the next single-page
  allocation then returns 0, that is failure, while free pages exist.
\<close>

theorem pmm_free_zero_page_breaks_sentinel:
  assumes "pmm_inv s" "g_mem_base s = 0" "0 < g_total_pages s"
  shows "\<not> zero_page_reserved (pmm_free_page 0 s) \<and>
     0 \<in> free_pages (pmm_free_page 0 s) \<and> snd (pmm_alloc_page (pmm_free_page 0 s)) = 0"
proof -
  have lt: "0 < unat (g_total_pages s)" using assms(3) by (simp add: word_less_nat_alt)
  have addr: "page_addr s 0 = 0" using assms(2) by (simp add: page_addr_def)
  have eq: "pmm_free_page 0 s = set_free 0 s"
    using pmm_free_page_addr [OF pmm_invD(2) [OF assms(1)] lt] addr by simp
  have wf: "pmm_wf (set_free 0 s)" using assms(1) lt by (simp add: pmm_invD set_free_wf)
  have mem: "0 \<in> free_pages (set_free 0 s)"
    using assms(1) lt by (simp add: pmm_invD free_pages_set_free)
  then have "\<not> zero_page_reserved (set_free 0 s)"
    using assms(2,3) by (simp add: zero_page_reserved_def free_pages_def)
  moreover have "snd (pmm_alloc_page (set_free 0 s)) = 0"
    by (rule pmm_alloc_page_cases [OF wf]) (use mem addr in auto)
  ultimately show ?thesis using eq mem by simp
qed

theorem pmm_free_zero_page_breaks_sentinel_witness:
  "snd (pmm_alloc_page (pmm_free_page 0 (pmm_init 0 0x4000))) = 0"
proof -
  have "pmm_inv (pmm_init 0 0x4000)" by (rule pmm_init_inv) simp_all
  moreover have "0 < g_total_pages (pmm_init 0 0x4000)"
    by (simp add: word_less_nat_alt pmm_init_total PMM_MAX_PAGES_def)
  ultimately show ?thesis
    using pmm_free_zero_page_breaks_sentinel [of "pmm_init 0 0x4000"] by (simp add: pmm_init_base)
qed

end
