(* ===== verification/Vmm.thy ===== *)
theory Vmm
  imports Pmm
begin

text \<open>
  The AArch64 stage-1 page-table manager, \<open>kernel/mm/vmm.c\<close>.  Page tables are pages of
  physical memory, so the state pairs the page allocator with an explicit store of 64-bit
  cells; a \<open>uint64_t *\<close> is the physical address it holds and entry \<open>i\<close> of a table is the
  cell at \<open>table + 8 * i\<close>.
\<close>

record vm =
  vm_pmm :: pmm
  vm_mem :: "u64 \<Rightarrow> u64"

definition TABLE_ENTRIES :: nat where "TABLE_ENTRIES = 512"
definition TABLE_INDEX_MASK :: u64 where "TABLE_INDEX_MASK = 0x1ff"
definition DESC_VALID :: u64 where "DESC_VALID = push_bit 0 1"
definition DESC_TABLE :: u64 where "DESC_TABLE = push_bit 1 1"
definition DESC_PAGE :: u64 where "DESC_PAGE = push_bit 1 1"
definition DESC_AF :: u64 where "DESC_AF = push_bit 10 1"
definition DESC_SH_INNER :: u64 where "DESC_SH_INNER = push_bit 8 3"
definition DESC_AP_RO :: u64 where "DESC_AP_RO = push_bit 7 1"
definition DESC_AP_USER :: u64 where "DESC_AP_USER = push_bit 6 1"
definition DESC_UXN :: u64 where "DESC_UXN = push_bit 54 1"
definition DESC_PXN :: u64 where "DESC_PXN = push_bit 53 1"
definition DESC_ATTR_NORMAL :: u64 where "DESC_ATTR_NORMAL = push_bit 2 0"
definition DESC_ATTR_DEVICE :: u64 where "DESC_ATTR_DEVICE = push_bit 2 1"
definition DESC_ADDR_MASK :: u64 where "DESC_ADDR_MASK = 0x0000fffffffff000"

definition VMM_FLAG_READ :: u64 where "VMM_FLAG_READ = push_bit 0 1"
definition VMM_FLAG_WRITE :: u64 where "VMM_FLAG_WRITE = push_bit 1 1"
definition VMM_FLAG_EXEC :: u64 where "VMM_FLAG_EXEC = push_bit 2 1"
definition VMM_FLAG_DEVICE :: u64 where "VMM_FLAG_DEVICE = push_bit 3 1"
definition VMM_FLAG_USER :: u64 where "VMM_FLAG_USER = push_bit 4 1"

lemmas desc_defs = DESC_VALID_def DESC_TABLE_def DESC_PAGE_def DESC_AF_def DESC_SH_INNER_def
  DESC_AP_RO_def DESC_AP_USER_def DESC_UXN_def DESC_PXN_def DESC_ATTR_NORMAL_def
  DESC_ATTR_DEVICE_def DESC_ADDR_MASK_def

lemmas vmm_flag_defs = VMM_FLAG_READ_def VMM_FLAG_WRITE_def VMM_FLAG_EXEC_def
  VMM_FLAG_DEVICE_def VMM_FLAG_USER_def

subsection \<open>Operations\<close>

definition page_align_down :: "u64 \<Rightarrow> u64" where
  "page_align_down value = value AND NOT (PAGE_SIZE - 1)"

definition page_align_up :: "u64 \<Rightarrow> u64" where
  "page_align_up value = (value + PAGE_SIZE - 1) AND NOT (PAGE_SIZE - 1)"

text \<open>The output parameter is returned: \<open>None\<close> is the -1 of the code.\<close>

definition page_span :: "u64 \<Rightarrow> u64 \<Rightarrow> u64 option" where
  "page_span offset sz =
     (if sz = 0 \<or> offset \<ge> PAGE_SIZE then None
      else if sz > - 1 - offset then None
      else
        let end' = offset + sz
        in if end' AND (PAGE_SIZE - 1) \<noteq> 0 \<and> end' > - 1 - (PAGE_SIZE - 1) then None
           else Some (page_align_up end'))"

definition table_index :: "u64 \<Rightarrow> nat \<Rightarrow> nat" where
  "table_index vaddr level = unat (drop_bit (39 - level * 9) vaddr AND TABLE_INDEX_MASK)"

definition entry_addr :: "u64 \<Rightarrow> nat \<Rightarrow> u64" where
  "entry_addr table i = table + 8 * of_nat i"

definition entry_at :: "vm \<Rightarrow> u64 \<Rightarrow> nat \<Rightarrow> u64" where
  "entry_at s table i = vm_mem s (entry_addr table i)"

definition set_entry :: "u64 \<Rightarrow> nat \<Rightarrow> u64 \<Rightarrow> vm \<Rightarrow> vm" where
  "set_entry table i v s = s\<lparr>vm_mem := (vm_mem s)(entry_addr table i := v)\<rparr>"

definition zero_table :: "u64 \<Rightarrow> vm \<Rightarrow> vm" where
  "zero_table table s = fold (\<lambda>i. set_entry table i 0) [0..<TABLE_ENTRIES] s"

definition vmm_new_table :: "vm \<Rightarrow> vm \<times> u64" where
  "vmm_new_table s =
     (let (p, paddr) = pmm_alloc_page (vm_pmm s);
          s1 = s\<lparr>vm_pmm := p\<rparr>
      in if paddr = 0 then (s1, 0) else (zero_table paddr s1, paddr))"

function free_table_level :: "u64 \<Rightarrow> nat \<Rightarrow> vm \<Rightarrow> vm" where
  "free_table_level table level s =
     (if table = 0 then s
      else
        let s1 = (if level < 3 then
                    fold (\<lambda>i s.
                       let entry = entry_at s table i
                       in if entry AND DESC_VALID \<noteq> 0 \<and> entry AND DESC_TABLE \<noteq> 0
                          then free_table_level (entry AND DESC_ADDR_MASK) (level + 1) s
                          else s) [0..<TABLE_ENTRIES] s
                  else s)
        in s1\<lparr>vm_pmm := pmm_free_page table (vm_pmm s1)\<rparr>)"
  by pat_completeness auto
termination
  by (relation "measure (\<lambda>(table, level, s). 3 - level)") auto

declare free_table_level.simps [simp del]

definition vmm_free_table :: "u64 \<Rightarrow> vm \<Rightarrow> vm" where
  "vmm_free_table pgd s = free_table_level pgd 0 s"

definition next_table :: "u64 \<Rightarrow> nat \<Rightarrow> vm \<Rightarrow> vm \<times> u64" where
  "next_table table index s =
     (let entry = entry_at s table index
      in if entry AND DESC_VALID \<noteq> 0 then
           (if entry AND DESC_TABLE = 0 then (s, 0) else (s, entry AND DESC_ADDR_MASK))
         else
           let (s1, child) = vmm_new_table s
           in if child = 0 then (s1, 0)
              else (set_entry table index
                      ((child AND DESC_ADDR_MASK) OR DESC_VALID OR DESC_TABLE) s1, child))"

definition page_descriptor :: "u64 \<Rightarrow> u64 \<Rightarrow> u64" where
  "page_descriptor paddr flags =
     (let d0 = (paddr AND DESC_ADDR_MASK) OR DESC_VALID OR DESC_PAGE OR DESC_AF;
          d1 = (if flags AND VMM_FLAG_DEVICE \<noteq> 0
                then d0 OR (DESC_ATTR_DEVICE OR DESC_UXN OR DESC_PXN)
                else d0 OR (DESC_ATTR_NORMAL OR DESC_SH_INNER));
          d2 = (if flags AND VMM_FLAG_WRITE = 0 then d1 OR DESC_AP_RO else d1);
          d3 = (if flags AND VMM_FLAG_USER \<noteq> 0 then d2 OR DESC_AP_USER else d2)
      in if flags AND VMM_FLAG_EXEC = 0 then d3 OR (DESC_UXN OR DESC_PXN)
         else if flags AND VMM_FLAG_USER \<noteq> 0 then d3 OR DESC_PXN
         else d3 OR DESC_UXN)"

definition vmm_map_page :: "u64 \<Rightarrow> u64 \<Rightarrow> u64 \<Rightarrow> u64 \<Rightarrow> vm \<Rightarrow> vm \<times> int" where
  "vmm_map_page pgd vaddr paddr flags s =
     (if pgd = 0 \<or> vaddr AND (PAGE_SIZE - 1) \<noteq> 0 \<or> paddr AND (PAGE_SIZE - 1) \<noteq> 0
      then (s, ERR)
      else
        let (s1, level1) = next_table pgd (table_index vaddr 0) s
        in if level1 = 0 then (s1, ERR)
           else
             let (s2, level2) = next_table level1 (table_index vaddr 1) s1
             in if level2 = 0 then (s2, ERR)
                else
                  let (s3, level3) = next_table level2 (table_index vaddr 2) s2
                  in if level3 = 0 then (s3, ERR)
                     else
                       let index3 = table_index vaddr 3
                       in if entry_at s3 level3 index3 AND DESC_VALID \<noteq> 0 then (s3, ERR)
                          else (set_entry level3 index3 (page_descriptor paddr flags) s3, OK))"

fun leaf_table_loop :: "u64 \<Rightarrow> u64 \<Rightarrow> nat list \<Rightarrow> vm \<Rightarrow> u64" where
  "leaf_table_loop table vaddr [] s = table"
| "leaf_table_loop table vaddr (level # levels) s =
     (let entry = entry_at s table (table_index vaddr level)
      in if entry AND DESC_VALID = 0 \<or> entry AND DESC_TABLE = 0 then 0
         else leaf_table_loop (entry AND DESC_ADDR_MASK) vaddr levels s)"

definition leaf_table :: "u64 \<Rightarrow> u64 \<Rightarrow> vm \<Rightarrow> u64" where
  "leaf_table pgd vaddr s = (if pgd = 0 then 0 else leaf_table_loop pgd vaddr [0..<3] s)"

text \<open>The TLB maintenance after the store has no effect on the tables.\<close>

definition vmm_unmap_page :: "u64 \<Rightarrow> u64 \<Rightarrow> vm \<Rightarrow> vm \<times> int" where
  "vmm_unmap_page pgd vaddr s =
     (if pgd = 0 \<or> vaddr AND (PAGE_SIZE - 1) \<noteq> 0 then (s, ERR)
      else
        let level3 = leaf_table pgd vaddr s
        in if level3 = 0 then (s, ERR)
           else
             let index3 = table_index vaddr 3
             in if entry_at s level3 index3 AND DESC_VALID = 0 then (s, ERR)
                else (set_entry level3 index3 0 s, OK))"

text \<open>The loops of \<open>vmm_map_range\<close> and \<open>vmm_unmap_range\<close> step by whole pages below the
  page-aligned bound, so the counter \<open>mapped\<close> is \<open>PAGE_SIZE\<close> times the page number.\<close>

fun map_range_loop :: "u64 \<Rightarrow> u64 \<Rightarrow> u64 \<Rightarrow> u64 \<Rightarrow> nat list \<Rightarrow> vm \<Rightarrow> vm \<times> int" where
  "map_range_loop pgd va pa flags [] s = (s, OK)"
| "map_range_loop pgd va pa flags (n # ns) s =
     (let mapped = of_nat n * PAGE_SIZE;
          (s1, r) = vmm_map_page pgd (va + mapped) (pa + mapped) flags s
      in if r \<noteq> 0
         then (fold (\<lambda>k t. fst (vmm_unmap_page pgd (va + of_nat k * PAGE_SIZE) t)) [0..<n] s1, ERR)
         else map_range_loop pgd va pa flags ns s1)"

definition vmm_map_range :: "u64 \<Rightarrow> u64 \<Rightarrow> u64 \<Rightarrow> u64 \<Rightarrow> u64 \<Rightarrow> vm \<Rightarrow> vm \<times> int" where
  "vmm_map_range pgd vaddr paddr sz flags s =
     (if pgd = 0 \<or> (vaddr XOR paddr) AND (PAGE_SIZE - 1) \<noteq> 0 then (s, ERR)
      else if sz = 0 then (s, OK)
      else
        let va = page_align_down vaddr; pa = page_align_down paddr
        in case page_span (vaddr - va) sz of
             None \<Rightarrow> (s, ERR)
           | Some end' \<Rightarrow>
               if va > - 1 - end' \<or> pa > - 1 - end' then (s, ERR)
               else map_range_loop pgd va pa flags [0..<unat (end' div PAGE_SIZE)] s)"

fun unmap_range_loop :: "u64 \<Rightarrow> u64 \<Rightarrow> nat list \<Rightarrow> vm \<Rightarrow> vm \<times> int" where
  "unmap_range_loop pgd va [] s = (s, OK)"
| "unmap_range_loop pgd va (n # ns) s =
     (let (s1, r) = vmm_unmap_page pgd (va + of_nat n * PAGE_SIZE) s
      in if r \<noteq> 0 then (s1, ERR) else unmap_range_loop pgd va ns s1)"

definition vmm_unmap_range :: "u64 \<Rightarrow> u64 \<Rightarrow> u64 \<Rightarrow> vm \<Rightarrow> vm \<times> int" where
  "vmm_unmap_range pgd vaddr sz s =
     (if pgd = 0 then (s, ERR)
      else if sz = 0 then (s, OK)
      else
        let va = page_align_down vaddr
        in case page_span (vaddr - va) sz of
             None \<Rightarrow> (s, ERR)
           | Some end' \<Rightarrow>
               if va > - 1 - end' then (s, ERR)
               else unmap_range_loop pgd va [0..<unat (end' div PAGE_SIZE)] s)"

definition vmm_leaf_entry :: "u64 \<Rightarrow> u64 \<Rightarrow> vm \<Rightarrow> u64" where
  "vmm_leaf_entry pgd vaddr s =
     (let table = leaf_table pgd vaddr s
      in if table = 0 then 0 else entry_at s table (table_index vaddr 3))"

definition vmm_virt_to_phys :: "u64 \<Rightarrow> u64 \<Rightarrow> vm \<Rightarrow> u64" where
  "vmm_virt_to_phys pgd vaddr s =
     (let entry = vmm_leaf_entry pgd vaddr s
      in if entry AND DESC_VALID = 0 \<or> entry AND DESC_PAGE = 0 then 0
         else (entry AND DESC_ADDR_MASK) OR (vaddr AND (PAGE_SIZE - 1)))"

text \<open>The linker symbols and the board's MMIO callback are parameters.\<close>

definition vmm_map_kernel_identity ::
  "u64 \<Rightarrow> u64 \<Rightarrow> u64 \<Rightarrow> u64 \<Rightarrow> u64 \<Rightarrow> u64 \<Rightarrow> u64 \<Rightarrow> (u64 \<Rightarrow> vm \<Rightarrow> vm \<times> int) option \<Rightarrow> vm \<Rightarrow> vm \<times> int" where
  "vmm_map_kernel_identity kstart text_end rodata_end data_end pgd memory_base memory_size map_mmio s =
     (let ram_end = memory_base + memory_size
      in if pgd = 0 \<or> memory_size = 0 then (s, ERR)
         else
           let (s1, r1) = (if memory_base < kstart
                 then vmm_map_range pgd memory_base memory_base (kstart - memory_base)
                        (VMM_FLAG_READ OR VMM_FLAG_WRITE) s
                 else (s, OK))
           in if r1 \<noteq> 0 then (s1, ERR) else
           let (s2, r2) = vmm_map_range pgd kstart kstart (page_align_up text_end - kstart)
                 (VMM_FLAG_READ OR VMM_FLAG_EXEC) s1
           in if r2 \<noteq> 0 then (s2, ERR) else
           let (s3, r3) = (if page_align_up text_end < page_align_up rodata_end
                 then vmm_map_range pgd (page_align_up text_end) (page_align_up text_end)
                        (page_align_up rodata_end - page_align_up text_end) VMM_FLAG_READ s2
                 else (s2, OK))
           in if r3 \<noteq> 0 then (s3, ERR) else
           let (s4, r4) = (if page_align_up rodata_end < page_align_up data_end
                 then vmm_map_range pgd (page_align_up rodata_end) (page_align_up rodata_end)
                        (page_align_up data_end - page_align_up rodata_end)
                        (VMM_FLAG_READ OR VMM_FLAG_WRITE) s3
                 else (s3, OK))
           in if r4 \<noteq> 0 then (s4, ERR) else
           let (s5, r5) = (if page_align_up data_end < ram_end
                 then vmm_map_range pgd (page_align_up data_end) (page_align_up data_end)
                        (ram_end - page_align_up data_end) (VMM_FLAG_READ OR VMM_FLAG_WRITE) s4
                 else (s4, OK))
           in if r5 \<noteq> 0 then (s5, ERR) else
           (case map_mmio of
              None \<Rightarrow> (s5, OK)
            | Some f \<Rightarrow> let (s6, r6) = f pgd s5 in if r6 \<noteq> 0 then (s6, ERR) else (s6, OK)))"

subsection \<open>Descriptor bits\<close>

lemma desc_test:
  "x AND DESC_VALID = 0 \<longleftrightarrow> \<not> bit x 0" "x AND DESC_TABLE = 0 \<longleftrightarrow> \<not> bit x 1"
  "x AND DESC_PAGE = 0 \<longleftrightarrow> \<not> bit x 1" "x AND DESC_AP_RO = 0 \<longleftrightarrow> \<not> bit x 7"
  "x AND DESC_AP_USER = 0 \<longleftrightarrow> \<not> bit x 6" "x AND DESC_UXN = 0 \<longleftrightarrow> \<not> bit x 54"
  "x AND DESC_PXN = 0 \<longleftrightarrow> \<not> bit x 53"
  unfolding DESC_VALID_def DESC_TABLE_def DESC_PAGE_def DESC_AP_RO_def DESC_AP_USER_def
    DESC_UXN_def DESC_PXN_def
  by (rule and_push_one_zero_iff)+

lemma bit_desc:
  "bit DESC_VALID n \<longleftrightarrow> n = 0" "bit DESC_TABLE n \<longleftrightarrow> n = 1" "bit DESC_PAGE n \<longleftrightarrow> n = 1"
  "bit DESC_AF n \<longleftrightarrow> n = 10" "bit DESC_AP_RO n \<longleftrightarrow> n = 7" "bit DESC_AP_USER n \<longleftrightarrow> n = 6"
  "bit DESC_UXN n \<longleftrightarrow> n = 54" "bit DESC_PXN n \<longleftrightarrow> n = 53" "bit DESC_ATTR_DEVICE n \<longleftrightarrow> n = 2"
  unfolding DESC_VALID_def DESC_TABLE_def DESC_PAGE_def DESC_AF_def DESC_AP_RO_def
    DESC_AP_USER_def DESC_UXN_def DESC_PXN_def DESC_ATTR_DEVICE_def
  by (rule bit_push_one, simp)+

lemma flag_test:
  "x AND VMM_FLAG_WRITE = 0 \<longleftrightarrow> \<not> bit x 1" "x AND VMM_FLAG_EXEC = 0 \<longleftrightarrow> \<not> bit x 2"
  "x AND VMM_FLAG_DEVICE = 0 \<longleftrightarrow> \<not> bit x 3" "x AND VMM_FLAG_USER = 0 \<longleftrightarrow> \<not> bit x 4"
  unfolding VMM_FLAG_WRITE_def VMM_FLAG_EXEC_def VMM_FLAG_DEVICE_def VMM_FLAG_USER_def
  by (rule and_push_one_zero_iff)+

lemma bit_flag:
  "bit VMM_FLAG_READ n \<longleftrightarrow> n = 0" "bit VMM_FLAG_WRITE n \<longleftrightarrow> n = 1" "bit VMM_FLAG_EXEC n \<longleftrightarrow> n = 2"
  "bit VMM_FLAG_DEVICE n \<longleftrightarrow> n = 3" "bit VMM_FLAG_USER n \<longleftrightarrow> n = 4"
  unfolding vmm_flag_defs by (rule bit_push_one, simp)+

subsection \<open>Table cells\<close>

lemma table_index_less [simp]: "table_index v level < 512"
proof -
  have "drop_bit (39 - level * 9) v AND TABLE_INDEX_MASK \<le> TABLE_INDEX_MASK"
    by (rule word_and_le1)
  then show ?thesis
    by (simp add: table_index_def TABLE_INDEX_MASK_def word_le_nat_alt)
qed

lemma unat_entry_addr:
  assumes "unat t mod 4096 = 0" "i < 512"
  shows "unat (entry_addr t i) = unat t + 8 * i"
proof -
  obtain k where k: "unat t = 4096 * k" using assms(1) by auto
  then have "k \<le> 4503599627370495" using unat_u64_less [of t] by simp
  with k have le: "unat t \<le> 2 ^ 64 - 4096" by simp
  have "unat (8 * of_nat i :: u64) = 8 * i"
    using assms(2) by (simp add: unat_word_ariths unat_of_nat take_bit_nat_eq_self)
  then show ?thesis
    unfolding entry_addr_def using le assms(2) by (subst unat_plus_no_overflow) simp_all
qed

lemma entry_addr_eq_iff:
  assumes "unat t mod 4096 = 0" "unat t' mod 4096 = 0" "i < 512" "j < 512"
  shows "entry_addr t i = entry_addr t' j \<longleftrightarrow> t = t' \<and> i = j"
proof
  assume "entry_addr t i = entry_addr t' j"
  then have eq: "unat t + 8 * i = unat t' + 8 * j"
    using unat_entry_addr assms by metis
  obtain a where a: "unat t = 4096 * a" using assms(1) by auto
  obtain b where b: "unat t' = 4096 * b" using assms(2) by auto
  note ab = a b
  with eq have e: "512 * a + i = 512 * b + j" by simp
  have "(512 * a + i) div 512 = a" "(512 * b + j) div 512 = b" using assms(3,4) by simp_all
  with e have "a = b" by metis
  with e have "i = j" by simp
  with \<open>a = b\<close> ab show "t = t' \<and> i = j" by (simp add: unsigned_word_eqI [where ?'a = nat])
qed auto

lemma entry_at_set_entry:
  assumes "unat t mod 4096 = 0" "unat t' mod 4096 = 0" "i < 512" "j < 512"
  shows "entry_at (set_entry t i v s) t' j = (if t' = t \<and> j = i then v else entry_at s t' j)"
  using entry_addr_eq_iff [OF assms] by (auto simp: entry_at_def set_entry_def)

lemma set_entry_pmm [simp]: "vm_pmm (set_entry t i v s) = vm_pmm s"
  by (simp add: set_entry_def)

lemma fold_zero_pmm [simp]: "vm_pmm (fold (\<lambda>i. set_entry t i 0) xs s) = vm_pmm s"
  by (induction xs arbitrary: s) simp_all

lemma zero_table_pmm [simp]: "vm_pmm (zero_table t s) = vm_pmm s"
  by (simp add: zero_table_def)

lemma entry_at_zero_table:
  assumes "unat t mod 4096 = 0" "unat t' mod 4096 = 0" "j < 512"
  shows "entry_at (zero_table t s) t' j = (if t' = t then 0 else entry_at s t' j)"
proof -
  have "entry_at (fold (\<lambda>i. set_entry t i 0) xs s) t' j =
      (if t' = t \<and> j \<in> set xs then 0 else entry_at s t' j)" if "set xs \<subseteq> {..<512}" for xs
    using that
    by (induction xs arbitrary: s) (auto simp: entry_at_set_entry [OF assms(1,2) _ assms(3)]
        entry_at_set_entry [OF assms(1,1) _ assms(3)])
  from this [of "[0..<TABLE_ENTRIES]"] assms(3) show ?thesis
    by (simp add: zero_table_def TABLE_ENTRIES_def lessThan_atLeast0)
qed

subsection \<open>Walking the hierarchy\<close>

abbreviation is_table_entry :: "u64 \<Rightarrow> bool" where
  "is_table_entry e \<equiv> e AND DESC_VALID \<noteq> 0 \<and> e AND DESC_TABLE \<noteq> 0"

fun walk :: "vm \<Rightarrow> u64 \<Rightarrow> u64 \<Rightarrow> nat \<Rightarrow> u64 option" where
  "walk s pgd v 0 = Some pgd"
| "walk s pgd v (Suc k) =
     (case walk s pgd v k of
        None \<Rightarrow> None
      | Some t \<Rightarrow> let e = entry_at s t (table_index v k)
                  in if is_table_entry e then Some (e AND DESC_ADDR_MASK) else None)"

lemma leaf_table_walk:
  assumes "pgd \<noteq> 0"
  shows "leaf_table pgd v s = (case walk s pgd v 3 of None \<Rightarrow> 0 | Some t \<Rightarrow> t)"
  using assms
  by (simp add: leaf_table_def numeral_3_eq_3 Let_def split: option.split)

lemma walk_cong: "\<forall>j<k. table_index v j = table_index v' j \<Longrightarrow> walk s pgd v k = walk s pgd v' k"
  by (induction k) (auto split: option.split)

text \<open>
  A hierarchy is well formed when its tables are allocated pages below the 48-bit
  address limit, no table is reached by two different index paths, and no entry above the
  last level is a block descriptor.
\<close>

definition vt_inv :: "u64 \<Rightarrow> vm \<Rightarrow> bool" where
  "vt_inv pgd s \<longleftrightarrow>
     pmm_inv (vm_pmm s) \<and>
     (\<forall>a \<in> managed_addrs (vm_pmm s). unat a < 2 ^ 48) \<and>
     (\<forall>v k t. k \<le> 3 \<longrightarrow> walk s pgd v k = Some t \<longrightarrow>
        t \<noteq> 0 \<and> t \<in> managed_addrs (vm_pmm s) - free_addrs (vm_pmm s)) \<and>
     (\<forall>v v' k k' t. k \<le> 3 \<longrightarrow> k' \<le> 3 \<longrightarrow> walk s pgd v k = Some t \<longrightarrow> walk s pgd v' k' = Some t \<longrightarrow>
        k = k' \<and> (\<forall>j<k. table_index v j = table_index v' j)) \<and>
     (\<forall>v k t. k < 3 \<longrightarrow> walk s pgd v k = Some t \<longrightarrow> bit (entry_at s t (table_index v k)) 0 \<longrightarrow>
        bit (entry_at s t (table_index v k)) 1)"

lemma managed_aligned: "pmm_inv p \<Longrightarrow> a \<in> managed_addrs p \<Longrightarrow> unat a mod 4096 = 0"
  using page_addr_aligned [of p]
  by (auto simp: managed_addrs_def pmm_invD PAGE_SIZE_def page_aligned_iff)

lemma vt_invD:
  assumes "vt_inv pgd s"
  shows "pmm_inv (vm_pmm s)"
    and "k \<le> 3 \<Longrightarrow> walk s pgd v k = Some t \<Longrightarrow> t \<noteq> 0"
    and "k \<le> 3 \<Longrightarrow> walk s pgd v k = Some t \<Longrightarrow> t \<in> managed_addrs (vm_pmm s)"
    and "k \<le> 3 \<Longrightarrow> walk s pgd v k = Some t \<Longrightarrow> t \<notin> free_addrs (vm_pmm s)"
    and "k \<le> 3 \<Longrightarrow> walk s pgd v k = Some t \<Longrightarrow> unat t mod 4096 = 0"
    and "a \<in> managed_addrs (vm_pmm s) \<Longrightarrow> unat a < 2 ^ 48"
proof -
  show inv: "pmm_inv (vm_pmm s)" using assms by (simp add: vt_inv_def)
  show "k \<le> 3 \<Longrightarrow> walk s pgd v k = Some t \<Longrightarrow> t \<noteq> 0"
    and man: "k \<le> 3 \<Longrightarrow> walk s pgd v k = Some t \<Longrightarrow> t \<in> managed_addrs (vm_pmm s)"
    and "k \<le> 3 \<Longrightarrow> walk s pgd v k = Some t \<Longrightarrow> t \<notin> free_addrs (vm_pmm s)"
    and "a \<in> managed_addrs (vm_pmm s) \<Longrightarrow> unat a < 2 ^ 48"
    using assms unfolding vt_inv_def by blast+
  show "k \<le> 3 \<Longrightarrow> walk s pgd v k = Some t \<Longrightarrow> unat t mod 4096 = 0"
    by (rule managed_aligned [OF inv man])
qed

lemma vt_invI:
  assumes "pmm_inv (vm_pmm s)" "\<And>a. a \<in> managed_addrs (vm_pmm s) \<Longrightarrow> unat a < 2 ^ 48"
    "\<And>v k t. k \<le> 3 \<Longrightarrow> walk s pgd v k = Some t \<Longrightarrow>
       t \<noteq> 0 \<and> t \<in> managed_addrs (vm_pmm s) \<and> t \<notin> free_addrs (vm_pmm s)"
    "\<And>v v' k k' t. k \<le> 3 \<Longrightarrow> k' \<le> 3 \<Longrightarrow> walk s pgd v k = Some t \<Longrightarrow> walk s pgd v' k' = Some t \<Longrightarrow>
       k = k' \<and> (\<forall>j<k. table_index v j = table_index v' j)"
    "\<And>v k t. k < 3 \<Longrightarrow> walk s pgd v k = Some t \<Longrightarrow> bit (entry_at s t (table_index v k)) 0 \<Longrightarrow>
       bit (entry_at s t (table_index v k)) 1"
  shows "vt_inv pgd s"
  unfolding vt_inv_def
proof (intro conjI allI impI ballI)
qed (use assms in blast)+

lemma vt_inv_unique:
  assumes "vt_inv pgd s" "k \<le> 3" "k' \<le> 3" "walk s pgd v k = Some t" "walk s pgd v' k' = Some t"
  shows "k = k'" "j < k \<Longrightarrow> table_index v j = table_index v' j"
  using assms unfolding vt_inv_def by blast+

lemma vt_inv_no_block:
  assumes "vt_inv pgd s" "k < 3" "walk s pgd v k = Some t" "bit (entry_at s t (table_index v k)) 0"
  shows "bit (entry_at s t (table_index v k)) 1"
  using assms unfolding vt_inv_def by blast

subsection \<open>Linking a fresh table\<close>

lemma bit_addr_mask: "bit DESC_ADDR_MASK n \<longleftrightarrow> 12 \<le> n \<and> n < 48"
proof -
  have eq: "DESC_ADDR_MASK = mask 48 AND NOT (mask 12)"
    by (simp add: DESC_ADDR_MASK_def mask_eq_exp_minus_1)
  show ?thesis unfolding eq by (auto simp: bit_simps)
qed

lemma page_addr_bits:
  fixes a :: u64
  assumes "unat a < 2 ^ 48" "unat a mod 4096 = 0" "bit a n"
  shows "12 \<le> n \<and> n < 48"
proof -
  have "take_bit 48 a = a"
    using assms(1)
    by (intro unsigned_word_eqI [where ?'a = nat]) (simp add: unsigned_take_bit_eq take_bit_nat_eq_self)
  then have "n < 48" using assms(3) by (metis bit_take_bit_iff)
  moreover have "take_bit 12 a = 0"
    using assms(2) page_aligned_iff [of a] unfolding page_mask take_bit_eq_mask by simp
  then have "\<not> bit (take_bit 12 a) n" by simp
  then have "12 \<le> n" using assms(3) by (simp add: bit_take_bit_iff)
  ultimately show ?thesis by simp
qed

lemma addr_mask_id:
  assumes "unat a < 2 ^ 48" "unat a mod 4096 = 0"
  shows "a AND DESC_ADDR_MASK = a"
  by (rule bit_word_eqI) (use page_addr_bits [OF assms] in \<open>auto simp: bit_and_iff bit_addr_mask\<close>)

definition table_entry :: "u64 \<Rightarrow> u64" where
  "table_entry c = (c AND DESC_ADDR_MASK) OR DESC_VALID OR DESC_TABLE"

lemma table_entry_facts:
  assumes "unat c < 2 ^ 48" "unat c mod 4096 = 0"
  shows "is_table_entry (table_entry c)" "table_entry c AND DESC_ADDR_MASK = c"
proof -
  show "is_table_entry (table_entry c)"
    by (simp add: table_entry_def desc_test bit_or_iff bit_desc)
  have "table_entry c AND DESC_ADDR_MASK = c AND DESC_ADDR_MASK"
    by (rule bit_word_eqI) (auto simp: table_entry_def bit_and_iff bit_or_iff bit_desc bit_addr_mask)
  then show "table_entry c AND DESC_ADDR_MASK = c" using assms by (simp add: addr_mask_id)
qed


text \<open>The state after a fresh, zeroed table \<open>c\<close> was hung into entry \<open>i\<close> of \<open>t\<close>.\<close>

definition link_table :: "u64 \<Rightarrow> nat \<Rightarrow> u64 \<Rightarrow> pmm \<Rightarrow> vm \<Rightarrow> vm" where
  "link_table t i c p s = set_entry t i (table_entry c) (zero_table c (s\<lparr>vm_pmm := p\<rparr>))"

lemma link_table_pmm [simp]: "vm_pmm (link_table t i c p s) = p"
  by (simp add: link_table_def)

lemma entry_at_pmm [simp]: "entry_at (s\<lparr>vm_pmm := p\<rparr>) t i = entry_at s t i"
  by (simp add: entry_at_def)

lemma entry_at_link_table:
  assumes "unat t mod 4096 = 0" "unat c mod 4096 = 0" "unat t' mod 4096 = 0" "i < 512" "j < 512"
  shows "entry_at (link_table t i c p s) t' j =
    (if t' = t \<and> j = i then table_entry c else if t' = c then 0 else entry_at s t' j)"
  using assms by (simp add: link_table_def entry_at_set_entry entry_at_zero_table)

lemma next_table_cases:
  assumes "next_table t i s = (s', c)" "pmm_inv (vm_pmm s)"
  obtains (block) "c = 0" "s' = s" "bit (entry_at s t i) 0" "\<not> bit (entry_at s t i) 1"
    | (full) "c = 0" "s' = s" "free_addrs (vm_pmm s) = {}"
    | (old) "is_table_entry (entry_at s t i)" "c = entry_at s t i AND DESC_ADDR_MASK" "s' = s"
    | (fresh) p where "\<not> bit (entry_at s t i) 0" "pmm_alloc_page (vm_pmm s) = (p, c)" "c \<noteq> 0"
        "s' = link_table t i c p s"
proof (cases "entry_at s t i AND DESC_VALID = 0")
  case False
  with assms(1) show thesis
    by (cases "entry_at s t i AND DESC_TABLE = 0")
       (auto simp: next_table_def Let_def desc_test intro: block old)
next
  case True
  obtain p a where a: "pmm_alloc_page (vm_pmm s) = (p, a)" by fastforce
  show thesis
  proof (cases "a = 0")
    case True
    with a assms(2) have "p = vm_pmm s" "free_addrs (vm_pmm s) = {}"
      using pp.alloc_fails pp.alloc_zero_iff by (blast, fastforce)
    with True a assms(1) \<open>entry_at s t i AND DESC_VALID = 0\<close> show thesis
      by (intro full) (simp_all add: next_table_def vmm_new_table_def)
  next
    case False
    with a assms(1) \<open>entry_at s t i AND DESC_VALID = 0\<close> show thesis
      by (intro fresh [of p])
         (auto simp: next_table_def vmm_new_table_def link_table_def table_entry_def desc_test)
  qed
qed

lemma walk_link_table:
  assumes inv: "vt_inv pgd s" and k: "k < 3" and t: "walk s pgd v k = Some t"
    and empty: "\<not> bit (entry_at s t (table_index v k)) 0"
    and alloc: "pmm_alloc_page (vm_pmm s) = (p, c)" "c \<noteq> 0"
    and s': "s' = link_table t (table_index v k) c p s"
  shows "m \<le> 3 \<Longrightarrow> walk s' pgd v' m =
    (if k < m \<and> (\<forall>j\<le>k. table_index v' j = table_index v j)
     then (if m = Suc k then Some c else None) else walk s pgd v' m)"
proof (induction m)
  case 0
  show ?case by simp
next
  case (Suc m)
  note fresh = pp.alloc_succeeds [OF vt_invD(1) [OF inv] alloc]
  have cal: "unat c mod 4096 = 0"
    using managed_aligned [OF vt_invD(1) [OF inv] fresh(5)] .
  have c48: "unat c < 2 ^ 48" using vt_invD(6) [OF inv fresh(5)] .
  have tal: "unat t mod 4096 = 0" using vt_invD(5) [OF inv _ t] k by simp
  have tc: "t \<noteq> c" using vt_invD(4) [OF inv _ t] k fresh(1) by auto
  have entry: "entry_at s' t' (table_index x l) =
      (if t' = t \<and> table_index x l = table_index v k then table_entry c
       else if t' = c then 0 else entry_at s t' (table_index x l))"
    if "unat t' mod 4096 = 0" for t' x l
    unfolding s' by (rule entry_at_link_table [OF tal cal that]) simp_all
  show ?case
  proof (cases "k < m \<and> (\<forall>j\<le>k. table_index v' j = table_index v j)")
    case True
    with Suc have "walk s' pgd v' m = (if m = Suc k then Some c else None)" by simp
    moreover have "\<not> bit (entry_at s' c (table_index v' m)) 0"
      using entry [OF cal] tc by simp
    ultimately show ?thesis using True by (cases "m = Suc k") (simp_all add: desc_test Let_def)
  next
    case False
    with Suc have w: "walk s' pgd v' m = walk s pgd v' m" by simp
    show ?thesis
    proof (cases "walk s pgd v' m")
      case None
      have "\<not> (k < Suc m \<and> (\<forall>j\<le>k. table_index v' j = table_index v j))"
      proof
        assume "k < Suc m \<and> (\<forall>j\<le>k. table_index v' j = table_index v j)"
        with False have "m = k" "\<forall>j<k. table_index v' j = table_index v j" by auto
        with None t walk_cong [of k v' v s pgd] show False by simp
      qed
      with None w show ?thesis by auto
    next
      case (Some t')
      have al': "unat t' mod 4096 = 0" using vt_invD(5) [OF inv _ Some] Suc.prems by simp
      have nc: "t' \<noteq> c" using vt_invD(4) [OF inv _ Some] Suc.prems fresh(1) by auto
      show ?thesis
      proof (cases "t' = t \<and> table_index v' m = table_index v k")
        case True
        then have "m = k" "\<forall>j<k. table_index v' j = table_index v j"
          using vt_inv_unique [OF inv _ _ Some, of k v] t k Suc.prems by auto
        with True have share: "k < Suc m" "\<forall>j\<le>k. table_index v' j = table_index v j"
          by (auto simp: le_less)
        have "entry_at s' t' (table_index v' m) = table_entry c" using entry [OF al'] True by simp
        with w Some share \<open>m = k\<close> show ?thesis by (simp add: table_entry_facts [OF c48 cal])
      next
        case other: False
        then have "entry_at s' t' (table_index v' m) = entry_at s t' (table_index v' m)"
          using entry [OF al', of v' m] nc by auto
        moreover have "\<not> (k < Suc m \<and> (\<forall>j\<le>k. table_index v' j = table_index v j))"
        proof
          assume "k < Suc m \<and> (\<forall>j\<le>k. table_index v' j = table_index v j)"
          with False have "m = k" "\<forall>j\<le>k. table_index v' j = table_index v j" by auto
          moreover from this Some t have "t' = t" using walk_cong [of k v' v s pgd] by simp
          ultimately show False using other by simp
        qed
        ultimately show ?thesis using w Some by auto
      qed
    qed
  qed
qed


lemma vt_inv_link_table:
  assumes inv: "vt_inv pgd s" and k: "k < 3" and t: "walk s pgd v k = Some t"
    and empty: "\<not> bit (entry_at s t (table_index v k)) 0"
    and alloc: "pmm_alloc_page (vm_pmm s) = (p, c)" "c \<noteq> 0"
    and s': "s' = link_table t (table_index v k) c p s"
  shows "vt_inv pgd s'"
proof -
  note fresh = pp.alloc_succeeds [OF vt_invD(1) [OF inv] alloc]
  note w = walk_link_table [OF assms]
  have old_ne: "walk s pgd v' m \<noteq> Some c" if "m \<le> 3" for v' m
    using vt_invD(4) [OF inv that, of v' c] fresh(1) by auto
  have new: "m = Suc k \<and> (\<forall>j\<le>k. table_index v' j = table_index v j)"
    if "m \<le> 3" "walk s' pgd v' m = Some c" for v' m
    using w [OF that(1), of v'] that(2) old_ne [OF that(1)] by (auto split: if_splits)
  have old: "walk s pgd v' m = Some x" if "m \<le> 3" "walk s' pgd v' m = Some x" "x \<noteq> c" for v' m x
    using w [OF that(1), of v'] that(2,3) by (auto split: if_splits)
  have reached: "x \<noteq> 0 \<and> x \<in> managed_addrs p - free_addrs p"
    if "m \<le> 3" "walk s' pgd v' m = Some x" for v' m x
  proof (cases "x = c")
    case True
    with alloc(2) fresh show ?thesis by simp
  next
    case False
    from old [OF that False] show ?thesis
      using vt_invD(2-4) [OF inv that(1)] fresh(2,4) by auto
  qed
  have unique: "m = m' \<and> (\<forall>j<m. table_index v1 j = table_index v2 j)"
    if m: "m \<le> 3" "m' \<le> 3" "walk s' pgd v1 m = Some x" "walk s' pgd v2 m' = Some x" for v1 v2 m m' x
  proof (cases "x = c")
    case True
    with new [of m v1] new [of m' v2] m show ?thesis by (auto simp: less_Suc_eq_le)
  next
    case False
    with old m have "walk s pgd v1 m = Some x" "walk s pgd v2 m' = Some x" by blast+
    from vt_inv_unique [OF inv m(1,2) this] show ?thesis by simp
  qed
  show ?thesis
  proof (rule vt_invI)
    show "pmm_inv (vm_pmm s')" by (simp add: s' fresh(3))
    show "unat a < 2 ^ 48" if "a \<in> managed_addrs (vm_pmm s')" for a
      using that vt_invD(6) [OF inv] fresh(4) by (simp add: s')
    show "x \<noteq> 0 \<and> x \<in> managed_addrs (vm_pmm s') \<and> x \<notin> free_addrs (vm_pmm s')"
      if "m \<le> 3" "walk s' pgd v' m = Some x" for v' m x
      using reached [OF that] by (simp add: s')
    show "bit (entry_at s' x (table_index v' m)) 1"
      if m: "m < 3" "walk s' pgd v' m = Some x" "bit (entry_at s' x (table_index v' m)) 0" for v' m x
    proof -
      have cal: "unat c mod 4096 = 0" by (rule managed_aligned [OF vt_invD(1) [OF inv] fresh(5)])
      have tal: "unat t mod 4096 = 0" using vt_invD(5) [OF inv _ t] k by simp
      have "unat x mod 4096 = 0"
        using reached [of m v' x] m fresh(3) by (auto intro: managed_aligned)
      note e = entry_at_link_table [OF tal cal this, of "table_index v k" "table_index v' m" p s]
      show ?thesis
        using e m vt_inv_no_block [OF inv m(1), of v' x] old [of m v' x]
        by (auto simp: s' bit_or_iff bit_desc table_entry_def split: if_splits)
    qed
  qed (rule unique)
qed

text \<open>Neither a lookup nor a fresh table changes what any address maps to.\<close>

lemma vmm_leaf_entry_walk:
  "pgd \<noteq> 0 \<Longrightarrow> vt_inv pgd s \<Longrightarrow> vmm_leaf_entry pgd v s =
     (case walk s pgd v 3 of None \<Rightarrow> 0 | Some t \<Rightarrow> entry_at s t (table_index v 3))"
  using vt_invD(2) [of pgd s 3 v]
  by (auto simp: vmm_leaf_entry_def leaf_table_walk Let_def split: option.splits)

lemma leaf_entry_link_table:
  assumes inv: "vt_inv pgd s" and pgd: "pgd \<noteq> 0" and k: "k < 3" and t: "walk s pgd v k = Some t"
    and empty: "\<not> bit (entry_at s t (table_index v k)) 0"
    and alloc: "pmm_alloc_page (vm_pmm s) = (p, c)" "c \<noteq> 0"
    and s': "s' = link_table t (table_index v k) c p s"
  shows "vmm_leaf_entry pgd v' s' = vmm_leaf_entry pgd v' s"
proof -
  note fresh = pp.alloc_succeeds [OF vt_invD(1) [OF inv] alloc]
  note args = inv k t empty alloc s'
  note w = walk_link_table [OF args, of 3 v', simplified]
  have cal: "unat c mod 4096 = 0" by (rule managed_aligned [OF vt_invD(1) [OF inv] fresh(5)])
  have tal: "unat t mod 4096 = 0" using vt_invD(5) [OF inv _ t] k by simp
  have tc: "t \<noteq> c" using vt_invD(4) [OF inv _ t] k fresh(1) by auto
  have inv': "vt_inv pgd s'" by (rule vt_inv_link_table [OF args])
  note leaf = vmm_leaf_entry_walk [OF pgd inv] vmm_leaf_entry_walk [OF pgd inv']
  show ?thesis
  proof (cases "\<forall>j\<le>k. table_index v' j = table_index v j")
    case True
    then have "walk s pgd v' k = Some t" using t walk_cong [of k v' v s pgd] by simp
    then have "walk s pgd v' (Suc k) = None"
      using empty True by (simp add: desc_test Let_def)
    then have "walk s pgd v' (Suc k + n) = None" for n by (induction n) simp_all
    from this [of "2 - k"] k have "walk s pgd v' 3 = None" by simp
    moreover have "entry_at s' c (table_index v' 3) = 0"
      using entry_at_link_table [OF tal cal cal] tc by (simp add: s')
    ultimately show ?thesis using w True k unfolding leaf by (simp split: if_splits)
  next
    case False
    then have w3: "walk s' pgd v' 3 = walk s pgd v' 3" using w by auto
    have "entry_at s' x (table_index v' 3) = entry_at s x (table_index v' 3)"
      if x: "walk s pgd v' 3 = Some x" for x
    proof -
      have "x \<noteq> c" using vt_invD(4) [OF inv _ x] fresh(1) by auto
      moreover have "x \<noteq> t" using vt_inv_unique(1) [OF inv _ _ x, of k v] t k by auto
      moreover have "unat x mod 4096 = 0" using vt_invD(5) [OF inv _ x] by simp
      ultimately show ?thesis using entry_at_link_table [OF tal cal] by (simp add: s')
    qed
    then show ?thesis unfolding leaf w3 by (simp split: option.split)
  qed
qed


lemma next_table_step:
  assumes inv: "vt_inv pgd s" and pgd: "pgd \<noteq> 0" and k: "k < 3" and t: "walk s pgd v k = Some t"
    and nt: "next_table t (table_index v k) s = (s', c)"
  shows "vt_inv pgd s' \<and> (\<forall>v'. vmm_leaf_entry pgd v' s' = vmm_leaf_entry pgd v' s) \<and>
    (if c = 0 then free_addrs (vm_pmm s) = {} else walk s' pgd v (Suc k) = Some c) \<and>
    card (free_addrs (vm_pmm s)) \<le> Suc (card (free_addrs (vm_pmm s')))"
  using nt vt_invD(1) [OF inv]
proof (cases rule: next_table_cases)
  case block
  with vt_inv_no_block [OF inv k t] show ?thesis by simp
next
  case full
  with inv show ?thesis by simp
next
  case old
  then have w: "walk s pgd v (Suc k) = Some c" using t by simp
  then have "c \<noteq> 0" using vt_invD(2) [OF inv _ w] k by simp
  with w inv old(3) show ?thesis by (simp del: walk.simps)
next
  case (fresh p)
  note args = k t fresh
  have "walk s' pgd v (Suc k) = Some c"
    using walk_link_table [OF inv args, of "Suc k" v] k by simp
  moreover have "card (free_addrs (vm_pmm s)) \<le> Suc (card (free_addrs (vm_pmm s')))"
    using pp.alloc_succeeds(2) [OF vt_invD(1) [OF inv] fresh(2,3)] fresh(4)
    by (simp add: card_Diff_singleton_if) arith
  ultimately show ?thesis
    using vt_inv_link_table [OF inv args] leaf_entry_link_table [OF inv pgd args] fresh(3)
    by (simp del: walk.simps)
qed

subsection \<open>Writing a leaf\<close>

text \<open>Two addresses select the same leaf when all four table indices agree.\<close>

definition same_page :: "u64 \<Rightarrow> u64 \<Rightarrow> bool" where
  "same_page v v' \<longleftrightarrow> (\<forall>j\<le>3. table_index v j = table_index v' j)"

lemma same_page_walk: "same_page v' v \<Longrightarrow> m \<le> 4 \<Longrightarrow> walk s pgd v' m = walk s pgd v m"
  by (rule walk_cong) (simp add: same_page_def)

lemma walk_set_leaf:
  assumes inv: "vt_inv pgd s" and t: "walk s pgd v 3 = Some t"
  shows "m \<le> 3 \<Longrightarrow> walk (set_entry t (table_index v 3) e s) pgd v' m = walk s pgd v' m"
proof (induction m)
  case (Suc m)
  have "entry_at (set_entry t (table_index v 3) e s) x (table_index v' m) = entry_at s x (table_index v' m)"
    if x: "walk s pgd v' m = Some x" for x
  proof -
    have "x \<noteq> t" using vt_inv_unique(1) [OF inv _ _ x, of 3 v] t Suc.prems by auto
    moreover have "unat x mod 4096 = 0" "unat t mod 4096 = 0"
      using vt_invD(5) [OF inv _ x] vt_invD(5) [OF inv _ t] Suc.prems by simp_all
    ultimately show ?thesis by (simp add: entry_at_set_entry)
  qed
  with Suc show ?case by (auto split: option.splits)
qed simp

lemma set_leaf:
  assumes inv: "vt_inv pgd s" and pgd: "pgd \<noteq> 0" and t: "walk s pgd v 3 = Some t"
    and s': "s' = set_entry t (table_index v 3) e s"
  shows "vt_inv pgd s'"
    and "vmm_leaf_entry pgd v' s' = (if same_page v' v then e else vmm_leaf_entry pgd v' s)"
proof -
  note w = walk_set_leaf [OF inv t, of _ e, folded s']
  have p: "vm_pmm s' = vm_pmm s" by (simp add: s')
  have al: "unat x mod 4096 = 0" if "m \<le> 3" "walk s pgd v' m = Some x" for m v' x
    by (rule vt_invD(5) [OF inv that])
  show inv': "vt_inv pgd s'"
  proof (rule vt_invI)
    fix v' k x
    assume k: "k < 3" "walk s' pgd v' k = Some x" "bit (entry_at s' x (table_index v' k)) 0"
    with w have wx: "walk s pgd v' k = Some x" by simp
    have "x \<noteq> t" using vt_inv_unique(1) [OF inv _ _ wx, of 3 v] t k by auto
    then have "entry_at s' x (table_index v' k) = entry_at s x (table_index v' k)"
      using al [of k v' x] al [of 3 v t] wx t k by (simp add: s' entry_at_set_entry)
    with k vt_inv_no_block [OF inv _ wx] show "bit (entry_at s' x (table_index v' k)) 1" by simp
  next
    fix v1 v2 k k' x
    assume k: "k \<le> 3" "k' \<le> 3" "walk s' pgd v1 k = Some x" "walk s' pgd v2 k' = Some x"
    with w have "walk s pgd v1 k = Some x" "walk s pgd v2 k' = Some x" by simp_all
    with vt_inv_unique [OF inv k(1,2) this]
    show "k = k' \<and> (\<forall>j<k. table_index v1 j = table_index v2 j)" by simp
  qed (use inv vt_invD [OF inv] w in \<open>simp_all add: p\<close>)
  show "vmm_leaf_entry pgd v' s' = (if same_page v' v then e else vmm_leaf_entry pgd v' s)"
  proof (cases "walk s pgd v' 3")
    case None
    with t same_page_walk [of v' v 3 s pgd] have "\<not> same_page v' v" by auto
    with None show ?thesis
      by (simp add: vmm_leaf_entry_walk [OF pgd inv] vmm_leaf_entry_walk [OF pgd inv'] w)
  next
    case (Some x)
    have "same_page v' v \<longleftrightarrow> x = t \<and> table_index v' 3 = table_index v 3"
    proof
      assume sp: "same_page v' v"
      then have "walk s pgd v' 3 = walk s pgd v 3" by (rule same_page_walk) simp
      with sp Some t show "x = t \<and> table_index v' 3 = table_index v 3" by (simp add: same_page_def)
    next
      assume "x = t \<and> table_index v' 3 = table_index v 3"
      with vt_inv_unique(2) [OF inv _ _ Some, of 3 v] t show "same_page v' v"
        unfolding same_page_def by (metis le_neq_implies_less le_refl)
    qed
    then show ?thesis
      using Some al [of 3 v' x] al [of 3 v t] t
      by (simp add: vmm_leaf_entry_walk [OF pgd inv] vmm_leaf_entry_walk [OF pgd inv'] w)
         (simp add: s' entry_at_set_entry)
  qed
qed


subsection \<open>Mapping and unmapping one page\<close>

text \<open>What an address maps to: the leaf descriptor if it is valid.\<close>

definition translation :: "u64 \<Rightarrow> vm \<Rightarrow> u64 \<Rightarrow> u64 option" where
  "translation pgd s v = (let e = vmm_leaf_entry pgd v s in if bit e 0 then Some e else None)"

lemma page_descriptor_valid [simp]: "bit (page_descriptor pa fl) 0"
  by (auto simp: page_descriptor_def Let_def bit_or_iff bit_desc)

lemma vmm_map_page_cases:
  assumes inv: "vt_inv pgd s" and m: "vmm_map_page pgd va pa fl s = (s', r)"
    and al: "pgd \<noteq> 0" "va AND (PAGE_SIZE - 1) = 0" "pa AND (PAGE_SIZE - 1) = 0"
  obtains (full) "r = ERR" "vt_inv pgd s'" "\<And>v. vmm_leaf_entry pgd v s' = vmm_leaf_entry pgd v s"
      "card (free_addrs (vm_pmm s)) < 3"
    | (mapped) "r = ERR" "vt_inv pgd s'" "\<And>v. vmm_leaf_entry pgd v s' = vmm_leaf_entry pgd v s"
      "bit (vmm_leaf_entry pgd va s) 0"
    | (ok) "r = OK" "vt_inv pgd s'" "\<not> bit (vmm_leaf_entry pgd va s) 0"
      "\<And>v. vmm_leaf_entry pgd v s' =
         (if same_page v va then page_descriptor pa fl else vmm_leaf_entry pgd v s)"
      "card (free_addrs (vm_pmm s)) \<le> card (free_addrs (vm_pmm s')) + 3"
proof -
  obtain s1 t1 where 1: "next_table pgd (table_index va 0) s = (s1, t1)" by fastforce
  have l: "(0::nat) < 3" "(1::nat) < 3" "(2::nat) < 3" by simp_all
  note n1 = next_table_step [OF inv al(1) l(1) walk.simps(1) 1]
  show thesis
  proof (cases "t1 = 0")
    case True
    with n1 m al 1 show thesis by (intro full) (simp_all add: vmm_map_page_def)
  next
    case t1: False
    obtain s2 t2 where 2: "next_table t1 (table_index va 1) s1 = (s2, t2)" by fastforce
    from n1 t1 have "vt_inv pgd s1" "walk s1 pgd va 1 = Some t1" by simp_all
    note n2 = next_table_step [OF this(1) al(1) l(2) this(2) 2]
    show thesis
    proof (cases "t2 = 0")
      case True
      with n1 n2 m al 1 t1 2 show thesis by (intro full) (simp_all add: vmm_map_page_def)
    next
      case t2: False
      obtain s3 t3 where 3: "next_table t2 (table_index va 2) s2 = (s3, t3)" by fastforce
      from n2 t2 have "vt_inv pgd s2" "walk s2 pgd va 2 = Some t2" by (simp_all del: walk.simps add: numeral_2_eq_2)
      note n3 = next_table_step [OF this(1) al(1) l(3) this(2) 3]
      show thesis
      proof (cases "t3 = 0")
        case True
        with n1 n2 n3 m al 1 t1 2 t2 3 show thesis
          by (intro full) (simp_all add: vmm_map_page_def)
      next
        case t3: False
        with n3 have inv3: "vt_inv pgd s3" and w3: "walk s3 pgd va 3 = Some t3"
          by (simp_all del: walk.simps add: numeral_3_eq_3 numeral_2_eq_2)
        have leaf3: "vmm_leaf_entry pgd v s3 = vmm_leaf_entry pgd v s" for v
          using n1 n2 n3 by metis
        have leaf: "entry_at s3 t3 (table_index va 3) = vmm_leaf_entry pgd va s"
          using vmm_leaf_entry_walk [OF al(1) inv3, of va] w3 leaf3 by simp
        show thesis
        proof (cases "bit (vmm_leaf_entry pgd va s) 0")
          case True
          with m al 1 t1 2 t2 3 t3 leaf have "s' = s3" "r = ERR"
            by (simp_all add: vmm_map_page_def desc_test)
          with inv3 leaf3 True show thesis by (intro mapped) simp_all
        next
          case False
          with m al 1 t1 2 t2 3 t3 leaf
          have s': "s' = set_entry t3 (table_index va 3) (page_descriptor pa fl) s3" and "r = OK"
            by (simp_all add: vmm_map_page_def desc_test)
          moreover have "card (free_addrs (vm_pmm s)) \<le> card (free_addrs (vm_pmm s')) + 3"
            using n1 n2 n3 by (simp add: s')
          ultimately show thesis using False set_leaf [OF inv3 al(1) w3 s'] leaf3 by (intro ok) simp_all
        qed
      qed
    qed
  qed
qed

lemma vmm_unmap_page_cases:
  assumes inv: "vt_inv pgd s" and m: "vmm_unmap_page pgd va s = (s', r)"
    and al: "pgd \<noteq> 0" "va AND (PAGE_SIZE - 1) = 0"
  obtains (unmapped) "r = ERR" "s' = s" "\<not> bit (vmm_leaf_entry pgd va s) 0"
    | (ok) "r = OK" "vt_inv pgd s'" "bit (vmm_leaf_entry pgd va s) 0"
      "\<And>v. vmm_leaf_entry pgd v s' = (if same_page v va then 0 else vmm_leaf_entry pgd v s)"
proof (cases "walk s pgd va 3")
  case None
  with m al show thesis
    by (intro unmapped) (simp_all add: vmm_unmap_page_def leaf_table_walk vmm_leaf_entry_def)
next
  case (Some t)
  then have t: "t \<noteq> 0" using vt_invD(2) [OF inv _ Some] by simp
  have leaf: "entry_at s t (table_index va 3) = vmm_leaf_entry pgd va s"
    using vmm_leaf_entry_walk [OF al(1) inv, of va] Some by simp
  show thesis
  proof (cases "bit (vmm_leaf_entry pgd va s) 0")
    case True
    with m al t leaf Some have s': "s' = set_entry t (table_index va 3) 0 s" and "r = OK"
      by (simp_all add: vmm_unmap_page_def leaf_table_walk desc_test)
    with True set_leaf [OF inv al(1) Some s'] show thesis by (intro ok) simp_all
  next
    case False
    with m al t leaf Some show thesis
      by (intro unmapped) (simp_all add: vmm_unmap_page_def leaf_table_walk desc_test)
  qed
qed

lemma translation_map_page:
  assumes inv: "vt_inv pgd s" and m: "vmm_map_page pgd va pa fl s = (s', r)"
  shows "vt_inv pgd s'"
    and "r = OK \<Longrightarrow> pgd \<noteq> 0 \<and> translation pgd s va = None \<and> translation pgd s' v =
          (if same_page v va then Some (page_descriptor pa fl) else translation pgd s v)"
    and "r \<noteq> OK \<Longrightarrow> r = ERR \<and> translation pgd s' v = translation pgd s v"
proof (atomize (full), cases "pgd = 0 \<or> va AND (PAGE_SIZE - 1) \<noteq> 0 \<or> pa AND (PAGE_SIZE - 1) \<noteq> 0")
  case True
  with m have "s' = s" "r = ERR" by (auto simp: vmm_map_page_def split: if_splits)
  with inv show "vt_inv pgd s' \<and> (r = OK \<longrightarrow> pgd \<noteq> 0 \<and> translation pgd s va = None \<and> translation pgd s' v =
          (if same_page v va then Some (page_descriptor pa fl) else translation pgd s v)) \<and>
      (r \<noteq> OK \<longrightarrow> r = ERR \<and> translation pgd s' v = translation pgd s v)"
    by simp
next
  case False
  then have al: "pgd \<noteq> 0" "va AND (PAGE_SIZE - 1) = 0" "pa AND (PAGE_SIZE - 1) = 0" by auto
  from inv m al show "vt_inv pgd s' \<and> (r = OK \<longrightarrow> pgd \<noteq> 0 \<and> translation pgd s va = None \<and> translation pgd s' v =
          (if same_page v va then Some (page_descriptor pa fl) else translation pgd s v)) \<and>
      (r \<noteq> OK \<longrightarrow> r = ERR \<and> translation pgd s' v = translation pgd s v)"
    by (cases rule: vmm_map_page_cases) (use al in \<open>simp_all add: translation_def Let_def\<close>)
qed

lemma same_page_sym: "same_page v v' \<Longrightarrow> same_page v' v"
  by (simp add: same_page_def)

lemma same_page_trans: "same_page u v \<Longrightarrow> same_page v w \<Longrightarrow> same_page u w"
  by (simp add: same_page_def)

lemma same_page_refl [simp]: "same_page v v"
  by (simp add: same_page_def)

lemma translation_same_page:
  assumes "same_page v v'"
  shows "translation pgd s v = translation pgd s v'"
proof -
  have "walk s pgd v 3 = walk s pgd v' 3" by (rule same_page_walk [OF assms]) simp
  moreover have "table_index v 3 = table_index v' 3" using assms by (simp add: same_page_def)
  ultimately show ?thesis
    by (cases "pgd = 0") (simp_all add: translation_def vmm_leaf_entry_def leaf_table_def [where pgd = 0] Let_def
        leaf_table_walk)
qed

lemma translation_unmap_page:
  assumes inv: "vt_inv pgd s" and al: "pgd \<noteq> 0" "va AND (PAGE_SIZE - 1) = 0"
    and m: "vmm_unmap_page pgd va s = (s', r)"
  shows "vt_inv pgd s'" "translation pgd s' v = (if same_page v va then None else translation pgd s v)"
    "r = (if translation pgd s va = None then ERR else OK)"
proof (atomize (full), use inv m al in \<open>cases rule: vmm_unmap_page_cases\<close>)
  case unmapped
  with inv translation_same_page [of v va pgd s]
  show "vt_inv pgd s' \<and> translation pgd s' v = (if same_page v va then None else translation pgd s v) \<and>
      r = (if translation pgd s va = None then ERR else OK)"
    by (simp add: translation_def Let_def)
next
  case ok
  then show "vt_inv pgd s' \<and> translation pgd s' v = (if same_page v va then None else translation pgd s v) \<and>
      r = (if translation pgd s va = None then ERR else OK)"
    by (simp add: translation_def Let_def)
qed

subsection \<open>Mapping a range\<close>

abbreviation nth_page :: "u64 \<Rightarrow> nat \<Rightarrow> u64" where
  "nth_page a n \<equiv> a + of_nat n * PAGE_SIZE"

lemma nth_page_aligned:
  assumes "va AND (PAGE_SIZE - 1) = 0"
  shows "nth_page va n AND (PAGE_SIZE - 1) = 0"
proof -
  have m: "x mod 18446744073709551616 mod 4096 = x mod 4096" for x :: nat
    by (rule mod_mod_cancel) simp
  have d: "a AND (PAGE_SIZE - 1) = 0 \<longleftrightarrow> unat a mod 4096 = 0" for a :: u64
    by (simp add: PAGE_SIZE_def page_aligned_iff)
  have "unat (of_nat n * PAGE_SIZE :: u64) mod 4096 = 0"
    by (simp add: PAGE_SIZE_def unat_word_ariths m)
  then have "(unat va + unat (of_nat n * PAGE_SIZE :: u64)) mod 4096 = 0"
    using assms unfolding d by auto
  then show ?thesis unfolding d by (simp add: unat_word_ariths(1) m)
qed

lemma fold_unmap:
  assumes "pgd \<noteq> 0" "va AND (PAGE_SIZE - 1) = 0" "vt_inv pgd s"
  defines "step \<equiv> \<lambda>k t. fst (vmm_unmap_page pgd (nth_page va k) t)"
  shows "vt_inv pgd (fold step ks s) \<and>
    translation pgd (fold step ks s) v =
      (if \<exists>k\<in>set ks. same_page v (nth_page va k) then None else translation pgd s v)"
  using assms(3)
proof (induction ks arbitrary: s)
  case (Cons k ks)
  obtain s' r where u: "vmm_unmap_page pgd (nth_page va k) s = (s', r)" by fastforce
  note t = translation_unmap_page [OF Cons.prems assms(1) nth_page_aligned [OF assms(2)] u]
  from Cons.IH [OF t(1)] t(2) [of v] u show ?case by (simp add: step_def)
qed simp

text \<open>\<open>pages_mapped\<close>: the first \<open>n\<close> pages of the range, free in \<open>s0\<close>, are mapped in \<open>s\<close>,
  and nothing else differs.\<close>

definition pages_mapped :: "u64 \<Rightarrow> u64 \<Rightarrow> u64 \<Rightarrow> u64 \<Rightarrow> nat \<Rightarrow> vm \<Rightarrow> vm \<Rightarrow> bool" where
  "pages_mapped pgd va pa fl n s0 s \<longleftrightarrow>
     (\<forall>k<n. translation pgd s0 (nth_page va k) = None \<and>
            translation pgd s (nth_page va k) = Some (page_descriptor (nth_page pa k) fl) \<and>
            (\<forall>j<k. \<not> same_page (nth_page va j) (nth_page va k))) \<and>
     (\<forall>v. (\<forall>k<n. \<not> same_page v (nth_page va k)) \<longrightarrow> translation pgd s v = translation pgd s0 v)"

lemma pages_mapped_Suc:
  assumes pm: "pages_mapped pgd va pa fl n s0 s"
    and none: "translation pgd s (nth_page va n) = None"
    and step: "\<And>v. translation pgd s' v = (if same_page v (nth_page va n)
        then Some (page_descriptor (nth_page pa n) fl) else translation pgd s v)"
  shows "pages_mapped pgd va pa fl (Suc n) s0 s'"
proof -
  have sep: "\<not> same_page (nth_page va k) (nth_page va n)" if "k < n" for k
    using pm that none translation_same_page [of "nth_page va k" "nth_page va n" pgd s]
    by (auto simp: pages_mapped_def)
  then have "translation pgd s0 (nth_page va n) = None"
    using pm none same_page_sym unfolding pages_mapped_def by metis
  with pm sep show ?thesis
    by (auto simp: pages_mapped_def less_Suc_eq step)
qed

lemma map_range_loop_correct:
  assumes pgd: "pgd \<noteq> 0" and al: "va AND (PAGE_SIZE - 1) = 0"
  shows "vt_inv pgd s \<Longrightarrow> pages_mapped pgd va pa fl n s0 s \<Longrightarrow>
    map_range_loop pgd va pa fl [n..<N] s = (s', r) \<Longrightarrow> n \<le> N \<Longrightarrow>
    vt_inv pgd s' \<and> (r = OK \<longrightarrow> pages_mapped pgd va pa fl N s0 s') \<and>
    (r \<noteq> OK \<longrightarrow> r = ERR \<and> translation pgd s' = translation pgd s0)"
proof (induction "N - n" arbitrary: n s)
  case 0
  then show ?case by simp
next
  case (Suc d)
  from Suc.hyps(2) have up: "[n..<N] = n # [Suc n..<N]" by (simp add: upt_conv_Cons)
  obtain s1 r1 where m: "vmm_map_page pgd (nth_page va n) (nth_page pa n) fl s = (s1, r1)" by fastforce
  note t = translation_map_page [OF Suc.prems(1) m]
  show ?case
  proof (cases "r1 = 0")
    case True
    then have ok: "r1 = OK" by simp
    have "pages_mapped pgd va pa fl (Suc n) s0 s1"
      by (rule pages_mapped_Suc [OF Suc.prems(2)]) (use t(2) [OF ok] in auto)
    with Suc.hyps(1) [of "Suc n" s1] Suc.hyps(2) Suc.prems True m t(1) show ?thesis
      by (simp add: up)
  next
    case False
    then have same: "translation pgd s1 v = translation pgd s v" for v using t(3) by simp
    let ?undo = "fold (\<lambda>k t. fst (vmm_unmap_page pgd (nth_page va k) t)) [0..<n] s1"
    from Suc.prems(3) m False have eq: "s' = ?undo" "r = ERR" by (simp_all add: up)
    note undo = fold_unmap [OF pgd al t(1), of "[0..<n]"]
    have "translation pgd s' v = translation pgd s0 v" for v
      using undo [of v] Suc.prems(2) translation_same_page [of v _ pgd s0]
      unfolding eq pages_mapped_def same by fastforce
    with undo eq show ?thesis by auto
  qed
qed

lemma unat_max_minus: "unat (- 1 - w :: u64) = 2 ^ 64 - 1 - unat w"
  using unat_u64_less [of w] by (subst unat_minus_no_underflow) (simp_all add: word_le_nat_alt)

lemma page_align_down_mask: "page_align_down v = v AND NOT (mask 12)"
  by (simp add: page_align_down_def PAGE_SIZE_def page_mask)

lemma page_align_down_unat: "unat (page_align_down v) = unat v div 4096 * 4096"
  by (simp add: page_align_down_def PAGE_SIZE_def unat_page_floor)

lemma page_align_down_aligned: "page_align_down v AND (PAGE_SIZE - 1) = 0"
  by (simp add: PAGE_SIZE_def page_aligned_iff page_align_down_unat)

lemma table_index_page: "level \<le> 3 \<Longrightarrow> table_index (page_align_down v) level = table_index v level"
  unfolding table_index_def page_align_down_mask
  by (intro arg_cong [where f = unat] bit_word_eqI) (auto simp: bit_simps dest: bit_imp_le_length)

lemma same_page_align: "same_page v (page_align_down v)"
  by (simp add: same_page_def table_index_page)

lemma page_span_unat:
  assumes "page_span off sz = Some e"
  shows "unat e = (unat off + unat sz + 4095) div 4096 * 4096" "unat off + unat sz < 2 ^ 64"
    "unat off < 4096" "sz \<noteq> 0"
proof -
  let ?n = "unat off + unat sz"
  from assms have b: "sz \<noteq> 0" "off < PAGE_SIZE" "sz \<le> - 1 - off"
    by (auto simp: page_span_def Let_def split: if_splits)
  from b(3) have "unat sz \<le> 2 ^ 64 - 1 - unat off"
    by (simp add: word_le_nat_alt unat_max_minus)
  then show n: "?n < 2 ^ 64" using unat_u64_less [of off] by simp
  show "unat off < 4096" "sz \<noteq> 0" using b by (simp_all add: PAGE_SIZE_def word_less_nat_alt)
  have u: "unat (off + sz) = ?n" using n by (simp add: unat_plus_no_overflow)
  have e: "e = page_align_up (off + sz)"
    and g: "(off + sz) AND 4095 = 0 \<or> off + sz \<le> - 4096"
    using assms by (auto simp: page_span_def Let_def PAGE_SIZE_def not_less split: if_splits)
  have "?n + 4095 < 2 ^ 64"
  proof (cases "(off + sz) AND 4095 = 0")
    case True
    then obtain q where "?n = 4096 * q" using u by (auto simp: page_aligned_iff)
    with n show ?thesis by simp
  next
    case False
    with g have "unat (off + sz) \<le> unat (- 4096 :: u64)" by (simp add: word_le_nat_alt)
    then show ?thesis using u by simp
  qed
  then have "unat (off + sz + 4095) = ?n + 4095" using u by (simp add: unat_plus_no_overflow)
  then show "unat e = (?n + 4095) div 4096 * 4096"
    by (simp add: e page_align_up_def PAGE_SIZE_def unat_page_floor add_diff_eq [symmetric])
qed

text \<open>The number of pages a call on \<open>[vaddr, vaddr + sz)\<close> touches.\<close>

definition span_pages :: "u64 \<Rightarrow> u64 \<Rightarrow> nat" where
  "span_pages vaddr sz =
     (if sz = 0 then 0 else (unat vaddr mod 4096 + unat sz + 4095) div 4096)"

lemma page_offset_unat: "unat (vaddr - page_align_down vaddr) = unat vaddr mod 4096"
  by (subst unat_minus_no_underflow)
     (simp_all add: word_le_nat_alt page_align_down_unat minus_div_mult_eq_mod)

lemma page_span_pages:
  "page_span (vaddr - page_align_down vaddr) sz = Some e \<Longrightarrow>
   unat (e div PAGE_SIZE) = span_pages vaddr sz \<and> unat e = 4096 * span_pages vaddr sz"
  using page_span_unat [of "vaddr - page_align_down vaddr" sz e]
  by (simp add: span_pages_def unat_div_distrib PAGE_SIZE_def page_offset_unat)

lemma span_pages_cover:
  assumes "unat vaddr \<le> unat v" "unat v < unat vaddr + unat sz"
  shows "\<exists>n < span_pages vaddr sz. page_align_down v = nth_page (page_align_down vaddr) n"
proof -
  let ?n = "unat v div 4096 - unat vaddr div 4096"
  have le: "unat vaddr div 4096 \<le> unat v div 4096" using assms(1) by (rule div_le_mono)
  have "unat v \<le> unat vaddr div 4096 * 4096 + (unat vaddr mod 4096 + unat sz - 1)"
    using assms(2) div_mult_mod_eq [of "unat vaddr" 4096] by linarith
  then have "unat v div 4096 \<le> (unat vaddr div 4096 * 4096 + (unat vaddr mod 4096 + unat sz - 1)) div 4096"
    by (rule div_le_mono)
  also have "\<dots> = unat vaddr div 4096 + (unat vaddr mod 4096 + unat sz - 1) div 4096"
    by simp
  finally have "?n \<le> (unat vaddr mod 4096 + unat sz - 1) div 4096" by linarith
  moreover have "(unat vaddr mod 4096 + unat sz + 4095) div 4096 =
      Suc ((unat vaddr mod 4096 + unat sz - 1) div 4096)"
  proof -
    have "unat vaddr mod 4096 + unat sz + 4095 = (unat vaddr mod 4096 + unat sz - 1) + 4096"
      using assms by simp
    then show ?thesis by simp
  qed
  moreover have "sz \<noteq> 0" using assms by auto
  ultimately have "?n < span_pages vaddr sz" by (simp add: span_pages_def)
  moreover have "page_align_down v = nth_page (page_align_down vaddr) ?n"
  proof (rule unsigned_word_eqI [where ?'a = nat])
    have m: "unat (of_nat ?n * PAGE_SIZE :: u64) = ?n * 4096"
    proof -
      have "?n * 4096 < 2 ^ 64"
        using unat_u64_less [of v] div_times_less_eq_dividend [of "unat v" 4096]
        by (simp add: diff_mult_distrib)
      then show ?thesis
        by (simp add: PAGE_SIZE_def unat_word_ariths unat_of_nat take_bit_nat_eq_self)
    qed
    have s: "unat vaddr div 4096 * 4096 + ?n * 4096 = unat v div 4096 * 4096"
      using le by (simp add: diff_mult_distrib)
    moreover have "unat v div 4096 * 4096 < 2 ^ LENGTH(64)"
      using unat_u64_less [of v] div_times_less_eq_dividend [of "unat v" 4096] by simp
    ultimately show "unat (page_align_down v) = unat (nth_page (page_align_down vaddr) ?n)"
      by (subst unat_plus_no_overflow) (simp_all only: m page_align_down_unat)
  qed
  ultimately show ?thesis by blast
qed


lemma vmm_map_range_cases:
  assumes inv: "vt_inv pgd s" and m: "vmm_map_range pgd vaddr paddr sz fl s = (s', r)"
  obtains (error) "r = ERR" "vt_inv pgd s'" "translation pgd s' = translation pgd s"
    | (ok) "r = OK" "vt_inv pgd s'" "pgd \<noteq> 0"
      "unat vaddr mod 4096 = unat paddr mod 4096"
      "sz \<noteq> 0 \<Longrightarrow> unat (page_align_down vaddr) + 4096 * span_pages vaddr sz < 2 ^ 64"
      "sz \<noteq> 0 \<Longrightarrow> unat (page_align_down paddr) + 4096 * span_pages vaddr sz < 2 ^ 64"
      "pages_mapped pgd (page_align_down vaddr) (page_align_down paddr) fl (span_pages vaddr sz) s s'"
proof (cases "pgd = 0 \<or> (vaddr XOR paddr) AND (PAGE_SIZE - 1) \<noteq> 0")
  case True
  with m inv show thesis by (intro error) (simp_all add: vmm_map_range_def split: if_splits)
next
  case False
  then have pgd: "pgd \<noteq> 0" and x: "(vaddr XOR paddr) AND (PAGE_SIZE - 1) = 0" by simp_all
  have off: "unat vaddr mod 4096 = unat paddr mod 4096"
  proof -
    have "\<not> bit ((vaddr XOR paddr) AND 4095) n" for n using x by (simp add: PAGE_SIZE_def)
    then have "vaddr AND 4095 = paddr AND 4095"
      by (intro bit_word_eqI) (simp only: bit_and_iff bit_xor_iff, blast)
    then show ?thesis by (metis unat_page_offset)
  qed
  show thesis
  proof (cases "sz = 0")
    case True
    with pgd x m inv off show thesis
      by (intro ok) (simp_all add: vmm_map_range_def span_pages_def pages_mapped_def)
  next
    case sz: False
    let ?va = "page_align_down vaddr" and ?pa = "page_align_down paddr"
    show thesis
    proof (cases "page_span (vaddr - ?va) sz")
      case None
      with pgd x sz m inv show thesis
        by (intro error) (simp_all add: vmm_map_range_def)
    next
      case (Some e)
      note e = page_span_pages [OF Some]
      show thesis
      proof (cases "?va > - 1 - e \<or> ?pa > - 1 - e")
        case True
        with pgd x sz m inv Some show thesis by (intro error) (simp_all add: vmm_map_range_def)
      next
        case False
        then have le: "unat ?va + unat e < 2 ^ 64" "unat ?pa + unat e < 2 ^ 64"
          using unat_u64_less [of e] by (auto simp: word_less_nat_alt unat_max_minus)
        from False pgd x sz m Some e
        have "map_range_loop pgd ?va ?pa fl [0..<span_pages vaddr sz] s = (s', r)"
          by (simp add: vmm_map_range_def)
        from map_range_loop_correct [OF pgd page_align_down_aligned inv _ this, where ?s0.0 = s]
        have "vt_inv pgd s' \<and> (r = OK \<longrightarrow> pages_mapped pgd ?va ?pa fl (span_pages vaddr sz) s s') \<and>
            (r \<noteq> OK \<longrightarrow> r = ERR \<and> translation pgd s' = translation pgd s)"
          by (simp add: pages_mapped_def)
        with pgd off le e show thesis by (cases "r = OK") (auto intro: ok error)
      qed
    qed
  qed
qed

subsection \<open>Descriptors and translated addresses\<close>

lemma bit_sh_inner: "bit DESC_SH_INNER n \<longleftrightarrow> n = 8 \<or> n = 9"
proof -
  have eq: "DESC_SH_INNER = push_bit 8 1 OR push_bit 9 1" by (simp add: DESC_SH_INNER_def)
  have "bit (push_bit 8 1 :: u64) n \<longleftrightarrow> n = 8" "bit (push_bit 9 1 :: u64) n \<longleftrightarrow> n = 9"
    by (rule bit_push_one, simp)+
  then show ?thesis unfolding eq bit_or_iff by blast
qed

lemma bit_attr_normal: "\<not> bit DESC_ATTR_NORMAL n"
  by (simp add: DESC_ATTR_NORMAL_def)

lemmas bit_desc_all = bit_desc bit_sh_inner bit_attr_normal bit_addr_mask

lemma page_descriptor_bits:
  "bit (page_descriptor pa fl) 1"
  "bit (page_descriptor pa fl) 7 \<longleftrightarrow> \<not> bit fl 1"
  "bit (page_descriptor pa fl) 6 \<longleftrightarrow> bit fl 4"
  "bit (page_descriptor pa fl) 54 \<longleftrightarrow> bit fl 3 \<or> \<not> bit fl 2 \<or> \<not> bit fl 4"
  "bit (page_descriptor pa fl) 53 \<longleftrightarrow> bit fl 3 \<or> \<not> bit fl 2 \<or> bit fl 4"
  by (auto simp: page_descriptor_def Let_def flag_test bit_or_iff bit_and_iff bit_desc_all)

lemma page_descriptor_bit:
  "bit (page_descriptor pa fl) n \<longleftrightarrow> n = 0 \<or> n = 1 \<or> n = 10 \<or> (12 \<le> n \<and> n < 48 \<and> bit pa n) \<or>
     (n = 2 \<and> bit fl 3) \<or> ((n = 8 \<or> n = 9) \<and> \<not> bit fl 3) \<or> (n = 7 \<and> \<not> bit fl 1) \<or> (n = 6 \<and> bit fl 4) \<or>
     (n = 53 \<and> (\<not> bit fl 2 \<or> bit fl 3 \<or> bit fl 4)) \<or> (n = 54 \<and> (\<not> bit fl 2 \<or> bit fl 3 \<or> \<not> bit fl 4))"
  by (auto simp: page_descriptor_def Let_def flag_test bit_or_iff bit_and_iff bit_desc_all)

lemma page_descriptor_addr: "page_descriptor pa fl AND DESC_ADDR_MASK = pa AND DESC_ADDR_MASK"
  by (rule bit_word_eqI)
     (auto simp: page_descriptor_def Let_def bit_or_iff bit_and_iff bit_desc_all)

lemma virt_to_phys_translation:
  assumes "translation pgd s v = Some (page_descriptor pa fl)"
    and "pa AND (PAGE_SIZE - 1) = 0" "unat pa < 2 ^ 48"
  shows "vmm_virt_to_phys pgd v s = pa + (v AND (PAGE_SIZE - 1))"
proof -
  have e: "vmm_leaf_entry pgd v s = page_descriptor pa fl"
    using assms(1) by (simp add: translation_def Let_def split: if_splits)
  have "unat pa mod 4096 = 0" using assms(2) by (simp add: PAGE_SIZE_def page_aligned_iff)
  with assms(3) have "pa AND DESC_ADDR_MASK = pa" by (rule addr_mask_id)
  moreover have "pa AND (v AND (PAGE_SIZE - 1)) = 0"
    using assms(2) by (metis and.left_commute and_zero_eq)
  then have "pa OR (v AND (PAGE_SIZE - 1)) = pa + (v AND (PAGE_SIZE - 1))"
    by (simp add: disjunctive_add_eq_or)
  ultimately show ?thesis
    by (simp add: vmm_virt_to_phys_def e desc_test page_descriptor_bits [simplified] page_descriptor_addr Let_def)
qed

lemma page_split: "page_align_down v + (v AND (PAGE_SIZE - 1)) = (v::u64)"
proof -
  have "page_align_down v AND (v AND (PAGE_SIZE - 1)) = 0"
    using page_align_down_aligned [of v] by (metis and.left_commute and_zero_eq)
  then have "page_align_down v + (v AND (PAGE_SIZE - 1)) = page_align_down v OR (v AND (PAGE_SIZE - 1))"
    by (simp add: disjunctive_add_eq_or)
  also have "\<dots> = v"
    unfolding page_align_down_def by (rule bit_word_eqI) (auto simp: bit_simps)
  finally show ?thesis .
qed

lemma pages_mapped_identity:
  assumes pm: "pages_mapped pgd (page_align_down a) (page_align_down a) fl (span_pages a sz) s s'"
    and v: "unat a \<le> unat v" "unat v < unat a + unat sz" "unat v < 2 ^ 48"
  shows "vmm_virt_to_phys pgd v s' = v"
proof -
  obtain n where n: "n < span_pages a sz" "page_align_down v = nth_page (page_align_down a) n"
    using span_pages_cover [OF v(1,2)] by blast
  have "translation pgd s' v = translation pgd s' (page_align_down v)"
    by (rule translation_same_page [OF same_page_align])
  also have "\<dots> = Some (page_descriptor (page_align_down v) fl)"
    using pm n by (simp add: pages_mapped_def)
  finally have "vmm_virt_to_phys pgd v s' = page_align_down v + (v AND (PAGE_SIZE - 1))"
    using v(3) page_align_down_aligned [of v]
    by (intro virt_to_phys_translation)
       (auto simp: page_align_down_unat intro: le_less_trans [OF div_times_less_eq_dividend])
  then show ?thesis by (simp add: page_split)
qed

text \<open>A successful call keeps every translation that was there.\<close>

lemma pages_mapped_keeps:
  assumes "pages_mapped pgd va pa fl n s s'" "translation pgd s v = Some e"
  shows "translation pgd s' v = Some e"
proof -
  have "\<not> same_page v (nth_page va k)" if "k < n" for k
    using assms that translation_same_page [of v "nth_page va k" pgd s] by (auto simp: pages_mapped_def)
  with assms show ?thesis by (simp add: pages_mapped_def)
qed

lemma virt_to_phys_keeps:
  assumes "translation pgd s' v = translation pgd s v \<or> translation pgd s v = None"
    "vmm_virt_to_phys pgd v s \<noteq> 0"
  shows "vmm_virt_to_phys pgd v s' = vmm_virt_to_phys pgd v s"
  using assms by (auto simp: vmm_virt_to_phys_def translation_def desc_test Let_def split: if_splits)

subsection \<open>The kernel identity map\<close>

definition identity_mapped :: "u64 \<Rightarrow> vm \<Rightarrow> u64 \<Rightarrow> u64 \<Rightarrow> bool" where
  "identity_mapped pgd s fl v \<longleftrightarrow> translation pgd s v = Some (page_descriptor (page_align_down v) fl)"

text \<open>No page is both writable and executable at EL1: it is read-only or has PXN set.\<close>

definition wx_safe :: "u64 \<Rightarrow> vm \<Rightarrow> bool" where
  "wx_safe pgd s \<longleftrightarrow>
     (\<forall>v e. translation pgd s v = Some e \<longrightarrow> e AND DESC_AP_RO \<noteq> 0 \<or> e AND DESC_PXN \<noteq> 0)"

definition map_extends :: "u64 \<Rightarrow> vm \<Rightarrow> vm \<Rightarrow> bool" where
  "map_extends pgd s s' \<longleftrightarrow> (\<forall>v e. translation pgd s v = Some e \<longrightarrow> translation pgd s' v = Some e)"

lemma map_extends_trans: "map_extends pgd s s' \<Longrightarrow> map_extends pgd s' s'' \<Longrightarrow> map_extends pgd s s''"
  by (simp add: map_extends_def)

lemma identity_extends: "map_extends pgd s s' \<Longrightarrow> identity_mapped pgd s fl v \<Longrightarrow> identity_mapped pgd s' fl v"
  by (simp add: map_extends_def identity_mapped_def)

lemma pages_mapped_wx:
  assumes pm: "pages_mapped pgd va pa fl n s s'" and wx: "wx_safe pgd s" and fl: "\<not> (bit fl 1 \<and> bit fl 2)"
  shows "wx_safe pgd s'"
  unfolding wx_safe_def desc_test
proof (intro allI impI)
  fix v e
  assume e: "translation pgd s' v = Some e"
  show "\<not> \<not> bit e 7 \<or> \<not> \<not> bit e 53"
  proof (cases "\<exists>k<n. same_page v (nth_page va k)")
    case True
    then obtain k where "k < n" "same_page v (nth_page va k)" by blast
    with e pm translation_same_page [of v "nth_page va k" pgd s']
    have "e = page_descriptor (nth_page pa k) fl" by (simp add: pages_mapped_def)
    with fl show ?thesis by (simp only: page_descriptor_bits) blast
  next
    case False
    with e pm have "translation pgd s v = Some e" by (simp add: pages_mapped_def)
    with wx show ?thesis unfolding wx_safe_def desc_test by simp
  qed
qed

lemma map_range_identity:
  assumes inv: "vt_inv pgd s" and wx: "wx_safe pgd s" and fl: "\<not> (bit fl 1 \<and> bit fl 2)"
    and m: "(if c then vmm_map_range pgd a a sz fl s else (s, OK)) = (s', r)" and r: "r = 0"
  shows "vt_inv pgd s'" "wx_safe pgd s'" "map_extends pgd s s'"
    "c \<Longrightarrow> unat a \<le> unat v \<Longrightarrow> unat v < unat a + unat sz \<Longrightarrow> identity_mapped pgd s' fl v"
proof -
  have "vt_inv pgd s' \<and> wx_safe pgd s' \<and> map_extends pgd s s' \<and>
    (c \<longrightarrow> unat a \<le> unat v \<longrightarrow> unat v < unat a + unat sz \<longrightarrow> identity_mapped pgd s' fl v)"
  proof (cases c)
    case True
    with m have "vmm_map_range pgd a a sz fl s = (s', r)" by simp
    with inv show ?thesis
    proof (cases rule: vmm_map_range_cases)
      case ok
      note pm = ok(7)
      have "identity_mapped pgd s' fl v" if rng: "unat a \<le> unat v" "unat v < unat a + unat sz"
      proof -
        obtain n where "n < span_pages a sz" "page_align_down v = nth_page (page_align_down a) n"
          using span_pages_cover [OF rng] by blast
        with pm translation_same_page [OF same_page_align [of v], of pgd s'] show ?thesis
          by (simp add: identity_mapped_def pages_mapped_def)
      qed
      with ok(2) pages_mapped_wx [OF pm wx fl] pages_mapped_keeps [OF pm] show ?thesis
        by (simp add: map_extends_def)
    qed (use r in simp)
  next
    case False
    with m inv wx show ?thesis
      by (simp add: map_extends_def)
  qed
  then show "vt_inv pgd s'" "wx_safe pgd s'" "map_extends pgd s s'"
    "c \<Longrightarrow> unat a \<le> unat v \<Longrightarrow> unat v < unat a + unat sz \<Longrightarrow> identity_mapped pgd s' fl v"
    by blast+
qed

lemma unat_range_end:
  assumes "unat a \<le> unat v" "v < (b::u64)"
  shows "unat v < unat a + unat (b - a)"
proof -
  have "a \<le> b" using assms by (simp add: word_le_nat_alt word_less_nat_alt)
  with assms show ?thesis by (simp add: unat_minus_no_underflow word_less_nat_alt word_le_nat_alt)
qed

lemma kernel_flags:
  "\<not> (bit (VMM_FLAG_READ OR VMM_FLAG_WRITE) 1 \<and> bit (VMM_FLAG_READ OR VMM_FLAG_WRITE) 2)"
  "\<not> (bit (VMM_FLAG_READ OR VMM_FLAG_EXEC) 1 \<and> bit (VMM_FLAG_READ OR VMM_FLAG_EXEC) 2)"
  "\<not> (bit VMM_FLAG_READ 1 \<and> bit VMM_FLAG_READ 2)"
  by (simp_all add: bit_or_iff bit_flag)

text \<open>The permissions the kernel image and the RAM around it are given.\<close>

definition kernel_flags_at :: "u64 \<Rightarrow> u64 \<Rightarrow> u64 \<Rightarrow> u64 \<Rightarrow> u64" where
  "kernel_flags_at kstart text_end rodata_end v =
     (if v < kstart then VMM_FLAG_READ OR VMM_FLAG_WRITE
      else if v < page_align_up text_end then VMM_FLAG_READ OR VMM_FLAG_EXEC
      else if v < page_align_up rodata_end then VMM_FLAG_READ
      else VMM_FLAG_READ OR VMM_FLAG_WRITE)"

lemma kernel_identity_stages:
  assumes inv: "vt_inv pgd s" and wx: "wx_safe pgd s"
    and m: "vmm_map_kernel_identity kstart text_end rodata_end data_end pgd base msize mmio s = (s', OK)"
  obtains s5 where "vt_inv pgd s5" "wx_safe pgd s5" "map_extends pgd s s5"
    "\<And>v. base \<le> v \<Longrightarrow> v < base + msize \<Longrightarrow>
       identity_mapped pgd s5 (kernel_flags_at kstart text_end rodata_end v) v"
    "case mmio of None \<Rightarrow> s' = s5 | Some f \<Rightarrow> f pgd s5 = (s', 0)"
proof -
  let ?T = "page_align_up text_end" and ?R = "page_align_up rodata_end" and ?D = "page_align_up data_end"
  let ?rw = "VMM_FLAG_READ OR VMM_FLAG_WRITE" and ?rx = "VMM_FLAG_READ OR VMM_FLAG_EXEC"
  obtain s1 r1 where 1: "(if base < kstart then vmm_map_range pgd base base (kstart - base) ?rw s
      else (s, OK)) = (s1, r1)" by fastforce
  obtain s2 r2 where 2: "(if True then vmm_map_range pgd kstart kstart (?T - kstart) ?rx s1
      else (s1, OK)) = (s2, r2)" by fastforce
  obtain s3 r3 where 3: "(if ?T < ?R then vmm_map_range pgd ?T ?T (?R - ?T) VMM_FLAG_READ s2
      else (s2, OK)) = (s3, r3)" by fastforce
  obtain s4 r4 where 4: "(if ?R < ?D then vmm_map_range pgd ?R ?R (?D - ?R) ?rw s3
      else (s3, OK)) = (s4, r4)" by fastforce
  obtain s5 r5 where 5: "(if ?D < base + msize then vmm_map_range pgd ?D ?D (base + msize - ?D) ?rw s4
      else (s4, OK)) = (s5, r5)" by fastforce
  note m' = m [unfolded vmm_map_kernel_identity_def Let_def 1 2 [simplified] 3 4 5 prod.case]
  from m' have r: "r1 = 0" "r2 = 0" "r3 = 0" "r4 = 0" "r5 = 0"
    by (simp_all split: if_splits)
  note st1 = map_range_identity [OF inv wx kernel_flags(1) 1 r(1)]
  note st2 = map_range_identity [OF st1(1,2) kernel_flags(2) 2 r(2), simplified]
  note st3 = map_range_identity [OF st2(1,2) kernel_flags(3) 3 r(3)]
  note st4 = map_range_identity [OF st3(1,2) kernel_flags(1) 4 r(4)]
  note st5 = map_range_identity [OF st4(1,2) kernel_flags(1) 5 r(5)]
  note ext = st1(3) st2(3) st3(3) st4(3) st5(3)
  have "identity_mapped pgd s5 (kernel_flags_at kstart text_end rodata_end v) v"
    if v: "base \<le> v" "v < base + msize" for v
  proof -
    have e5: "map_extends pgd s4 s5" and e4: "map_extends pgd s3 s5" and e3: "map_extends pgd s2 s5"
      and e2: "map_extends pgd s1 s5"
      using ext map_extends_trans by blast+
    have le: "x \<le> v \<Longrightarrow> unat x \<le> unat v" for x by (simp add: word_le_nat_alt)
    note rng = unat_range_end [OF le]
    consider "v < kstart" | "kstart \<le> v" "v < ?T" | "kstart \<le> v" "?T \<le> v" "v < ?R"
      | "kstart \<le> v" "?T \<le> v" "?R \<le> v" "v < ?D" | "kstart \<le> v" "?T \<le> v" "?R \<le> v" "?D \<le> v"
      using not_less by blast
    then show ?thesis
    proof cases
      case 1
      then show ?thesis using st1(4) [OF _ le rng] v identity_extends [OF e2]
        by (simp add: kernel_flags_at_def)
    next
      case 2
      then show ?thesis using st2(4) [OF le rng] identity_extends [OF e3]
        by (simp add: kernel_flags_at_def not_less [symmetric])
    next
      case 3
      then show ?thesis using st3(4) [OF _ le rng] identity_extends [OF e4]
        by (simp add: kernel_flags_at_def not_less [symmetric])
    next
      case 4
      then show ?thesis using st4(4) [OF _ le rng] identity_extends [OF e5]
        by (simp add: kernel_flags_at_def not_less [symmetric])
    next
      case 5
      then show ?thesis using st5(4) [OF _ le rng] v
        by (simp add: kernel_flags_at_def not_less [symmetric])
    qed
  qed
  moreover have "case mmio of None \<Rightarrow> s' = s5 | Some f \<Rightarrow> f pgd s5 = (s', 0)"
    using m' r by (auto split: if_splits option.splits prod.splits)
  ultimately show thesis
    using st5(1,2) ext map_extends_trans by (intro that) blast+
qed

subsection \<open>Freeing a hierarchy\<close>

text \<open>The tables \<open>d\<close> levels deep below a table, as a set; the last level has no children.\<close>

fun tables_of :: "vm \<Rightarrow> u64 \<Rightarrow> nat \<Rightarrow> u64 set" where
  "tables_of s t 0 = {t}"
| "tables_of s t (Suc d) = insert t
     (\<Union>i \<in> {i. i < 512 \<and> is_table_entry (entry_at s t i)}. tables_of s (entry_at s t i AND DESC_ADDR_MASK) d)"

lemma tables_of_root: "t \<in> tables_of s t d"
  by (cases d) simp_all

lemma tables_of_cong:
  assumes "vm_mem s = vm_mem s'"
  shows "tables_of s t d = tables_of s' t d"
  by (induction d arbitrary: t) (simp_all add: entry_at_def assms)

text \<open>Releasing pages leaves the tables readable, and gives back exactly the pages released.\<close>

definition released :: "u64 set \<Rightarrow> vm \<Rightarrow> vm \<Rightarrow> bool" where
  "released A s s' \<longleftrightarrow> vm_mem s' = vm_mem s \<and> pmm_inv (vm_pmm s') \<and>
     managed_addrs (vm_pmm s') = managed_addrs (vm_pmm s) \<and>
     free_addrs (vm_pmm s') = free_addrs (vm_pmm s) \<union> A"

lemma released_trans: "released A s s' \<Longrightarrow> released B s' s'' \<Longrightarrow> released (A \<union> B) s s''"
  by (auto simp: released_def)

lemma released_page:
  assumes "pmm_inv (vm_pmm s)" "t \<in> managed_addrs (vm_pmm s)" "t \<noteq> 0"
  shows "released {t} s (s\<lparr>vm_pmm := pmm_free_page t (vm_pmm s)\<rparr>)"
  using pp.release_gives [OF assms] pp.release_managed [of t "vm_pmm s"]
  by (simp add: released_def)

lemma released_fold:
  assumes step: "\<And>x s1. x \<in> set xs \<Longrightarrow> vm_mem s1 = vm_mem s \<Longrightarrow> pmm_inv (vm_pmm s1) \<Longrightarrow>
      managed_addrs (vm_pmm s1) = managed_addrs (vm_pmm s) \<Longrightarrow> released (F x) s1 (f x s1)"
    and inv: "pmm_inv (vm_pmm s)"
  shows "released (\<Union>x\<in>set xs. F x) s (fold f xs s)"
proof -
  have "set ys \<subseteq> set xs \<Longrightarrow> vm_mem s1 = vm_mem s \<Longrightarrow> pmm_inv (vm_pmm s1) \<Longrightarrow>
      managed_addrs (vm_pmm s1) = managed_addrs (vm_pmm s) \<Longrightarrow>
      released (\<Union>x\<in>set ys. F x) s1 (fold f ys s1)" for ys s1
  proof (induction ys arbitrary: s1)
    case (Cons y ys)
    have y: "released (F y) s1 (f y s1)" using step Cons.prems by simp
    with Cons.prems have "released (\<Union>x\<in>set ys. F x) (f y s1) (fold f ys (f y s1))"
      by (intro Cons.IH) (simp_all add: released_def)
    with y show ?case using released_trans by simp
  qed (simp add: released_def)
  from this [of xs s] inv show ?thesis by simp
qed

lemma free_table_level_released:
  "pmm_inv (vm_pmm s) \<Longrightarrow> level \<le> 3 \<Longrightarrow> tables_of s t (3 - level) \<subseteq> managed_addrs (vm_pmm s) - {0} \<Longrightarrow>
   released (tables_of s t (3 - level)) s (free_table_level t level s)"
proof (induction "3 - level" arbitrary: level t s)
  case 0
  then have l: "level = 3" by simp
  with 0 have "t \<in> managed_addrs (vm_pmm s)" "t \<noteq> 0" by simp_all
  with 0 l show ?case by (simp add: free_table_level.simps [of t] released_page)
next
  case (Suc d)
  then have l: "level < 3" "3 - level = Suc d" "3 - Suc level = d" by simp_all
  have root: "t \<in> managed_addrs (vm_pmm s)" "t \<noteq> 0"
    using Suc.prems(3) tables_of_root [of t s "3 - level"] by auto
  define f where "f = (\<lambda>i s. let entry = entry_at s t i in
     if entry AND DESC_VALID \<noteq> 0 \<and> entry AND DESC_TABLE \<noteq> 0
     then free_table_level (entry AND DESC_ADDR_MASK) (level + 1) s else s)"
  define F where "F = (\<lambda>i. if is_table_entry (entry_at s t i)
     then tables_of s (entry_at s t i AND DESC_ADDR_MASK) d else {})"
  have tab: "tables_of s t (3 - level) = insert t (\<Union>i\<in>set [0..<512]. F i)"
    unfolding l F_def by auto
  have "released (\<Union>i\<in>set [0..<512]. F i) s (fold f [0..<512] s)"
  proof (rule released_fold)
    fix i and s1 :: vm
    assume i: "i \<in> set [0..<512]" "vm_mem s1 = vm_mem s" "pmm_inv (vm_pmm s1)"
      "managed_addrs (vm_pmm s1) = managed_addrs (vm_pmm s)"
    have e: "entry_at s1 t i = entry_at s t i" by (simp add: entry_at_def i)
    have "released (tables_of s1 (entry_at s t i AND DESC_ADDR_MASK) (3 - Suc level)) s1
        (free_table_level (entry_at s t i AND DESC_ADDR_MASK) (Suc level) s1)"
      if c: "is_table_entry (entry_at s t i)"
    proof (rule Suc.hyps(1))
      show "d = 3 - Suc level" "Suc level \<le> 3" using l by simp_all
      have "F i \<subseteq> managed_addrs (vm_pmm s) - {0}"
        using Suc.prems(3) i(1) unfolding tab by blast
      with c i l show "tables_of s1 (entry_at s t i AND DESC_ADDR_MASK) (3 - Suc level)
          \<subseteq> managed_addrs (vm_pmm s1) - {0}"
        using tables_of_cong [OF i(2)] by (simp add: F_def)
    qed (rule i(3))
    with e l tables_of_cong [OF i(2)] i show "released (F i) s1 (f i s1)"
      by (auto simp: f_def F_def Let_def released_def)
  qed (use Suc.prems in simp_all)
  note sub = this
  have eq: "free_table_level t level s =
      (fold f [0..<512] s)\<lparr>vm_pmm := pmm_free_page t (vm_pmm (fold f [0..<512] s))\<rparr>"
    using root l unfolding f_def by (subst free_table_level.simps) (simp add: TABLE_ENTRIES_def Let_def)
  have "released {t} (fold f [0..<512] s) (free_table_level t level s)"
    unfolding eq using sub root by (intro released_page) (simp_all add: released_def)
  from released_trans [OF sub this] show ?case unfolding tab by simp
qed


text \<open>An address with given table indices, and the tables of the hierarchy as a set.\<close>

definition addr_of :: "(nat \<Rightarrow> nat) \<Rightarrow> u64" where
  "addr_of f = of_nat ((f 0 * 2 ^ 27 + f 1 * 2 ^ 18 + f 2 * 2 ^ 9 + f 3) * 4096)"

lemma table_index_unat: "table_index v l = unat v div 2 ^ (39 - l * 9) mod 512"
proof -
  have "TABLE_INDEX_MASK = mask 9" by (simp add: TABLE_INDEX_MASK_def mask_eq_exp_minus_1)
  then have "table_index v l = unat (take_bit 9 (drop_bit (39 - l * 9) v))"
    by (simp only: table_index_def take_bit_eq_mask)
  with unat_u64_less [of v] show ?thesis
    by (simp only: unsigned_take_bit_eq unsigned_drop_bit_eq) (simp add: take_bit_eq_mod drop_bit_eq_div)
qed

lemma table_index_addr_of:
  assumes "\<And>j. f j < 512" "l \<le> 3"
  shows "table_index (addr_of f) l = f l"
proof -
  define x where "x = f 0 * 2 ^ 27 + f 1 * 2 ^ 18 + f 2 * 2 ^ 9 + f 3"
  note b = assms(1) [of 0] assms(1) [of 1] assms(1) [of 2] assms(1) [of 3]
  have "x * 4096 < 2 ^ 64" using b by (simp add: x_def)
  then have u: "unat (addr_of f) = x * 4096"
    unfolding addr_of_def x_def [symmetric] by (intro unat_of_nat_less) simp
  have d: "x div 2 ^ 9 = f 0 * 2 ^ 18 + f 1 * 2 ^ 9 + f 2" "x div 2 ^ 18 = f 0 * 2 ^ 9 + f 1"
    "x div 2 ^ 27 = f 0"
    using b by (simp_all add: x_def)
  have "table_index (addr_of f) l = x div 2 ^ (27 - l * 9) mod 512"
  proof -
    have "39 - l * 9 = 12 + (27 - l * 9)" using assms(2) by simp
    then have "(2::nat) ^ (39 - l * 9) = 4096 * 2 ^ (27 - l * 9)" by (simp only: power_add) simp
    then show ?thesis by (simp add: table_index_unat u div_mult2_eq)
  qed
  moreover have "(f 0 * 2 ^ 18 + f 1 * 2 ^ 9 + f 2) mod 512 = f 2" "x mod 512 = f 3"
  proof -
    have "f 0 * 2 ^ 18 + f 1 * 2 ^ 9 + f 2 = f 2 + 512 * (f 0 * 512 + f 1)"
      "x = f 3 + 512 * (f 0 * 2 ^ 18 + f 1 * 2 ^ 9 + f 2)" by (simp_all add: x_def)
    with b show "(f 0 * 2 ^ 18 + f 1 * 2 ^ 9 + f 2) mod 512 = f 2" "x mod 512 = f 3"
      by (simp_all only: mod_mult_self2 mod_less)
  qed
  moreover have "l = 0 \<or> l = 1 \<or> l = 2 \<or> l = 3" using assms(2) by auto
  ultimately show ?thesis using b d by auto
qed


lemma walk_tables_of:
  "walk s pgd v k = Some t \<Longrightarrow> k \<le> m \<Longrightarrow> tables_of s t (m - k) \<subseteq> tables_of s pgd m"
proof (induction k arbitrary: t)
  case (Suc k)
  then obtain t0 where t0: "walk s pgd v k = Some t0" "is_table_entry (entry_at s t0 (table_index v k))"
    "t = entry_at s t0 (table_index v k) AND DESC_ADDR_MASK"
    by (auto simp: Let_def split: option.splits if_splits)
  from Suc.prems(2) have "m - k = Suc (m - Suc k)" by simp
  with t0 have "tables_of s t (m - Suc k) \<subseteq> tables_of s t0 (m - k)"
    using table_index_less [of v k] by (simp only: tables_of.simps) blast
  with Suc.IH [OF t0(1)] Suc.prems(2) show ?case by simp
qed simp

lemma tables_of_walk:
  "x \<in> tables_of s t d \<Longrightarrow> walk s pgd v k = Some t \<Longrightarrow> k + d = 3 \<Longrightarrow>
   \<exists>v' m. m \<le> 3 \<and> walk s pgd v' m = Some x"
proof (induction d arbitrary: t v k)
  case 0
  then show ?case by auto
next
  case (Suc d)
  show ?case
  proof (cases "x = t")
    case True
    with Suc.prems show ?thesis by (intro exI [of _ v] exI [of _ k]) simp
  next
    case False
    with Suc.prems(1) obtain i where i: "i < 512" "is_table_entry (entry_at s t i)"
      "x \<in> tables_of s (entry_at s t i AND DESC_ADDR_MASK) d"
      by auto
    define v' where "v' = addr_of (\<lambda>j. if j = k then i else table_index v j)"
    have idx: "table_index v' j = (if j = k then i else table_index v j)" if "j \<le> 3" for j
      unfolding v'_def using i(1) that by (subst table_index_addr_of) auto
    have "walk s pgd v' k = Some t"
      using walk_cong [of k v' v s pgd] idx Suc.prems by auto
    with i(2) idx [of k] Suc.prems(3) have "walk s pgd v' (Suc k) = Some (entry_at s t i AND DESC_ADDR_MASK)"
      by simp
    from Suc.IH [OF i(3) this] Suc.prems(3) show ?thesis by simp
  qed
qed

lemma tables_of_hierarchy: "tables_of s pgd 3 = {t. \<exists>v k. k \<le> 3 \<and> walk s pgd v k = Some t}"
proof (intro equalityI subsetI)
  fix t
  assume "t \<in> tables_of s pgd 3"
  from tables_of_walk [OF this, of pgd 0 0] show "t \<in> {t. \<exists>v k. k \<le> 3 \<and> walk s pgd v k = Some t}"
    by simp
next
  fix t
  assume "t \<in> {t. \<exists>v k. k \<le> 3 \<and> walk s pgd v k = Some t}"
  then obtain v k where "k \<le> 3" "walk s pgd v k = Some t" by blast
  with walk_tables_of [of s pgd v k t 3] tables_of_root [of t s "3 - k"]
  show "t \<in> tables_of s pgd 3" by blast
qed

subsection \<open>Unmapping a range\<close>

lemma unmap_range_loop_correct:
  assumes pgd: "pgd \<noteq> 0" and al: "va AND (PAGE_SIZE - 1) = 0"
  shows "vt_inv pgd s \<Longrightarrow> (\<forall>k\<in>set ks. translation pgd s (nth_page va k) \<noteq> None) \<Longrightarrow>
    sorted_wrt (\<lambda>j k. \<not> same_page (nth_page va j) (nth_page va k)) ks \<Longrightarrow>
    \<exists>s'. unmap_range_loop pgd va ks s = (s', OK) \<and> vt_inv pgd s' \<and>
      (\<forall>v. translation pgd s' v =
        (if \<exists>k\<in>set ks. same_page v (nth_page va k) then None else translation pgd s v))"
proof (induction ks arbitrary: s)
  case (Cons k ks)
  obtain s1 r where u: "vmm_unmap_page pgd (nth_page va k) s = (s1, r)" by fastforce
  note t = translation_unmap_page [OF Cons.prems(1) pgd nth_page_aligned [OF al] u]
  have "r = OK" using t(3) Cons.prems(2) by simp
  moreover have "\<forall>j\<in>set ks. translation pgd s1 (nth_page va j) \<noteq> None"
    using Cons.prems(2,3) t(2) same_page_sym by auto
  with Cons.IH [OF t(1)] Cons.prems(3) obtain s' where
    "unmap_range_loop pgd va ks s1 = (s', OK)" "vt_inv pgd s'"
    "\<forall>v. translation pgd s' v =
        (if \<exists>k\<in>set ks. same_page v (nth_page va k) then None else translation pgd s1 v)"
    by auto
  ultimately show ?case using u t(2) by auto
qed simp

lemma unmap_pages_mapped:
  assumes pgd: "pgd \<noteq> 0" and al: "va AND (PAGE_SIZE - 1) = 0" and inv: "vt_inv pgd s'"
    and pm: "pages_mapped pgd va pa fl n s s'"
  shows "\<exists>s''. unmap_range_loop pgd va [0..<n] s' = (s'', OK) \<and> vt_inv pgd s'' \<and>
    translation pgd s'' = translation pgd s"
proof -
  have "sorted_wrt (\<lambda>j k. \<not> same_page (nth_page va j) (nth_page va k)) [0..<n]"
    using pm by (auto simp: sorted_wrt_iff_nth_less pages_mapped_def)
  with unmap_range_loop_correct [OF pgd al inv, of "[0..<n]"] pm obtain s'' where
    s'': "unmap_range_loop pgd va [0..<n] s' = (s'', OK)" "vt_inv pgd s''"
      "\<And>v. translation pgd s'' v =
        (if \<exists>k\<in>set [0..<n]. same_page v (nth_page va k) then None else translation pgd s' v)"
    by (auto simp: pages_mapped_def)
  have "translation pgd s'' v = translation pgd s v" for v
    using s''(3) [of v] pm translation_same_page [of v _ pgd s] by (auto simp: pages_mapped_def)
  with s'' show ?thesis by blast
qed

subsection \<open>A new hierarchy\<close>

lemma vmm_new_table_inv:
  assumes inv: "pmm_inv (vm_pmm s)" and lim: "\<And>a. a \<in> managed_addrs (vm_pmm s) \<Longrightarrow> unat a < 2 ^ 48"
    and new: "vmm_new_table s = (s', pgd)" and pgd: "pgd \<noteq> 0"
  shows "vt_inv pgd s'" "translation pgd s' v = None"
    "free_addrs (vm_pmm s') = free_addrs (vm_pmm s) - {pgd}" "pgd \<in> free_addrs (vm_pmm s)"
proof -
  obtain p a where a: "pmm_alloc_page (vm_pmm s) = (p, a)" by fastforce
  with new pgd have eq: "a = pgd" "s' = zero_table pgd (s\<lparr>vm_pmm := p\<rparr>)"
    by (auto simp: vmm_new_table_def Let_def split: if_splits)
  note al = pp.alloc_succeeds [OF inv a [unfolded eq] pgd]
  have mod: "unat pgd mod 4096 = 0" by (rule managed_aligned [OF inv al(5)])
  have e: "entry_at s' pgd (table_index v k) = 0" for v k
    using entry_at_zero_table [OF mod mod] by (simp add: eq)
  have w: "walk s' pgd v (Suc k) = None" for v k
    by (induction k) (simp_all add: e)
  then have w0: "walk s' pgd v k = Some t \<Longrightarrow> k = 0 \<and> t = pgd" for v k t by (cases k) simp_all
  show "vt_inv pgd s'"
  proof (rule vt_invI)
    show "t \<noteq> 0 \<and> t \<in> managed_addrs (vm_pmm s') \<and> t \<notin> free_addrs (vm_pmm s')"
      if "walk s' pgd v k = Some t" for v k t
      using w0 [OF that] al pgd by (simp add: eq)
    show "bit (entry_at s' t (table_index v k)) 1"
      if "walk s' pgd v k = Some t" "bit (entry_at s' t (table_index v k)) 0" for v k t
      using that w0 [OF that(1)] e by simp
    show "k = k' \<and> (\<forall>j<k. table_index v j = table_index v' j)"
      if "walk s' pgd v k = Some t" "walk s' pgd v' k' = Some t" for v v' k k' t
      using w0 [OF that(1)] w0 [OF that(2)] by simp
  qed (use al lim in \<open>auto simp: eq\<close>)
  show "translation pgd s' v = None"
    using w [of v 2] pgd by (simp add: translation_def vmm_leaf_entry_def leaf_table_walk numeral_3_eq_3)
  show "free_addrs (vm_pmm s') = free_addrs (vm_pmm s) - {pgd}" "pgd \<in> free_addrs (vm_pmm s)"
    using al by (simp_all add: eq)
qed


subsection \<open>Properties\<close>

definition example_vm :: "vm \<times> u64" where
  "example_vm = vmm_new_table \<lparr>vm_pmm = pmm_init 0x40000000 0x8000, vm_mem = (\<lambda>_. 0)\<rparr>"

lemma example_vm:
  "vt_inv (snd example_vm) (fst example_vm)" "snd example_vm \<noteq> 0"
  "translation (snd example_vm) (fst example_vm) v = None"
  "card (free_addrs (vm_pmm (fst example_vm))) = 7"
proof -
  let ?p = "pmm_init 0x40000000 0x8000" and ?s0 = "\<lparr>vm_pmm = pmm_init 0x40000000 0x8000, vm_mem = (\<lambda>_. 0)\<rparr>"
  obtain s pgd where ex: "vmm_new_table ?s0 = (s, pgd)" by fastforce
  then have fs: "fst example_vm = s" "snd example_vm = pgd" by (simp_all add: example_vm_def)
  have inv: "pmm_inv (vm_pmm ?s0)" by (simp add: pmm_init_inv PAGE_SIZE_def)
  have free: "free_pages ?p = {0..<8}" by (simp add: pmm_init_free PMM_MAX_PAGES_def)
  have "unat (page_addr ?p i) < 2 ^ 48" if "i < 8" for i
    using that pmm_invD(2) [OF inv] by (simp add: unat_page_addr pmm_init_base pmm_init_total PMM_MAX_PAGES_def)
  then have lim: "unat a < 2 ^ 48" if "a \<in> managed_addrs (vm_pmm ?s0)" for a
    using that by (auto simp: managed_addrs_def pmm_init_total PMM_MAX_PAGES_def)
  have card: "card (free_addrs ?p) = 8"
    using card_free_addrs inv pmm_init_wf [of "0x40000000" "0x8000"]
    by (simp add: pmm_wf_def pmm_free_count_def free)
  then have "snd (pmm_alloc_page ?p) \<noteq> 0" using pp.alloc_zero_iff inv by fastforce
  with ex have pgd: "pgd \<noteq> 0" by (auto simp: vmm_new_table_def Let_def split: prod.splits)
  note new = vmm_new_table_inv [OF inv lim ex pgd]
  show "vt_inv (snd example_vm) (fst example_vm)" "snd example_vm \<noteq> 0"
    "translation (snd example_vm) (fst example_vm) v = None"
    "card (free_addrs (vm_pmm (fst example_vm))) = 7"
    using new pgd card by (simp_all add: fs card_Diff_singleton_if)
qed

text \<open>Mapping pages that are all unmapped succeeds while three free pages per page remain.\<close>

lemma map_range_loop_succeeds:
  assumes pgd: "pgd \<noteq> 0" and al: "va AND (PAGE_SIZE - 1) = 0" "pa AND (PAGE_SIZE - 1) = 0"
  shows "vt_inv pgd s \<Longrightarrow> \<forall>k\<in>set ks. translation pgd s (nth_page va k) = None \<Longrightarrow>
    sorted_wrt (\<lambda>j k. \<not> same_page (nth_page va j) (nth_page va k)) ks \<Longrightarrow>
    3 * length ks \<le> card (free_addrs (vm_pmm s)) \<Longrightarrow>
    snd (map_range_loop pgd va pa fl ks s) = OK"
proof (induction ks arbitrary: s)
  case (Cons k ks)
  obtain s1 r where m: "vmm_map_page pgd (nth_page va k) (nth_page pa k) fl s = (s1, r)" by fastforce
  note t = translation_map_page [OF Cons.prems(1) m]
  have "r = OK \<and> card (free_addrs (vm_pmm s)) \<le> card (free_addrs (vm_pmm s1)) + 3"
    using Cons.prems(1) m pgd nth_page_aligned [OF al(1)] nth_page_aligned [OF al(2)]
    by (cases rule: vmm_map_page_cases)
       (use Cons.prems in \<open>auto simp: translation_def Let_def split: if_splits\<close>)
  moreover from this have "\<forall>j\<in>set ks. translation pgd s1 (nth_page va j) = None"
    using Cons.prems(2,3) t(2) same_page_sym by auto
  ultimately have "snd (map_range_loop pgd va pa fl ks s1) = OK"
    using Cons.prems(3,4) t(1) by (intro Cons.IH) auto
  with m \<open>r = OK \<and> _\<close> show ?case by simp
qed simp

text \<open>Pages less than \<open>2 ^ 36\<close> apart do not share a leaf.\<close>

lemma page_number_digits:
  "unat v div 4096 mod 2 ^ 36 = ((table_index v 0 * 512 + table_index v 1) * 512 +
     table_index v 2) * 512 + table_index v 3"
proof -
  define x where "x = unat v div 4096"
  have d: "unat v div 2 ^ (39 - l * 9) = x div 2 ^ (27 - l * 9)" if "l \<le> 3" for l
  proof -
    have "39 - l * 9 = 12 + (27 - l * 9)" using that by simp
    then have "(2::nat) ^ (39 - l * 9) = 4096 * 2 ^ (27 - l * 9)" by (simp only: power_add) simp
    then show ?thesis by (simp add: x_def div_mult2_eq)
  qed
  have "x mod (512 * (512 * (512 * 512))) = ((x div 2 ^ 27 mod 512 * 512 + x div 2 ^ 18 mod 512) * 512 +
     x div 2 ^ 9 mod 512) * 512 + x mod 512"
    by (simp only: mod_mult2_eq div_mult2_eq [symmetric]) simp
  then show ?thesis using d [of 0] d [of 1] d [of 2] d [of 3] by (simp add: table_index_unat x_def)
qed

lemma nth_page_distinct:
  assumes "unat va + n * 4096 < 2 ^ 64" "j < k" "k < n" "n \<le> 2 ^ 36"
  shows "\<not> same_page (nth_page va j) (nth_page va k)"
proof
  assume "same_page (nth_page va j) (nth_page va k)"
  then have "unat (nth_page va j) div 4096 mod 2 ^ 36 = unat (nth_page va k) div 4096 mod 2 ^ 36"
    unfolding page_number_digits by (simp add: same_page_def)
  moreover have u: "unat (nth_page va i) div 4096 = unat va div 4096 + i" if "i < n" for i
  proof -
    have lt: "unat va + i * 4096 < 2 ^ 64" using assms(1) that by simp
    then have "unat (of_nat i * PAGE_SIZE :: u64) = i * 4096"
      by (simp add: PAGE_SIZE_def unat_word_ariths unat_of_nat take_bit_nat_eq_self)
    with lt show ?thesis by (subst unat_plus_no_overflow) simp_all
  qed
  ultimately have "(unat va div 4096 + j) mod 2 ^ 36 = (unat va div 4096 + k) mod 2 ^ 36"
    using assms by simp
  then have "2 ^ 36 dvd (unat va div 4096 + k) - (unat va div 4096 + j)"
    using assms(2) by (subst mod_eq_dvd_iff_nat [symmetric]) simp_all
  then have "2 ^ 36 dvd k - j" by simp
  with assms show False by (auto dest: dvd_imp_le)
qed



lemma page_span_defined:
  assumes "sz \<noteq> 0" "4096 * span_pages vaddr sz < 2 ^ 64"
  shows "\<exists>e. page_span (vaddr - page_align_down vaddr) sz = Some e"
proof -
  let ?off = "vaddr - page_align_down vaddr" and ?n = "unat vaddr mod 4096 + unat sz"
  have off: "unat ?off = unat vaddr mod 4096" by (rule page_offset_unat)
  have "?n \<le> 4096 * span_pages vaddr sz"
  proof -
    have "?n + 4095 < 4096 * ((?n + 4095) div 4096) + 4096"
      using div_mult_mod_eq [of "?n + 4095" 4096] mod_less_divisor [of 4096 "?n + 4095"] by linarith
    then show ?thesis using assms(1) by (simp add: span_pages_def)
  qed
  moreover have "4096 * span_pages vaddr sz \<le> 2 ^ 64 - 4096" using assms(2) by simp
  ultimately have n: "?n \<le> 2 ^ 64 - 4096" by simp
  then have "unat (?off + sz) = ?n" using off by (subst unat_plus_no_overflow) simp_all
  with n have "?off + sz \<le> - 4096" by (simp add: word_le_nat_alt)
  moreover have "sz \<le> - 1 - ?off" using n off by (simp add: word_le_nat_alt unat_max_minus)
  moreover have "?off < PAGE_SIZE" by (simp add: word_less_nat_alt off PAGE_SIZE_def)
  ultimately show ?thesis
    using assms(1) by (simp add: page_span_def Let_def PAGE_SIZE_def not_le not_less)
qed

lemma vmm_map_range_succeeds:
  assumes inv: "vt_inv pgd s" and pgd: "pgd \<noteq> 0"
    and off: "(vaddr XOR paddr) AND (PAGE_SIZE - 1) = 0"
    and fit: "unat (page_align_down vaddr) + 4096 * span_pages vaddr sz < 2 ^ 64"
      "unat (page_align_down paddr) + 4096 * span_pages vaddr sz < 2 ^ 64" "span_pages vaddr sz \<le> 2 ^ 36"
    and free: "\<And>k. k < span_pages vaddr sz \<Longrightarrow> translation pgd s (nth_page (page_align_down vaddr) k) = None"
      "3 * span_pages vaddr sz \<le> card (free_addrs (vm_pmm s))"
  shows "snd (vmm_map_range pgd vaddr paddr sz fl s) = OK"
proof (cases "sz = 0")
  case True
  with pgd off show ?thesis by (simp add: vmm_map_range_def)
next
  case False
  let ?va = "page_align_down vaddr" and ?pa = "page_align_down paddr" and ?n = "span_pages vaddr sz"
  obtain e where e: "page_span (vaddr - ?va) sz = Some e"
    using page_span_defined [OF False, of vaddr] fit(1) by (meson add_lessD1 add.commute le_less_trans le_add2)
  note n = page_span_pages [OF e]
  with fit have "\<not> (?va > - 1 - e \<or> ?pa > - 1 - e)"
    by (auto simp: word_less_nat_alt unat_max_minus)
  with pgd off False e n
  have "vmm_map_range pgd vaddr paddr sz fl s = map_range_loop pgd ?va ?pa fl [0..<?n] s"
    by (simp add: vmm_map_range_def)
  moreover have "sorted_wrt (\<lambda>j k. \<not> same_page (nth_page ?va j) (nth_page ?va k)) [0..<?n]"
    using nth_page_distinct [of ?va ?n] fit by (simp add: sorted_wrt_iff_nth_less mult.commute)
  ultimately show ?thesis
    using map_range_loop_succeeds [OF pgd page_align_down_aligned page_align_down_aligned inv] free by simp
qed

text \<open>
  C6: on a well-formed page-table hierarchy \<open>vmm_map_page\<close> either succeeds, and then the
  page was unmapped before, now has the requested descriptor, and no other page changes;
  or fails, and then no page changes its mapping.  It succeeds whenever the arguments are
  aligned, the page is unmapped and three pages are free for intermediate tables.  The
  hierarchy stays well formed in every case.
\<close>

theorem vmm_map_page_correct:
  assumes "vt_inv pgd s"
  shows "case vmm_map_page pgd va pa fl s of (s', r) \<Rightarrow>
     vt_inv pgd s' \<and>
     (if r = OK
      then translation pgd s va = None \<and>
           (\<forall>v. translation pgd s' v =
              (if same_page v va then Some (page_descriptor pa fl) else translation pgd s v))
      else r = ERR \<and> translation pgd s' = translation pgd s) \<and>
     (pgd \<noteq> 0 \<and> va AND (PAGE_SIZE - 1) = 0 \<and> pa AND (PAGE_SIZE - 1) = 0 \<and>
      translation pgd s va = None \<and> 3 \<le> card (free_addrs (vm_pmm s)) \<longrightarrow> r = OK)"
proof -
  obtain s' r where m: "vmm_map_page pgd va pa fl s = (s', r)" by fastforce
  note t = translation_map_page [OF assms m]
  have "r = OK" if al: "pgd \<noteq> 0" "va AND (PAGE_SIZE - 1) = 0" "pa AND (PAGE_SIZE - 1) = 0"
    and free: "translation pgd s va = None" "3 \<le> card (free_addrs (vm_pmm s))"
    using assms m al
    by (cases rule: vmm_map_page_cases) (use free in \<open>auto simp: translation_def Let_def split: if_splits\<close>)
  with m t show ?thesis by auto
qed

theorem vmm_map_page_correct_witness:
  "case example_vm of (s, pgd) \<Rightarrow>
     vt_inv pgd s \<and>
     (case vmm_map_page pgd 0x1000 0x40005000 3 s of (s', r) \<Rightarrow>
        r = OK \<and> translation pgd s' 0x1000 = Some (page_descriptor 0x40005000 3))"
proof -
  obtain s pgd where ex: "example_vm = (s, pgd)" by fastforce
  with example_vm have e: "vt_inv pgd s" "pgd \<noteq> 0" "\<And>v. translation pgd s v = None"
    "card (free_addrs (vm_pmm s)) = 7"
    by (metis fst_conv snd_conv)+
  show ?thesis
    using vmm_map_page_correct [OF e(1), of "0x1000" "0x40005000" 3] e
    by (auto simp: ex PAGE_SIZE_def)
qed

text \<open>
  C7: \<open>vmm_map_range\<close> is all or nothing.  On success every page that shares a byte with
  the range was unmapped and now has its descriptor, and every other page is as before; on
  failure, after the rollback of the pages already entered, every page is as before.  It
  succeeds when the range fits both address spaces, all its pages are unmapped and three
  free pages remain for each.
\<close>

theorem vmm_map_range_atomic:
  assumes "vt_inv pgd s"
  shows "case vmm_map_range pgd vaddr paddr sz fl s of (s', r) \<Rightarrow>
     vt_inv pgd s' \<and>
     (if r = OK
      then (\<forall>k < span_pages vaddr sz.
              translation pgd s (nth_page (page_align_down vaddr) k) = None \<and>
              translation pgd s' (nth_page (page_align_down vaddr) k) =
                Some (page_descriptor (nth_page (page_align_down paddr) k) fl)) \<and>
           (\<forall>v. (\<forall>k < span_pages vaddr sz. \<not> same_page v (nth_page (page_align_down vaddr) k)) \<longrightarrow>
              translation pgd s' v = translation pgd s v)
      else r = ERR \<and> translation pgd s' = translation pgd s) \<and>
     (pgd \<noteq> 0 \<and> (vaddr XOR paddr) AND (PAGE_SIZE - 1) = 0 \<and>
      unat (page_align_down vaddr) + 4096 * span_pages vaddr sz < 2 ^ 64 \<and>
      unat (page_align_down paddr) + 4096 * span_pages vaddr sz < 2 ^ 64 \<and>
      span_pages vaddr sz \<le> 2 ^ 36 \<and> 3 * span_pages vaddr sz \<le> card (free_addrs (vm_pmm s)) \<and>
      (\<forall>k < span_pages vaddr sz. translation pgd s (nth_page (page_align_down vaddr) k) = None)
      \<longrightarrow> r = OK)"
proof -
  obtain s' r where m: "vmm_map_range pgd vaddr paddr sz fl s = (s', r)" by fastforce
  note ok = vmm_map_range_succeeds [OF assms, of vaddr paddr sz fl, unfolded m snd_conv]
  from assms m show ?thesis
  proof (cases rule: vmm_map_range_cases)
    case error
    then have "r \<noteq> OK" by simp
    with ok have "\<not> (pgd \<noteq> 0 \<and> (vaddr XOR paddr) AND (PAGE_SIZE - 1) = 0 \<and>
      unat (page_align_down vaddr) + 4096 * span_pages vaddr sz < 2 ^ 64 \<and>
      unat (page_align_down paddr) + 4096 * span_pages vaddr sz < 2 ^ 64 \<and>
      span_pages vaddr sz \<le> 2 ^ 36 \<and> 3 * span_pages vaddr sz \<le> card (free_addrs (vm_pmm s)) \<and>
      (\<forall>k < span_pages vaddr sz. translation pgd s (nth_page (page_align_down vaddr) k) = None))"
      by blast
    with error show ?thesis unfolding m by simp
  qed (simp add: m pages_mapped_def)
qed

theorem vmm_map_range_atomic_witness:
  "case example_vm of (s, pgd) \<Rightarrow>
     vt_inv pgd s \<and>
     (case vmm_map_range pgd 0x1800 0x40005800 0x1000 3 s of (s', r) \<Rightarrow>
        r = OK \<and> translation pgd s' 0x2000 = Some (page_descriptor 0x40006000 3))"
proof -
  obtain s pgd where ex: "example_vm = (s, pgd)" by fastforce
  with example_vm have e: "vt_inv pgd s" "pgd \<noteq> 0" "\<And>v. translation pgd s v = None"
    "card (free_addrs (vm_pmm s)) = 7"
    by (metis fst_conv snd_conv)+
  have n: "span_pages 0x1800 0x1000 = 2" by (simp add: span_pages_def)
  obtain s' r where m: "vmm_map_range pgd 0x1800 0x40005800 0x1000 3 s = (s', r)" by fastforce
  note t = vmm_map_range_atomic [OF e(1), of "0x1800" "0x1000" "0x40005800" 3, unfolded m prod.case n]
  then have r: "r = OK" using e(2-4) by (simp add: page_align_down_def PAGE_SIZE_def)
  with t have "\<forall>k<2. translation pgd s' (nth_page (page_align_down 0x1800) k) =
      Some (page_descriptor (nth_page (page_align_down 0x40005800) k) 3)" by simp
  from this [rule_format, of 1] have "translation pgd s' 0x2000 = Some (page_descriptor 0x40006000 3)"
    by (simp add: page_align_down_def PAGE_SIZE_def)
  with e(1) r m show ?thesis unfolding ex by simp
qed

text \<open>
  C8: unmapping a range that \<open>vmm_map_range\<close> has just mapped succeeds and restores the
  mapping of every address.
\<close>

theorem vmm_unmap_range_inverse:
  assumes "vt_inv pgd s" "vmm_map_range pgd vaddr paddr sz fl s = (s', OK)"
  shows "\<exists>s''. vmm_unmap_range pgd vaddr sz s' = (s'', OK) \<and> vt_inv pgd s'' \<and>
     translation pgd s'' = translation pgd s"
  using assms
proof (cases rule: vmm_map_range_cases)
  case ok
  show ?thesis
  proof (cases "sz = 0")
    case True
    with ok show ?thesis by (auto simp: vmm_unmap_range_def span_pages_def pages_mapped_def)
  next
    case False
    let ?va = "page_align_down vaddr"
    obtain e where e: "page_span (vaddr - ?va) sz = Some e" "\<not> ?va > - 1 - e"
      using assms(2) False ok(3) by (auto simp: vmm_map_range_def Let_def split: if_splits option.splits)
    then have "vmm_unmap_range pgd vaddr sz s' = unmap_range_loop pgd ?va [0..<span_pages vaddr sz] s'"
      using ok(3) False page_span_pages [OF e(1)] by (simp add: vmm_unmap_range_def)
    with unmap_pages_mapped [OF ok(3) page_align_down_aligned ok(2,7)] show ?thesis by simp
  qed
qed simp


theorem vmm_unmap_range_inverse_witness:
  "case example_vm of (s, pgd) \<Rightarrow>
     \<exists>s' s''. vmm_map_range pgd 0x1800 0x40005800 0x1000 3 s = (s', OK) \<and>
       vmm_unmap_range pgd 0x1800 0x1000 s' = (s'', OK) \<and> translation pgd s'' 0x2000 = None"
proof -
  obtain s pgd where ex: "example_vm = (s, pgd)" by fastforce
  with example_vm have e: "vt_inv pgd s" "pgd \<noteq> 0" "\<And>v. translation pgd s v = None"
    "card (free_addrs (vm_pmm s)) = 7"
    by (metis fst_conv snd_conv)+
  have n: "span_pages 0x1800 0x1000 = 2" by (simp add: span_pages_def)
  have "snd (vmm_map_range pgd 0x1800 0x40005800 0x1000 3 s) = OK"
    by (rule vmm_map_range_succeeds [OF e(1,2)]) (simp_all add: n e page_align_down_def PAGE_SIZE_def)
  then obtain s' where m: "vmm_map_range pgd 0x1800 0x40005800 0x1000 3 s = (s', OK)"
    by (metis prod.collapse)
  with vmm_unmap_range_inverse [OF e(1) m] e(3) show ?thesis unfolding ex by auto
qed

text \<open>
  C9: every bit of a leaf descriptor is pinned.  Valid, page and access flag are set; the
  output address is that of the page; the memory attribute is device or normal
  inner-shareable memory as the DEVICE flag says; the page is read-only exactly without the
  WRITE flag and reachable from EL0 exactly with the USER flag; EL1 may execute it only if it
  is an executable, non-device page that EL0 cannot reach, EL0 only if it is an executable,
  non-device user page; all other bits are zero.  The READ flag makes no difference: a mapped
  page is always readable at EL1.
\<close>

theorem page_descriptor_permissions:
  assumes "n < 64"
  shows "(bit (page_descriptor pa fl) n \<longleftrightarrow>
      n = 0 \<or> n = 1 \<or> n = 10 \<or>
      (12 \<le> n \<and> n < 48 \<and> bit pa n) \<or>
      (n = 2 \<and> fl AND VMM_FLAG_DEVICE \<noteq> 0) \<or>
      ((n = 8 \<or> n = 9) \<and> fl AND VMM_FLAG_DEVICE = 0) \<or>
      (n = 7 \<and> fl AND VMM_FLAG_WRITE = 0) \<or>
      (n = 6 \<and> fl AND VMM_FLAG_USER \<noteq> 0) \<or>
      (n = 53 \<and> (fl AND VMM_FLAG_EXEC = 0 \<or> fl AND VMM_FLAG_DEVICE \<noteq> 0 \<or> fl AND VMM_FLAG_USER \<noteq> 0)) \<or>
      (n = 54 \<and> (fl AND VMM_FLAG_EXEC = 0 \<or> fl AND VMM_FLAG_DEVICE \<noteq> 0 \<or> fl AND VMM_FLAG_USER = 0))) \<and>
    page_descriptor pa (fl OR VMM_FLAG_READ) = page_descriptor pa fl"
proof
  show "bit (page_descriptor pa fl) n \<longleftrightarrow>
      n = 0 \<or> n = 1 \<or> n = 10 \<or>
      (12 \<le> n \<and> n < 48 \<and> bit pa n) \<or>
      (n = 2 \<and> fl AND VMM_FLAG_DEVICE \<noteq> 0) \<or>
      ((n = 8 \<or> n = 9) \<and> fl AND VMM_FLAG_DEVICE = 0) \<or>
      (n = 7 \<and> fl AND VMM_FLAG_WRITE = 0) \<or>
      (n = 6 \<and> fl AND VMM_FLAG_USER \<noteq> 0) \<or>
      (n = 53 \<and> (fl AND VMM_FLAG_EXEC = 0 \<or> fl AND VMM_FLAG_DEVICE \<noteq> 0 \<or> fl AND VMM_FLAG_USER \<noteq> 0)) \<or>
      (n = 54 \<and> (fl AND VMM_FLAG_EXEC = 0 \<or> fl AND VMM_FLAG_DEVICE \<noteq> 0 \<or> fl AND VMM_FLAG_USER = 0))"
    unfolding flag_test by (simp add: page_descriptor_bit)
  show "page_descriptor pa (fl OR VMM_FLAG_READ) = page_descriptor pa fl"
    by (rule bit_word_eqI) (simp add: page_descriptor_bit bit_or_iff bit_flag)
qed

theorem page_descriptor_permissions_witness:
  "bit (page_descriptor 0x40005000 (VMM_FLAG_USER OR VMM_FLAG_EXEC)) 53 \<and>
   \<not> bit (page_descriptor 0x40005000 (VMM_FLAG_USER OR VMM_FLAG_EXEC)) 54"
  using page_descriptor_permissions [of 53 "0x40005000" "VMM_FLAG_USER OR VMM_FLAG_EXEC"]
    page_descriptor_permissions [of 54 "0x40005000" "VMM_FLAG_USER OR VMM_FLAG_EXEC"]
  by (simp add: VMM_FLAG_USER_def VMM_FLAG_EXEC_def VMM_FLAG_DEVICE_def)

text \<open>
  C10: when \<open>vmm_map_kernel_identity\<close> succeeds, every byte of RAM is mapped to itself with
  the permissions of the region it lies in (kernel text read-execute, rodata read-only,
  everything else read-write), all mappings that were there before are kept, and no page
  of the whole address space is both writable and executable at EL1.  The board's MMIO
  callback is assumed to keep the mappings it finds and to add no writable executable page.
\<close>

theorem vmm_map_kernel_identity_correct:
  assumes "vt_inv pgd s" "wx_safe pgd s"
    and "vmm_map_kernel_identity kstart text_end rodata_end data_end pgd base msize (Some mmio) s = (s', OK)"
    and mmio: "\<And>t t'. vt_inv pgd t \<Longrightarrow> wx_safe pgd t \<Longrightarrow> mmio pgd t = (t', OK) \<Longrightarrow>
      map_extends pgd t t' \<and> wx_safe pgd t'"
  shows "wx_safe pgd s' \<and> map_extends pgd s s' \<and>
    (\<forall>v. base \<le> v \<and> v < base + msize \<longrightarrow>
       identity_mapped pgd s' (kernel_flags_at kstart text_end rodata_end v) v \<and>
       (v < 0x1000000000000 \<longrightarrow> vmm_virt_to_phys pgd v s' = v))"
proof -
  obtain s5 where s5: "vt_inv pgd s5" "wx_safe pgd s5" "map_extends pgd s s5"
    "\<And>v. base \<le> v \<Longrightarrow> v < base + msize \<Longrightarrow>
       identity_mapped pgd s5 (kernel_flags_at kstart text_end rodata_end v) v"
    "mmio pgd s5 = (s', OK)"
    using kernel_identity_stages [OF assms(1-3)] by auto
  note ext = mmio [OF s5(1,2,5)]
  have keep: "wx_safe pgd s'" "map_extends pgd s s'" using ext s5(3) map_extends_trans by blast+
  have id: "identity_mapped pgd s' (kernel_flags_at kstart text_end rodata_end v) v"
    if "base \<le> v" "v < base + msize" for v
    using ext s5(4) [OF that] identity_extends by blast
  have "vmm_virt_to_phys pgd v s' = v"
    if v: "base \<le> v" "v < base + msize" and lim: "v < 0x1000000000000" for v
  proof -
    have "unat v < 2 ^ 48" using lim by (simp add: word_less_nat_alt)
    then have "unat (page_align_down v) < 2 ^ 48"
      unfolding page_align_down_unat by (rule le_less_trans [OF div_times_less_eq_dividend])
    with id [OF v] page_align_down_aligned [of v] page_split [of v] show ?thesis
      unfolding identity_mapped_def by (simp add: virt_to_phys_translation)
  qed
  with keep id show ?thesis by blast
qed

theorem vmm_map_kernel_identity_correct_witness:
  "case example_vm of (s, pgd) \<Rightarrow>
     \<exists>s'. vmm_map_kernel_identity 0x40000000 0x40002000 0x40002000 0x40002000 pgd 0x40000000 0x2000
            (Some (\<lambda>_ t. (t, OK))) s = (s', OK) \<and>
          wx_safe pgd s' \<and> vmm_virt_to_phys pgd 0x40001234 s' = 0x40001234"
proof -
  obtain s pgd where ex: "example_vm = (s, pgd)" by fastforce
  with example_vm have e: "vt_inv pgd s" "pgd \<noteq> 0" "\<And>v. translation pgd s v = None"
    "card (free_addrs (vm_pmm s)) = 7"
    by (metis fst_conv snd_conv)+
  let ?fl = "VMM_FLAG_READ OR VMM_FLAG_EXEC"
  have n: "span_pages 0x40000000 0x2000 = 2" by (simp add: span_pages_def)
  have "snd (vmm_map_range pgd 0x40000000 0x40000000 0x2000 ?fl s) = OK"
    by (rule vmm_map_range_succeeds [OF e(1,2)]) (simp_all add: n e page_align_down_def PAGE_SIZE_def)
  then obtain s' where "vmm_map_range pgd 0x40000000 0x40000000 0x2000 ?fl s = (s', OK)"
    by (metis prod.collapse)
  then have m: "vmm_map_kernel_identity 0x40000000 0x40002000 0x40002000 0x40002000 pgd 0x40000000 0x2000
      (Some (\<lambda>_ t. (t, OK))) s = (s', OK)"
    using e(2) by (simp add: vmm_map_kernel_identity_def page_align_up_def PAGE_SIZE_def)
  have wx: "wx_safe pgd s" by (simp add: wx_safe_def e(3))
  have mm: "map_extends pgd t t' \<and> wx_safe pgd t'"
    if "wx_safe pgd t" "(\<lambda>_ t. (t, OK)) pgd t = (t', OK)" for t t'
    using that by (simp add: map_extends_def)
  note t = vmm_map_kernel_identity_correct [OF e(1) wx m mm]
  then have "wx_safe pgd s'" by blast
  moreover from t have "vmm_virt_to_phys pgd 0x40001234 s' = 0x40001234" by simp
  ultimately show ?thesis unfolding ex using m by blast
qed

text \<open>
  C11: \<open>vmm_free_table\<close> returns to the page allocator exactly the tables of the hierarchy,
  the root and every table reachable through valid table entries, and leaves the page
  allocator consistent.
\<close>

theorem vmm_free_table_releases:
  assumes "vt_inv pgd s"
  shows "pmm_inv (vm_pmm (vmm_free_table pgd s)) \<and>
     free_addrs (vm_pmm (vmm_free_table pgd s)) =
       free_addrs (vm_pmm s) \<union> {t. \<exists>v k. k \<le> 3 \<and> walk s pgd v k = Some t}"
proof -
  have "tables_of s pgd 3 \<subseteq> managed_addrs (vm_pmm s) - {0}"
    unfolding tables_of_hierarchy using vt_invD(2,3) [OF assms] by blast
  with free_table_level_released [OF vt_invD(1) [OF assms], of 0 pgd]
  have "released (tables_of s pgd 3) s (vmm_free_table pgd s)" by (simp add: vmm_free_table_def)
  then show ?thesis by (simp add: released_def tables_of_hierarchy)
qed


theorem vmm_free_table_releases_witness:
  "case example_vm of (s, pgd) \<Rightarrow> pgd \<in> free_addrs (vm_pmm (vmm_free_table pgd s))"
proof -
  obtain s pgd where ex: "example_vm = (s, pgd)" by fastforce
  with example_vm have "vt_inv pgd s" by (metis fst_conv snd_conv)
  moreover have "\<exists>v k. k \<le> 3 \<and> walk s pgd v k = Some pgd" by (intro exI [of _ 0]) simp
  ultimately show ?thesis unfolding ex using vmm_free_table_releases by auto
qed

end
