(* ===== verification/Process.thy ===== *)
theory Process
  imports Vmm Kstring
begin

text \<open>
  Process control blocks, \<open>kernel/process.c\<close>.  A \<open>process_t *\<close> is the number of the object
  it points at: numbers below 16 are the entries of the process table, larger numbers
  process objects elsewhere.  \<open>process->name\<close> always points at the object's own name
  storage and is not a separate field.  A region pointer is its index.
\<close>

definition PROCESS_MAX_PROCESSES :: nat where "PROCESS_MAX_PROCESSES = 16"
definition PROCESS_MAX_USER_REGIONS :: nat where "PROCESS_MAX_USER_REGIONS = 8"
definition PROCESS_NAME_LEN :: nat where "PROCESS_NAME_LEN = 16"
definition PROCESS_USER_MMAP_BASE :: u64 where "PROCESS_USER_MMAP_BASE = 0x0000000100000000"
definition PROCESS_USER_MMAP_LIMIT :: u64 where "PROCESS_USER_MMAP_LIMIT = 0x0000000200000000"
definition PROCESS_USER_REGION_OWNED_PAGES :: u64 where "PROCESS_USER_REGION_OWNED_PAGES = push_bit 0 1"
definition USER_REGION_ALIGN :: u64 where "USER_REGION_ALIGN = 4096"

datatype process_state =
  PROCESS_UNUSED | PROCESS_READY | PROCESS_RUNNING | PROCESS_BLOCKED | PROCESS_ZOMBIE

datatype dispatch_policy = PROCESS_DISPATCH_EXIT | PROCESS_DISPATCH_PREEMPT

record user_region =
  rg_start :: u64
  rg_end :: u64
  rg_paddr :: u64
  rg_flags :: u64

record process =
  pid :: u32
  parent_pid :: u32
  name_storage :: string
  regs :: "u64 list"
  psp :: u64
  pc :: u64
  pstate :: u64
  page_table :: u64
  state :: process_state
  exit_code :: u64
  next_user_vaddr :: u64
  user_regions :: "user_region list"
  user_region_count :: u32

record exception_frame =
  frame_x :: "u64 list"
  frame_elr :: u64
  frame_spsr :: u64
  frame_sp_el0 :: u64

text \<open>\<open>cpu_ttbr0\<close> is the translation table \<open>mmu_set_ttbr0\<close> installs.\<close>

record ptable =
  g_processes :: "nat \<Rightarrow> process"
  g_current_process :: "nat option"
  g_process_count :: u32
  cpu_ttbr0 :: u64

subsection \<open>Helpers\<close>

definition region_align_up :: "u64 \<Rightarrow> u64 \<Rightarrow> u64" where
  "region_align_up value alignment = (value + alignment - 1) AND NOT (alignment - 1)"

definition user_region_end :: "u64 \<Rightarrow> u64 \<Rightarrow> u64 option" where
  "user_region_end start sz = (if sz = 0 \<or> start > - 1 - sz then None else Some (start + sz))"

definition process_in_table :: "nat \<Rightarrow> bool" where
  "process_in_table p \<longleftrightarrow> p < PROCESS_MAX_PROCESSES"

definition process_copy_name :: "process \<Rightarrow> cstr \<Rightarrow> process" where
  "process_copy_name p name =
     (let cleared = fold (\<lambda>i d. d[i := NUL]) [0..<PROCESS_NAME_LEN] (name_storage p)
      in case name of
           None \<Rightarrow> p\<lparr>name_storage := cleared\<rparr>
         | Some n \<Rightarrow> p\<lparr>name_storage :=
             fold (\<lambda>i d. d[i := n ! i]) [0..<min (PROCESS_NAME_LEN - 1) (length (takeWhile (\<lambda>c. c \<noteq> NUL) n))] cleared\<rparr>)"

definition region_clear :: "user_region \<Rightarrow> user_region" where
  "region_clear r = r\<lparr>rg_start := 0, rg_end := 0, rg_paddr := 0, rg_flags := 0\<rparr>"

definition region_copy :: "user_region \<Rightarrow> user_region \<Rightarrow> user_region" where
  "region_copy dst src = dst\<lparr>rg_start := rg_start src, rg_end := rg_end src,
     rg_paddr := rg_paddr src, rg_flags := rg_flags src\<rparr>"

definition process_init :: "u32 \<Rightarrow> cstr \<Rightarrow> process \<Rightarrow> process" where
  "process_init new_pid name p =
     (process_copy_name (p\<lparr>pid := new_pid, parent_pid := 0\<rparr>) name)
       \<lparr>psp := 0, pc := 0, pstate := 0, page_table := 0, state := PROCESS_READY, exit_code := 0,
        next_user_vaddr := PROCESS_USER_MMAP_BASE, user_region_count := 0,
        regs := fold (\<lambda>i d. d[i := 0]) [0..<31] (regs p),
        user_regions := fold (\<lambda>i d. d[i := region_clear (d ! i)]) [0..<PROCESS_MAX_USER_REGIONS]
          (user_regions p)\<rparr>"

definition set_process :: "nat \<Rightarrow> process \<Rightarrow> ptable \<Rightarrow> ptable" where
  "set_process i p t = t\<lparr>g_processes := (g_processes t)(i := p)\<rparr>"

subsection \<open>User regions\<close>

definition process_add_user_region :: "process option \<Rightarrow> u64 \<Rightarrow> u64 \<Rightarrow> process option \<times> int" where
  "process_add_user_region proc start sz =
     (case proc of None \<Rightarrow> (None, ERR)
      | Some p \<Rightarrow>
          if user_region_count p \<ge> of_nat PROCESS_MAX_USER_REGIONS then (Some p, ERR)
          else case user_region_end start sz of
                 None \<Rightarrow> (Some p, ERR)
               | Some end' \<Rightarrow>
                   if \<exists>i\<in>set [0..<unat (user_region_count p)].
                        start < rg_end (user_regions p ! i) \<and> end' > rg_start (user_regions p ! i)
                   then (Some p, ERR)
                   else
                     let n = unat (user_region_count p)
                     in (Some (p\<lparr>user_regions := (user_regions p)
                           [n := (user_regions p ! n)\<lparr>rg_start := start, rg_end := end', rg_paddr := 0, rg_flags := 0\<rparr>],
                           user_region_count := user_region_count p + 1\<rparr>), OK))"

definition process_alloc_user_region :: "process option \<Rightarrow> u64 \<Rightarrow> bool \<Rightarrow> process option \<times> u64 \<times> int" where
  "process_alloc_user_region proc sz has_out =
     (case proc of None \<Rightarrow> (None, 0, ERR)
      | Some p \<Rightarrow>
          if \<not> has_out \<or> sz = 0 then (Some p, 0, ERR)
          else
            let aligned = region_align_up sz USER_REGION_ALIGN;
                start = region_align_up (next_user_vaddr p) USER_REGION_ALIGN
            in if aligned < sz then (Some p, 0, ERR)
               else if start < next_user_vaddr p then (Some p, 0, ERR)
               else case user_region_end start aligned of
                      None \<Rightarrow> (Some p, 0, ERR)
                    | Some end' \<Rightarrow>
                        if end' > PROCESS_USER_MMAP_LIMIT then (Some p, 0, ERR)
                        else case process_add_user_region (Some p) start aligned of
                               (Some p', r) \<Rightarrow> if r \<noteq> 0 then (Some p', 0, ERR)
                                               else (Some (p'\<lparr>next_user_vaddr := end'\<rparr>), start, OK)
                             | (None, r) \<Rightarrow> (None, 0, ERR))"

definition region_index :: "process \<Rightarrow> u64 \<Rightarrow> u64 \<Rightarrow> nat option" where
  "region_index p start end' =
     find (\<lambda>i. rg_start (user_regions p ! i) = start \<and> rg_end (user_regions p ! i) = end')
       [0..<unat (user_region_count p)]"

definition process_set_user_region_mapping ::
  "process option \<Rightarrow> u64 \<Rightarrow> u64 \<Rightarrow> u64 \<Rightarrow> u64 \<Rightarrow> process option \<times> int" where
  "process_set_user_region_mapping proc start sz paddr flags =
     (case proc of None \<Rightarrow> (None, ERR)
      | Some p \<Rightarrow>
          (case user_region_end start sz of
             None \<Rightarrow> (Some p, ERR)
           | Some end' \<Rightarrow>
               (case region_index p start end' of
                  None \<Rightarrow> (Some p, ERR)
                | Some i \<Rightarrow> (Some (p\<lparr>user_regions := (user_regions p)
                      [i := (user_regions p ! i)\<lparr>rg_paddr := paddr, rg_flags := flags\<rparr>]\<rparr>), OK))))"

definition process_find_user_region ::
  "process option \<Rightarrow> u64 \<Rightarrow> u64 \<Rightarrow> user_region option \<Rightarrow> user_region option \<times> int" where
  "process_find_user_region proc start sz out =
     (case proc of None \<Rightarrow> (out, ERR)
      | Some p \<Rightarrow>
          (case user_region_end start sz of
             None \<Rightarrow> (out, ERR)
           | Some end' \<Rightarrow>
               (case region_index p start end' of
                  None \<Rightarrow> (out, ERR)
                | Some i \<Rightarrow> (map_option (\<lambda>o'. region_copy o' (user_regions p ! i)) out, OK))))"

definition process_remove_user_region_info ::
  "process option \<Rightarrow> u64 \<Rightarrow> u64 \<Rightarrow> user_region option \<Rightarrow> process option \<times> user_region option \<times> int" where
  "process_remove_user_region_info proc start sz removed =
     (case proc of None \<Rightarrow> (None, removed, ERR)
      | Some p \<Rightarrow>
          (case user_region_end start sz of
             None \<Rightarrow> (Some p, removed, ERR)
           | Some end' \<Rightarrow>
               (case region_index p start end' of
                  None \<Rightarrow> (Some p, removed, ERR)
                | Some i \<Rightarrow>
                    let shifted = fold (\<lambda>j rs. rs[j - 1 := rs ! j]) [i + 1..<unat (user_region_count p)] (user_regions p);
                        last' = unat (user_region_count p) - 1
                    in (Some (p\<lparr>user_regions := shifted[last' := region_clear (shifted ! last')],
                                user_region_count := user_region_count p - 1\<rparr>),
                        map_option (\<lambda>o'. region_copy o' (user_regions p ! i)) removed, OK))))"

definition process_remove_user_region :: "process option \<Rightarrow> u64 \<Rightarrow> u64 \<Rightarrow> process option \<times> int" where
  "process_remove_user_region proc start sz =
     (case process_remove_user_region_info proc start sz None of (p, _, r) \<Rightarrow> (p, r))"

definition process_user_range_contains :: "process option \<Rightarrow> u64 \<Rightarrow> u64 \<Rightarrow> bool" where
  "process_user_range_contains proc start sz =
     (case proc of None \<Rightarrow> False
      | Some p \<Rightarrow>
          if sz = 0 then True
          else case user_region_end start sz of
                 None \<Rightarrow> False
               | Some end' \<Rightarrow>
                   \<exists>i\<in>set [0..<unat (user_region_count p)].
                     start \<ge> rg_start (user_regions p ! i) \<and> end' \<le> rg_end (user_regions p ! i))"

subsection \<open>Owned pages\<close>

text \<open>The page loop of \<open>process_free_resources\<close> runs over the byte offsets \<open>k * PAGE_SIZE\<close>
  below the region size.\<close>

definition free_region_pages :: "u64 \<Rightarrow> u64 \<Rightarrow> vm \<Rightarrow> vm" where
  "free_region_pages paddr sz s =
     fold (\<lambda>k s. s\<lparr>vm_pmm := pmm_free_page (paddr + of_nat k * PAGE_SIZE) (vm_pmm s)\<rparr>)
       [0..<(unat sz + 4095) div 4096] s"

definition free_region_at :: "nat \<Rightarrow> process \<times> vm \<Rightarrow> process \<times> vm" where
  "free_region_at i ps =
     (case ps of (p, s) \<Rightarrow>
        let region = user_regions p ! i
        in if rg_flags region AND PROCESS_USER_REGION_OWNED_PAGES = 0 \<or> rg_paddr region = 0 then (p, s)
           else
             let s' = (if rg_end region > rg_start region
                       then free_region_pages (rg_paddr region) (rg_end region - rg_start region) s else s)
             in (p\<lparr>user_regions := (user_regions p)[i :=
                    region\<lparr>rg_flags := rg_flags region AND NOT PROCESS_USER_REGION_OWNED_PAGES, rg_paddr := 0\<rparr>]\<rparr>, s'))"

definition process_free_resources :: "process \<Rightarrow> vm \<Rightarrow> process \<times> vm" where
  "process_free_resources p s =
     (let (p1, s1) = fold free_region_at
            [0..<min (unat (user_region_count p)) PROCESS_MAX_USER_REGIONS] (p, s)
      in if page_table p1 \<noteq> 0 then (p1\<lparr>page_table := 0\<rparr>, vmm_free_table (page_table p1) s1) else (p1, s1))"

subsection \<open>The process table\<close>

definition process_set_current :: "nat option \<Rightarrow> ptable \<Rightarrow> ptable" where
  "process_set_current p t = t\<lparr>g_current_process := p\<rparr>"

definition process_current :: "ptable \<Rightarrow> nat option" where
  "process_current t = g_current_process t"

definition process_table_init :: "ptable \<Rightarrow> ptable" where
  "process_table_init t =
     fold (\<lambda>i t. set_process i ((process_init 0 None (g_processes t i))\<lparr>state := PROCESS_UNUSED\<rparr>) t)
       [0..<PROCESS_MAX_PROCESSES] (t\<lparr>g_current_process := None, g_process_count := 0\<rparr>)"

definition process_find :: "u32 \<Rightarrow> ptable \<Rightarrow> nat option" where
  "process_find p t =
     (if p = 0 then None
      else find (\<lambda>i. state (g_processes t i) \<noteq> PROCESS_UNUSED \<and> pid (g_processes t i) = p)
             [0..<PROCESS_MAX_PROCESSES])"

definition process_alloc :: "u32 \<Rightarrow> cstr \<Rightarrow> ptable \<Rightarrow> ptable \<times> nat option" where
  "process_alloc p name t =
     (if p = 0 \<or> process_find p t \<noteq> None then (t, None)
      else case find (\<lambda>i. state (g_processes t i) = PROCESS_UNUSED) [0..<PROCESS_MAX_PROCESSES] of
             None \<Rightarrow> (t, None)
           | Some i \<Rightarrow> ((set_process i (process_init p name (g_processes t i)) t)
                          \<lparr>g_process_count := g_process_count t + 1\<rparr>, Some i))"

definition process_release :: "nat option \<Rightarrow> ptable \<times> vm \<Rightarrow> ptable \<times> vm" where
  "process_release proc ts =
     (case proc of None \<Rightarrow> ts
      | Some i \<Rightarrow>
          (case ts of (t, s) \<Rightarrow>
             let p = g_processes t i
             in if state p = PROCESS_UNUSED \<and> page_table p = 0 \<and> user_region_count p = 0 then (t, s)
                else
                  let t1 = (if g_current_process t = Some i then t\<lparr>g_current_process := None\<rparr> else t);
                      counted = (process_in_table i \<and> state p \<noteq> PROCESS_UNUSED);
                      (p1, s1) = process_free_resources p s;
                      t2 = set_process i ((process_init 0 None p1)\<lparr>state := PROCESS_UNUSED\<rparr>) t1
                  in (if counted \<and> g_process_count t2 > 0
                      then t2\<lparr>g_process_count := g_process_count t2 - 1\<rparr> else t2, s1)))"

definition process_count :: "ptable \<Rightarrow> u32" where
  "process_count t = g_process_count t"

definition process_at :: "u32 \<Rightarrow> ptable \<Rightarrow> nat option" where
  "process_at index t =
     (if index \<ge> of_nat PROCESS_MAX_PROCESSES \<or> state (g_processes t (unat index)) = PROCESS_UNUSED
      then None else Some (unat index))"

definition process_index :: "nat option \<Rightarrow> bool \<Rightarrow> u32 \<times> int" where
  "process_index proc has_out =
     (case proc of None \<Rightarrow> (0, ERR)
      | Some p \<Rightarrow> if \<not> has_out \<or> \<not> process_in_table p then (0, ERR) else (of_nat p, OK))"

definition process_next_runnable :: "nat option \<Rightarrow> ptable \<Rightarrow> nat option" where
  "process_next_runnable after t =
     (let (start, count) =
            (case after of
               Some a \<Rightarrow> if process_in_table a then (a + 1, PROCESS_MAX_PROCESSES - 1) else (0, PROCESS_MAX_PROCESSES)
             | None \<Rightarrow> (0, PROCESS_MAX_PROCESSES))
      in map_option (\<lambda>offset. (start + offset) mod PROCESS_MAX_PROCESSES)
           (find (\<lambda>offset. state (g_processes t ((start + offset) mod PROCESS_MAX_PROCESSES)) = PROCESS_READY)
              [0..<count]))"

definition process_load_context :: "process \<Rightarrow> exception_frame \<Rightarrow> exception_frame" where
  "process_load_context p frame =
     frame\<lparr>frame_x := fold (\<lambda>i x. x[i := regs p ! i]) [0..<31] (frame_x frame),
           frame_elr := pc p, frame_spsr := pstate p, frame_sp_el0 := psp p\<rparr>"

definition process_activate_context ::
  "nat \<Rightarrow> exception_frame \<Rightarrow> ptable \<Rightarrow> ptable \<times> exception_frame" where
  "process_activate_context i frame t =
     (let p = g_processes t i
      in (if page_table p \<noteq> 0 then t\<lparr>cpu_ttbr0 := page_table p\<rparr> else t, process_load_context p frame))"

definition process_dispatch_next ::
  "nat option \<Rightarrow> exception_frame option \<Rightarrow> dispatch_policy \<Rightarrow> ptable \<Rightarrow> ptable \<times> exception_frame option \<times> int" where
  "process_dispatch_next current frame policy t =
     (case frame of None \<Rightarrow> (t, None, 0)
      | Some fr \<Rightarrow>
          if current = None \<and> policy = PROCESS_DISPATCH_PREEMPT then (t, frame, 0)
          else case process_next_runnable current t of
                 None \<Rightarrow> (t, frame, 0)
               | Some n \<Rightarrow>
                   let t1 = (case current of
                               Some c \<Rightarrow> if policy = PROCESS_DISPATCH_PREEMPT \<and> state (g_processes t c) = PROCESS_RUNNING
                                         then set_process c ((g_processes t c)\<lparr>state := PROCESS_READY\<rparr>) t else t
                             | None \<Rightarrow> t);
                       t2 = set_process n ((g_processes t1 n)\<lparr>state := PROCESS_RUNNING\<rparr>) t1;
                       t3 = process_set_current (Some n) t2;
                       (t4, fr') = process_activate_context n fr t3
                   in (t4, Some fr', 1))"

definition process_wait_zombie :: "u32 \<Rightarrow> bool \<Rightarrow> ptable \<times> vm \<Rightarrow> (ptable \<times> vm) \<times> u64 \<times> int" where
  "process_wait_zombie p has_out ts =
     (case process_find p (fst ts) of
        None \<Rightarrow> (ts, 0, ERR)
      | Some i \<Rightarrow>
          if \<not> has_out \<or> g_current_process (fst ts) = Some i \<or> state (g_processes (fst ts) i) \<noteq> PROCESS_ZOMBIE
          then (ts, 0, ERR)
          else (process_release (Some i) ts, exit_code (g_processes (fst ts) i), OK))"

text \<open>Closing the descriptors and destroying the windows of a process act on state outside
  the process table; they are passed in.\<close>

definition process_mark_exited ::
  "(u32 \<Rightarrow> 'w \<Rightarrow> 'w) \<Rightarrow> (u32 \<Rightarrow> 'w \<Rightarrow> 'w) \<Rightarrow> nat option \<Rightarrow> u64 \<Rightarrow> ptable \<times> 'w \<Rightarrow> ptable \<times> 'w" where
  "process_mark_exited close_all destroy_windows proc code tw =
     (case proc of None \<Rightarrow> tw
      | Some i \<Rightarrow>
          (case tw of (t, w) \<Rightarrow>
             let p = g_processes t i
             in if state p = PROCESS_ZOMBIE then (t, w)
                else (set_process i (p\<lparr>exit_code := code, state := PROCESS_ZOMBIE\<rparr>) t,
                      destroy_windows (pid p) (close_all (pid p) w))))"

definition process_kill ::
  "(u32 \<Rightarrow> 'w \<Rightarrow> 'w) \<Rightarrow> (u32 \<Rightarrow> 'w \<Rightarrow> 'w) \<Rightarrow> u32 \<Rightarrow> u64 \<Rightarrow> ptable \<times> 'w \<Rightarrow> (ptable \<times> 'w) \<times> int" where
  "process_kill close_all destroy_windows p code tw =
     (case process_find p (fst tw) of
        None \<Rightarrow> (tw, ERR)
      | Some i \<Rightarrow>
          if g_current_process (fst tw) = Some i \<or> state (g_processes (fst tw) i) = PROCESS_ZOMBIE
          then (tw, ERR)
          else (process_mark_exited close_all destroy_windows (Some i) code tw, OK))"

definition reclaim_at :: "nat \<Rightarrow> ptable \<times> vm \<Rightarrow> ptable \<times> vm" where
  "reclaim_at i ts =
     (let t = fst ts; z = g_processes t i;
          parent = (if parent_pid z = 0 then None else process_find (parent_pid z) t)
      in if state z \<noteq> PROCESS_ZOMBIE then ts
         else if parent_pid z \<noteq> 0 \<and> parent \<noteq> None \<and>
                 state (g_processes t (the parent)) \<noteq> PROCESS_UNUSED \<and>
                 state (g_processes t (the parent)) \<noteq> PROCESS_ZOMBIE then ts
         else process_release (Some i) ts)"

definition process_reclaim_zombies :: "ptable \<times> vm \<Rightarrow> ptable \<times> vm" where
  "process_reclaim_zombies ts = fold reclaim_at [0..<PROCESS_MAX_PROCESSES] ts"

definition process_set_entry :: "u64 \<Rightarrow> u64 \<Rightarrow> u64 \<Rightarrow> process \<Rightarrow> process" where
  "process_set_entry new_pc new_sp new_pstate p = p\<lparr>pc := new_pc, psp := new_sp, pstate := new_pstate\<rparr>"

definition process_save_context :: "u64 list option \<Rightarrow> u64 \<Rightarrow> u64 \<Rightarrow> u64 \<Rightarrow> process \<Rightarrow> process" where
  "process_save_context rs new_pc new_pstate new_sp p =
     (case rs of None \<Rightarrow> p
      | Some r \<Rightarrow> p\<lparr>regs := fold (\<lambda>i x. x[i := r ! i]) [0..<31] (regs p),
                    pc := new_pc, pstate := new_pstate, psp := new_sp\<rparr>)"

definition process_set_page_table :: "u64 \<Rightarrow> process \<Rightarrow> process" where
  "process_set_page_table pt p = p\<lparr>page_table := pt\<rparr>"

section \<open>User regions\<close>

definition regions :: "process \<Rightarrow> user_region list" where
  "regions p = take (unat (user_region_count p)) (user_regions p)"

definition region_apart :: "user_region \<Rightarrow> user_region \<Rightarrow> bool" where
  "region_apart r r' \<longleftrightarrow> rg_end r \<le> rg_start r' \<or> rg_end r' \<le> rg_start r"

definition regions_wf :: "process \<Rightarrow> bool" where
  "regions_wf p \<longleftrightarrow> length (user_regions p) = 8 \<and> unat (user_region_count p) \<le> 8 \<and>
     (\<forall>r\<in>set (regions p). rg_start r < rg_end r) \<and> sorted_wrt region_apart (regions p)"

lemma user_region_end_Some:
  "user_region_end start sz = Some e \<longleftrightarrow>
     sz \<noteq> 0 \<and> unat start + unat sz < 2 ^ 64 \<and> e = start + sz"
  using unat_u64_less [of sz] by (auto simp: user_region_end_def word_less_nat_alt unat_max_minus)

lemma user_region_end_None:
  "user_region_end start sz = None \<longleftrightarrow> sz = 0 \<or> 2 ^ 64 \<le> unat start + unat sz"
  using unat_u64_less [of sz] by (auto simp: user_region_end_def word_less_nat_alt unat_max_minus)

lemma unat_region_end: "user_region_end start sz = Some e \<Longrightarrow> unat e = unat start + unat sz"
  by (auto simp: user_region_end_Some unat_plus_no_overflow)

lemma bex_upt_regions:
  "regions_wf p \<Longrightarrow>
   (\<exists>i\<in>set [0..<unat (user_region_count p)]. P (user_regions p ! i)) \<longleftrightarrow> (\<exists>r\<in>set (regions p). P r)"
  by (force simp: regions_wf_def regions_def in_set_conv_nth)

lemma count_max: "regions_wf p \<Longrightarrow>
  user_region_count p \<ge> of_nat PROCESS_MAX_USER_REGIONS \<longleftrightarrow> length (regions p) = 8"
  by (auto simp: regions_wf_def regions_def PROCESS_MAX_USER_REGIONS_def word_le_nat_alt min_def)

lemma add_user_region_spec:
  assumes wf: "regions_wf p"
  shows "case process_add_user_region (Some p) start sz of (p', r) \<Rightarrow>
    (if length (regions p) < 8 \<and> sz \<noteq> 0 \<and> unat start + unat sz < 2 ^ 64 \<and>
        (\<forall>q\<in>set (regions p). start + sz \<le> rg_start q \<or> rg_end q \<le> start)
     then r = OK \<and> (\<exists>p1. p' = Some p1 \<and> regions_wf p1 \<and>
       (\<exists>q. regions p1 = regions p @ [q] \<and> rg_start q = start \<and> rg_end q = start + sz \<and> rg_paddr q = 0 \<and> rg_flags q = 0) \<and>
       next_user_vaddr p1 = next_user_vaddr p)
     else r = ERR \<and> p' = Some p)"
proof (cases "length (regions p) = 8 \<or> user_region_end start sz = None")
  case True
  then show ?thesis
    using count_max [OF wf] user_region_end_None [of start sz]
    by (auto simp: process_add_user_region_def split: option.splits)
next
  case False
  then obtain e where e: "user_region_end start sz = Some e" by auto
  have len: "length (user_regions p) = 8" and c8: "unat (user_region_count p) \<le> 8"
    and lr: "length (regions p) = unat (user_region_count p)"
    using wf by (auto simp: regions_wf_def regions_def)
  with False have c: "unat (user_region_count p) < 8" by simp
  then have c1: "unat (user_region_count p + 1) = unat (user_region_count p) + 1"
    by (simp add: unat_plus_no_overflow)
  let ?n = "unat (user_region_count p)"
  let ?q = "(user_regions p ! ?n)\<lparr>rg_start := start, rg_end := e, rg_paddr := 0, rg_flags := 0\<rparr>"
  let ?p1 = "p\<lparr>user_regions := (user_regions p)[?n := ?q], user_region_count := user_region_count p + 1\<rparr>"
  let ?clash = "\<exists>q\<in>set (regions p). start < rg_end q \<and> e > rg_start q"
  have eq: "process_add_user_region (Some p) start sz = (if ?clash then (Some p, ERR) else (Some ?p1, OK))"
    using False count_max [OF wf] e bex_upt_regions [OF wf, of "\<lambda>r. start < rg_end r \<and> e > rg_start r"]
    by (simp add: process_add_user_region_def Let_def)
  have r1: "regions ?p1 = regions p @ [?q]"
    using c len c1 by (simp add: regions_def take_Suc_conv_app_nth)
  have es: "e = start + sz" "start < e"
    using e unat_region_end [OF e] by (auto simp: user_region_end_Some word_less_nat_alt unat_gt_0)
  have "regions_wf ?p1" if "\<not> ?clash"
    using wf that es c c1 unfolding regions_wf_def r1
    by (auto simp: sorted_wrt_append region_apart_def not_less)
  with eq r1 es c lr e show ?thesis
    by (auto simp: user_region_end_Some not_less not_le)
qed

lemma region_align_up_unat:
  assumes "unat v + 4095 < 2 ^ 64"
  shows "unat (region_align_up v USER_REGION_ALIGN) = (unat v + 4095) div 4096 * 4096"
proof -
  have "unat (v + 4095) = unat v + 4095" using assms by (simp add: unat_plus_no_overflow)
  then show ?thesis
    by (simp add: region_align_up_def USER_REGION_ALIGN_def unat_page_floor add_diff_eq [symmetric])
qed

lemma region_align_up_wraps:
  assumes "2 ^ 64 \<le> unat v + 4095" "v \<noteq> 0"
  shows "region_align_up v USER_REGION_ALIGN < v"
proof -
  have "unat (v + 4095) = unat v + 4095 - 2 ^ 64"
    using assms unat_u64_less [of v] by (simp add: unat_word_ariths mod_if)
  then have "unat (region_align_up v USER_REGION_ALIGN) \<le> unat v + 4095 - 2 ^ 64"
    by (simp add: region_align_up_def USER_REGION_ALIGN_def unat_page_floor add_diff_eq [symmetric])
  then show ?thesis using unat_u64_less [of v] assms by (simp add: word_less_nat_alt)
qed

lemma region_align_up_ge:
  assumes "\<not> region_align_up v USER_REGION_ALIGN < v"
  shows "unat v \<le> unat (region_align_up v USER_REGION_ALIGN)" "unat (region_align_up v USER_REGION_ALIGN) mod 4096 = 0"
    "unat (region_align_up v USER_REGION_ALIGN) < unat v + 4096"
proof -
  show "unat v \<le> unat (region_align_up v USER_REGION_ALIGN)" using assms by (simp add: word_less_nat_alt)
  show "unat (region_align_up v USER_REGION_ALIGN) mod 4096 = 0"
    by (simp add: region_align_up_def USER_REGION_ALIGN_def unat_page_floor)
  show "unat (region_align_up v USER_REGION_ALIGN) < unat v + 4096"
  proof (cases "unat v + 4095 < 2 ^ 64")
    case True
    have "(unat v + 4095) div 4096 * 4096 \<le> unat v + 4095" by simp
    then show ?thesis using region_align_up_unat [OF True] by simp
  next
    case False
    then show ?thesis using unat_u64_less [of "region_align_up v USER_REGION_ALIGN"] unat_u64_less [of v] by simp
  qed
qed

lemma alloc_user_region_spec:
  assumes wf: "regions_wf p" and al: "process_alloc_user_region (Some p) sz True = (p', a, r)"
  shows "(r = ERR \<and> p' = Some p \<and> a = 0) \<or>
    (r = OK \<and> a AND 4095 = 0 \<and> next_user_vaddr p \<le> a \<and>
     (\<exists>p1 q. p' = Some p1 \<and> regions_wf p1 \<and> regions p1 = regions p @ [q] \<and> rg_start q = a \<and>
        unat sz \<le> unat (rg_end q) - unat a \<and> unat (rg_end q) - unat a < unat sz + 4096 \<and>
        rg_end q \<le> PROCESS_USER_MMAP_LIMIT \<and> next_user_vaddr p1 = rg_end q))"
proof (cases "r = OK")
  case False
  with al show ?thesis
    using add_user_region_spec [OF wf, where start = "region_align_up (next_user_vaddr p) USER_REGION_ALIGN"
        and sz = "region_align_up sz USER_REGION_ALIGN"]
    by (auto simp: process_alloc_user_region_def Let_def split: if_splits option.splits prod.splits)
next
  case True
  let ?a = "region_align_up (next_user_vaddr p) USER_REGION_ALIGN" and ?s = "region_align_up sz USER_REGION_ALIGN"
  from True al obtain e p1 where g: "sz \<noteq> 0" "\<not> ?s < sz" "\<not> ?a < next_user_vaddr p"
    "user_region_end ?a ?s = Some e" "\<not> e > PROCESS_USER_MMAP_LIMIT"
    "process_add_user_region (Some p) ?a ?s = (Some p1, 0)" "p' = Some (p1\<lparr>next_user_vaddr := e\<rparr>)" "a = ?a"
    by (auto simp: process_alloc_user_region_def Let_def split: if_splits option.splits prod.splits)
  from add_user_region_spec [OF wf, where start = ?a and sz = ?s] g(6) obtain q where q: "regions_wf p1" "regions p1 = regions p @ [q]"
    "rg_start q = ?a" "rg_end q = ?a + ?s"
    by (auto split: if_splits)
  have e: "e = ?a + ?s" "unat e = unat ?a + unat ?s"
    using g(4) unat_region_end [OF g(4)] by (auto simp: user_region_end_Some)
  have r: "regions (p1\<lparr>next_user_vaddr := e\<rparr>) = regions p1" "regions_wf (p1\<lparr>next_user_vaddr := e\<rparr>)"
    using q(1) by (simp_all add: regions_def regions_wf_def)
  show ?thesis
    using True g q e r region_align_up_ge [OF g(2)] region_align_up_ge [OF g(3)]
    by (auto simp: page_aligned_iff not_less word_le_nat_alt)
qed

lemma region_index_spec:
  assumes "regions_wf p"
  shows "region_index p s e = Some i \<Longrightarrow>
      i < length (regions p) \<and> rg_start (regions p ! i) = s \<and> rg_end (regions p ! i) = e \<and>
      user_regions p ! i = regions p ! i"
    "region_index p s e = None \<longleftrightarrow> (\<forall>r\<in>set (regions p). rg_start r \<noteq> s \<or> rg_end r \<noteq> e)"
proof -
  have len: "length (regions p) = unat (user_region_count p)"
    "\<And>j. j < unat (user_region_count p) \<Longrightarrow> user_regions p ! j = regions p ! j"
    using assms by (auto simp: regions_wf_def regions_def)
  show "region_index p s e = Some i \<Longrightarrow>
      i < length (regions p) \<and> rg_start (regions p ! i) = s \<and> rg_end (regions p ! i) = e \<and>
      user_regions p ! i = regions p ! i"
    using len by (auto simp: region_index_def find_Some_iff)
  show "region_index p s e = None \<longleftrightarrow> (\<forall>r\<in>set (regions p). rg_start r \<noteq> s \<or> rg_end r \<noteq> e)"
    using bex_upt_regions [OF assms, of "\<lambda>r. rg_start r = s \<and> rg_end r = e"]
    by (auto simp: region_index_def find_None_iff)
qed

lemma sorted_wrt_update:
  "sorted_wrt P xs \<Longrightarrow> i < length xs \<Longrightarrow> (\<And>y. P y x \<longleftrightarrow> P y (xs ! i)) \<Longrightarrow> (\<And>y. P x y \<longleftrightarrow> P (xs ! i) y) \<Longrightarrow>
   sorted_wrt P (xs[i := x])"
  by (auto simp: sorted_wrt_iff_nth_less nth_list_update)

lemma set_user_region_mapping_spec:
  assumes wf: "regions_wf p" and m: "process_set_user_region_mapping (Some p) start sz paddr flags = (p', r)"
  shows "(r = ERR \<and> p' = Some p \<and>
      (sz = 0 \<or> 2 ^ 64 \<le> unat start + unat sz \<or> (\<forall>q\<in>set (regions p). rg_start q \<noteq> start \<or> rg_end q \<noteq> start + sz))) \<or>
    (r = OK \<and> sz \<noteq> 0 \<and> unat start + unat sz < 2 ^ 64 \<and> (\<exists>p1 i. p' = Some p1 \<and> regions_wf p1 \<and> i < length (regions p) \<and>
     rg_start (regions p ! i) = start \<and> rg_end (regions p ! i) = start + sz \<and>
     regions p1 = (regions p)[i := (regions p ! i)\<lparr>rg_paddr := paddr, rg_flags := flags\<rparr>]))"
proof (cases "r = OK")
  case False
  with m show ?thesis
    using region_index_spec(2) [OF wf, of start "start + sz"] user_region_end_None [of start sz]
    by (auto simp: process_set_user_region_mapping_def user_region_end_Some split: option.splits)
next
  case True
  with m obtain e i where e: "user_region_end start sz = Some e" "region_index p start e = Some i"
    "p' = Some (p\<lparr>user_regions := (user_regions p)[i := (user_regions p ! i)\<lparr>rg_paddr := paddr, rg_flags := flags\<rparr>]\<rparr>)"
    by (auto simp: process_set_user_region_mapping_def split: option.splits)
  note i = region_index_spec(1) [OF wf e(2)]
  let ?q = "(regions p ! i)\<lparr>rg_paddr := paddr, rg_flags := flags\<rparr>"
  let ?p1 = "p\<lparr>user_regions := (user_regions p)[i := ?q]\<rparr>"
  have r1: "regions ?p1 = (regions p)[i := ?q]" by (simp add: regions_def take_update_swap)
  have "sorted_wrt region_apart ((regions p)[i := ?q])"
    by (rule sorted_wrt_update) (use wf i in \<open>auto simp: regions_wf_def region_apart_def\<close>)
  moreover have "\<forall>r\<in>set ((regions p)[i := ?q]). rg_start r < rg_end r"
    using wf i set_update_subset_insert [of "regions p" i ?q] by (auto simp: regions_wf_def)
  ultimately have "regions_wf ?p1" using wf unfolding regions_wf_def r1 by simp
  with True e i r1 show ?thesis by (auto simp: user_region_end_Some)
qed


lemma fold_shift:
  "i < n \<Longrightarrow> n \<le> length xs \<Longrightarrow>
   fold (\<lambda>j rs. rs[j - 1 := rs ! j]) [i + 1..<n] xs =
     take i xs @ drop (Suc i) (take n xs) @ drop (n - 1) xs"
proof (induction n)
  case (Suc n)
  show ?case
  proof (cases "i = n")
    case True
    with Suc.prems show ?thesis by (simp add: id_take_nth_drop [symmetric])
  next
    case False
    with Suc.prems have n: "i < n" "n \<le> length xs" "n < length xs" by simp_all
    have d: "drop (n - 1) xs = xs ! (n - 1) # xs ! n # drop (Suc n) xs"
      using n Cons_nth_drop_Suc [of "n - 1" xs] Cons_nth_drop_Suc [of n xs] by simp
    define A where "A = take i xs @ drop (Suc i) (take n xs)"
    have A: "length A = n - 1" using n by (simp add: A_def)
    have f: "fold (\<lambda>j rs. rs[j - 1 := rs ! j]) [i + 1..<n] xs = A @ xs ! (n - 1) # xs ! n # drop (Suc n) xs"
      using Suc.IH n d by (simp add: A_def)
    have "(A @ xs ! (n - 1) # xs ! n # drop (Suc n) xs) ! n = xs ! n"
      using A n by (auto simp: nth_append nth_Cons')
    moreover have "(A @ xs ! (n - 1) # xs ! n # drop (Suc n) xs)[n - 1 := xs ! n] =
        A @ xs ! n # xs ! n # drop (Suc n) xs"
      using A by (simp add: list_update_append)
    ultimately have "fold (\<lambda>j rs. rs[j - 1 := rs ! j]) [i + 1..<Suc n] xs = A @ xs ! n # xs ! n # drop (Suc n) xs"
      using n f by (simp add: upt_Suc_append)
    also have "\<dots> = take i xs @ drop (Suc i) (take (Suc n) xs) @ drop (Suc n - 1) xs"
      using n Cons_nth_drop_Suc [of n xs] by (simp add: A_def take_Suc_conv_app_nth)
    finally show ?thesis .
  qed
qed simp

lemma remove_user_region_spec:
  assumes wf: "regions_wf p" and m: "process_remove_user_region_info (Some p) start sz out = (p', out', r)"
  shows "(r = ERR \<and> p' = Some p \<and> out' = out \<and>
      (sz = 0 \<or> 2 ^ 64 \<le> unat start + unat sz \<or> (\<forall>q\<in>set (regions p). rg_start q \<noteq> start \<or> rg_end q \<noteq> start + sz))) \<or>
    (r = OK \<and> (\<exists>p1 i. p' = Some p1 \<and> regions_wf p1 \<and> i < length (regions p) \<and>
     rg_start (regions p ! i) = start \<and> rg_end (regions p ! i) = start + sz \<and>
     regions p1 = take i (regions p) @ drop (Suc i) (regions p) \<and>
     out' = map_option (\<lambda>o'. region_copy o' (regions p ! i)) out))"
proof (cases "r = OK")
  case False
  with m show ?thesis
    using region_index_spec(2) [OF wf, of start "start + sz"] user_region_end_None [of start sz]
    by (auto simp: process_remove_user_region_info_def user_region_end_Some Let_def split: option.splits)
next
  case True
  with m obtain e i where e: "user_region_end start sz = Some e" "region_index p start e = Some i"
    by (auto simp: process_remove_user_region_info_def split: option.splits)
  note i = region_index_spec(1) [OF wf e(2)]
  let ?n = "unat (user_region_count p)"
  let ?sh = "fold (\<lambda>j rs. rs[j - 1 := rs ! j]) [i + 1..<?n] (user_regions p)"
  let ?p1 = "p\<lparr>user_regions := ?sh[?n - 1 := region_clear (?sh ! (?n - 1))], user_region_count := user_region_count p - 1\<rparr>"
  have n: "i < ?n" "?n \<le> 8" "length (user_regions p) = 8"
    using i wf by (auto simp: regions_wf_def regions_def)
  have c1: "unat (user_region_count p - 1) = ?n - 1"
    using n by (subst unat_minus_no_underflow) (simp_all add: word_le_nat_alt)
  have sh: "?sh = take i (user_regions p) @ drop (Suc i) (take ?n (user_regions p)) @ drop (?n - 1) (user_regions p)"
    using n by (intro fold_shift) simp_all
  have l: "length (take i (user_regions p) @ drop (Suc i) (take ?n (user_regions p))) = ?n - 1"
    using n by simp
  have "regions ?p1 = take (?n - 1) ?sh"
    using c1 by (simp add: regions_def)
  also have "\<dots> = take i (user_regions p) @ drop (Suc i) (take ?n (user_regions p))"
    unfolding sh append_assoc [symmetric] using l by (metis append_eq_conv_conj)
  also have "\<dots> = take i (regions p) @ drop (Suc i) (regions p)"
    using n by (simp add: regions_def min_def)
  finally have r1: "regions ?p1 = take i (regions p) @ drop (Suc i) (regions p)" .
  have split: "regions p = take i (regions p) @ regions p ! i # drop (Suc i) (regions p)"
    using i by (simp add: id_take_nth_drop [symmetric])
  have "sorted_wrt region_apart (take i (regions p) @ regions p ! i # drop (Suc i) (regions p))"
    using wf unfolding split [symmetric] by (simp add: regions_wf_def)
  then have "sorted_wrt region_apart (take i (regions p) @ drop (Suc i) (regions p))"
    by (auto simp: sorted_wrt_append)
  moreover have "set (take i (regions p) @ drop (Suc i) (regions p)) \<subseteq> set (regions p)"
    by (auto dest: in_set_takeD in_set_dropD)
  moreover have "length ?sh = 8" using sh n by simp
  ultimately have "regions_wf ?p1"
    using wf n c1 unfolding regions_wf_def r1 by auto
  moreover have "p' = Some ?p1" "out' = map_option (\<lambda>o'. region_copy o' (regions p ! i)) out"
    using m e i by (simp_all add: process_remove_user_region_info_def Let_def)
  ultimately show ?thesis using True i e r1 by (auto simp: user_region_end_Some)
qed

lemma user_range_contains_iff:
  assumes "regions_wf p"
  shows "process_user_range_contains (Some p) start sz \<longleftrightarrow>
    sz = 0 \<or> (\<exists>r\<in>set (regions p). unat (rg_start r) \<le> unat start \<and> unat start + unat sz \<le> unat (rg_end r))"
proof (cases "user_region_end start sz")
  case None
  then have big: "sz = 0 \<or> 2 ^ 64 \<le> unat start + unat sz" by (simp add: user_region_end_None)
  have "\<not> unat start + unat sz \<le> unat (rg_end r)" if "sz \<noteq> 0" for r
    using big that unat_u64_less [of "rg_end r"] by simp
  with None show ?thesis by (auto simp: process_user_range_contains_def)
next
  case (Some e)
  then have nz: "sz \<noteq> 0" by (simp add: user_region_end_Some)
  have "process_user_range_contains (Some p) start sz \<longleftrightarrow>
      (\<exists>r\<in>set (regions p). start \<ge> rg_start r \<and> e \<le> rg_end r)"
    using nz Some bex_upt_regions [OF assms, of "\<lambda>r. start \<ge> rg_start r \<and> e \<le> rg_end r"]
    by (simp add: process_user_range_contains_def)
  with nz unat_region_end [OF Some] show ?thesis by (simp add: word_le_nat_alt)
qed

section \<open>The process table\<close>

definition proc_wf :: "process \<Rightarrow> bool" where
  "proc_wf p \<longleftrightarrow> regions_wf p \<and> length (regs p) = 31 \<and> length (name_storage p) = 16"

abbreviation live :: "ptable \<Rightarrow> nat \<Rightarrow> bool" where
  "live t i \<equiv> state (g_processes t i) \<noteq> PROCESS_UNUSED"

definition pt_inv :: "ptable \<Rightarrow> bool" where
  "pt_inv t \<longleftrightarrow>
     (\<forall>i<16. proc_wf (g_processes t i) \<and> (live t i \<longrightarrow> pid (g_processes t i) \<noteq> 0)) \<and>
     (\<forall>i<16. \<forall>j<16. live t i \<longrightarrow> live t j \<longrightarrow> pid (g_processes t i) = pid (g_processes t j) \<longrightarrow> i = j) \<and>
     unat (g_process_count t) = card {i. i < 16 \<and> live t i} \<and>
     (\<forall>c. g_current_process t = Some c \<longrightarrow> c < 16 \<and> live t c)"

lemma card_table_le: "card {i::nat. i < 16 \<and> P i} \<le> 16"
proof -
  have "card {i::nat. i < 16 \<and> P i} \<le> card {..<16::nat}" by (rule card_mono) auto
  then show ?thesis by simp
qed

lemma pt_invI:
  assumes "\<And>i. i < 16 \<Longrightarrow> proc_wf (g_processes t i)"
    "\<And>i. i < 16 \<Longrightarrow> live t i \<Longrightarrow> pid (g_processes t i) \<noteq> 0"
    "\<And>i j. i < 16 \<Longrightarrow> j < 16 \<Longrightarrow> live t i \<Longrightarrow> live t j \<Longrightarrow> pid (g_processes t i) = pid (g_processes t j) \<Longrightarrow> i = j"
    "unat (g_process_count t) = card {i. i < 16 \<and> live t i}"
    "\<And>c. g_current_process t = Some c \<Longrightarrow> c < 16 \<and> live t c"
  shows "pt_inv t"
  unfolding pt_inv_def using assms by blast

lemma pt_invD:
  assumes "pt_inv t"
  shows "i < 16 \<Longrightarrow> proc_wf (g_processes t i)" "i < 16 \<Longrightarrow> live t i \<Longrightarrow> pid (g_processes t i) \<noteq> 0"
    "i < 16 \<Longrightarrow> j < 16 \<Longrightarrow> live t i \<Longrightarrow> live t j \<Longrightarrow> pid (g_processes t i) = pid (g_processes t j) \<Longrightarrow> i = j"
    "unat (g_process_count t) = card {i. i < 16 \<and> live t i}"
    "g_current_process t = Some c \<Longrightarrow> c < 16 \<and> live t c"
  using assms unfolding pt_inv_def by blast+

lemma regions_empty: "user_region_count p = 0 \<Longrightarrow> regions p = []"
  by (simp add: regions_def)

lemma length_fold_update: "length (fold (\<lambda>i d. d[i := f i d]) xs d) = length d"
  by (induction xs arbitrary: d) simp_all

lemma process_copy_name_fields [simp]:
  "user_regions (process_copy_name p n) = user_regions p" "regs (process_copy_name p n) = regs p"
  "pid (process_copy_name p n) = pid p" "parent_pid (process_copy_name p n) = parent_pid p"
  "length (name_storage (process_copy_name p n)) = length (name_storage p)"
  by (auto simp: process_copy_name_def Let_def length_fold_update split: option.splits)

lemma process_init_fields [simp]:
  "state (process_init i n p) = PROCESS_READY" "pid (process_init i n p) = i"
  "parent_pid (process_init i n p) = 0" "page_table (process_init i n p) = 0"
  "user_region_count (process_init i n p) = 0" "next_user_vaddr (process_init i n p) = PROCESS_USER_MMAP_BASE"
  by (simp_all add: process_init_def)

lemma process_init_wf:
  "length (user_regions p) = 8 \<Longrightarrow> length (regs p) = 31 \<Longrightarrow> length (name_storage p) = 16 \<Longrightarrow> proc_wf (process_init i n p)"
  by (simp add: proc_wf_def regions_wf_def regions_empty) (simp add: process_init_def length_fold_update)

lemma proc_wf_lengths:
  "proc_wf p \<Longrightarrow> length (user_regions p) = 8 \<and> length (regs p) = 31 \<and> length (name_storage p) = 16"
  by (simp add: proc_wf_def regions_wf_def)

lemma proc_wf_state [simp]: "proc_wf (p\<lparr>state := st\<rparr>) = proc_wf p" "proc_wf (p\<lparr>exit_code := c\<rparr>) = proc_wf p"
  "proc_wf (p\<lparr>exit_code := c, state := st\<rparr>) = proc_wf p"
  by (simp_all add: proc_wf_def regions_wf_def regions_def)

lemma free_region_at_fields:
  "free_region_at i (p, s) = (p', s') \<Longrightarrow> length (user_regions p') = length (user_regions p) \<and>
     regs p' = regs p \<and> name_storage p' = name_storage p \<and> user_region_count p' = user_region_count p \<and>
     page_table p' = page_table p \<and> state p' = state p \<and> pid p' = pid p"
  by (auto simp: free_region_at_def Let_def split: if_splits)

lemma fold_free_region_fields:
  "fold free_region_at xs (p, s) = (p', s') \<Longrightarrow> length (user_regions p') = length (user_regions p) \<and>
     regs p' = regs p \<and> name_storage p' = name_storage p \<and> user_region_count p' = user_region_count p \<and>
     page_table p' = page_table p \<and> state p' = state p \<and> pid p' = pid p"
proof (induction xs arbitrary: p s)
  case (Cons x xs)
  obtain p1 s1 where 1: "free_region_at x (p, s) = (p1, s1)" by fastforce
  with Cons.prems have "fold free_region_at xs (p1, s1) = (p', s')" by simp
  from Cons.IH [OF this] free_region_at_fields [OF 1] show ?case by simp
qed simp

lemma free_resources_fields:
  "process_free_resources p s = (p', s') \<Longrightarrow> length (user_regions p') = length (user_regions p) \<and>
     regs p' = regs p \<and> name_storage p' = name_storage p \<and> user_region_count p' = user_region_count p \<and>
     page_table p' = 0 \<and> state p' = state p \<and> pid p' = pid p"
  using fold_free_region_fields [of _ p s]
  by (fastforce simp: process_free_resources_def split: prod.splits if_splits)

text \<open>What the table sees of a release.\<close>

lemma process_release_table:
  assumes inv: "pt_inv t" and i: "i < 16"
  shows "case process_release (Some i) (t, s) of (t', s') \<Rightarrow>
    pt_inv t' \<and> \<not> live t' i \<and> (\<forall>j. j \<noteq> i \<longrightarrow> g_processes t' j = g_processes t j) \<and>
    g_current_process t' = (if g_current_process t = Some i then None else g_current_process t)"
proof (cases "state (g_processes t i) = PROCESS_UNUSED \<and> page_table (g_processes t i) = 0 \<and>
    user_region_count (g_processes t i) = 0")
  case True
  then have "process_release (Some i) (t, s) = (t, s)" by (simp add: process_release_def)
  with True inv pt_invD(5) [OF inv, of i] show ?thesis by auto
next
  case False
  obtain p1 s1 where f: "process_free_resources (g_processes t i) s = (p1, s1)" by fastforce
  note ff = free_resources_fields [OF f]
  let ?p = "(process_init 0 None p1)\<lparr>state := PROCESS_UNUSED\<rparr>"
  obtain t' s' where r: "process_release (Some i) (t, s) = (t', s')" by fastforce
  have cnt: "g_process_count t' = (if live t i \<and> g_process_count t > 0 then g_process_count t - 1 else g_process_count t)"
    and procs: "g_processes t' = (g_processes t)(i := ?p)"
    and cur: "g_current_process t' = (if g_current_process t = Some i then None else g_current_process t)"
    using r False f i
    by (auto simp: process_release_def Let_def set_process_def process_in_table_def PROCESS_MAX_PROCESSES_def
        split: if_splits)
  have wf: "proc_wf ?p" using ff proc_wf_lengths [OF pt_invD(1) [OF inv i]] by (simp add: process_init_wf)
  have lv: "live t' j \<longleftrightarrow> j \<noteq> i \<and> live t j" for j by (simp add: procs)
  have set: "{j. j < 16 \<and> live t' j} = {j. j < 16 \<and> live t j} - {i}" unfolding lv by auto
  have "unat (g_process_count t') = card {j. j < 16 \<and> live t' j}"
  proof (cases "live t i")
    case True
    with i have m: "i \<in> {j. j < 16 \<and> live t j}" by simp
    then have pos: "card {j. j < 16 \<and> live t j} > 0" by (intro card_gt_0_iff [THEN iffD2]) auto
    have "0 < g_process_count t" using pt_invD(4) [OF inv] pos by (simp add: word_less_nat_alt)
    then show ?thesis
      using cnt True pt_invD(4) [OF inv] m pos
      by (simp add: set card_Diff_singleton unat_minus_no_underflow word_le_nat_alt word_less_nat_alt)
  next
    case False
    then have "{j. j < 16 \<and> live t j} - {i} = {j. j < 16 \<and> live t j}" by auto
    then show ?thesis using cnt False pt_invD(4) [OF inv] by (simp add: set)
  qed
  then have "pt_inv t'"
    by (intro pt_invI) (use pt_invD [OF inv] wf cur lv in \<open>auto simp: procs split: if_splits\<close>)
  with procs cur r show ?thesis by simp
qed

lemma process_find_iff:
  assumes "pt_inv t" "n \<noteq> 0"
  shows "process_find n t = Some i \<longleftrightarrow> i < 16 \<and> live t i \<and> pid (g_processes t i) = n"
    "process_find n t = None \<longleftrightarrow> (\<forall>i<16. live t i \<longrightarrow> pid (g_processes t i) \<noteq> n)"
proof -
  show none: "process_find n t = None \<longleftrightarrow> (\<forall>i<16. live t i \<longrightarrow> pid (g_processes t i) \<noteq> n)"
    using assms(2) by (auto simp: process_find_def PROCESS_MAX_PROCESSES_def find_None_iff)
  have "j < 16 \<and> live t j \<and> pid (g_processes t j) = n" if "process_find n t = Some j" for j
    using that by (auto simp: process_find_def PROCESS_MAX_PROCESSES_def find_Some_iff split: if_splits)
  with none pt_invD(3) [OF assms(1)]
  show "process_find n t = Some i \<longleftrightarrow> i < 16 \<and> live t i \<and> pid (g_processes t i) = n"
    by (metis not_None_eq)
qed

lemma process_find_Some: "process_find n t = Some i \<Longrightarrow> n \<noteq> 0 \<and> i < 16 \<and> live t i \<and> pid (g_processes t i) = n"
  by (auto simp: process_find_def PROCESS_MAX_PROCESSES_def find_Some_iff split: if_splits)

lemma process_alloc_spec:
  assumes inv: "pt_inv t" and a: "process_alloc n name t = (t', r)"
  shows "case r of
     None \<Rightarrow> t' = t \<and> (n = 0 \<or> process_find n t \<noteq> None \<or> (\<forall>i<16. live t i))
   | Some i \<Rightarrow> n \<noteq> 0 \<and> process_find n t = None \<and> i < 16 \<and> \<not> live t i \<and> pt_inv t' \<and>
       state (g_processes t' i) = PROCESS_READY \<and> pid (g_processes t' i) = n \<and>
       (\<forall>j. j \<noteq> i \<longrightarrow> g_processes t' j = g_processes t j) \<and> g_current_process t' = g_current_process t"
proof (cases r)
  case None
  with a show ?thesis
    by (auto simp: process_alloc_def find_None_iff PROCESS_MAX_PROCESSES_def split: if_splits option.splits)
next
  case (Some i)
  with a have g: "n \<noteq> 0" "process_find n t = None"
    "find (\<lambda>i. state (g_processes t i) = PROCESS_UNUSED) [0..<PROCESS_MAX_PROCESSES] = Some i"
    "t' = (set_process i (process_init n name (g_processes t i)) t)\<lparr>g_process_count := g_process_count t + 1\<rparr>"
    by (auto simp: process_alloc_def split: if_splits option.splits)
  then have i: "i < 16" "\<not> live t i" by (auto simp: find_Some_iff PROCESS_MAX_PROCESSES_def)
  let ?p = "process_init n name (g_processes t i)"
  have procs: "g_processes t' = (g_processes t)(i := ?p)" and cur: "g_current_process t' = g_current_process t"
    by (simp_all add: g(4) set_process_def)
  have wf: "proc_wf ?p" using proc_wf_lengths [OF pt_invD(1) [OF inv i(1)]] by (simp add: process_init_wf)
  have lv: "live t' j \<longleftrightarrow> j = i \<or> live t j" for j by (simp add: procs)
  have set: "{j. j < 16 \<and> live t' j} = insert i {j. j < 16 \<and> live t j}" unfolding lv using i by auto
  have "unat (g_process_count t') = card {j. j < 16 \<and> live t' j}"
  proof -
    have "unat (g_process_count t) \<le> 16" using pt_invD(4) [OF inv] card_table_le [of "live t"] by simp
    then have "unat (g_process_count t') = unat (g_process_count t) + 1"
      by (simp add: g(4) unat_plus_no_overflow)
    then show ?thesis using set i pt_invD(4) [OF inv] by simp
  qed
  moreover have "\<forall>j<16. live t j \<longrightarrow> pid (g_processes t j) \<noteq> n"
    using process_find_iff(2) [OF inv g(1)] g(2) by simp
  ultimately have "pt_inv t'"
    by (intro pt_invI) (use pt_invD [OF inv] wf cur lv g(1) in \<open>auto simp: procs split: if_splits\<close>)
  with Some g i procs cur show ?thesis by simp
qed

text \<open>Changing the state of one live entry to another live state keeps the invariant.\<close>

lemma pt_inv_set_state:
  assumes inv: "pt_inv t" and i: "i < 16" "live t i" and p: "state p \<noteq> PROCESS_UNUSED" "pid p = pid (g_processes t i)" "proc_wf p"
    and t': "g_processes t' = (g_processes t)(i := p)" "g_process_count t' = g_process_count t"
      "g_current_process t' = g_current_process t \<or> g_current_process t' = Some i"
  shows "pt_inv t'"
proof -
  have lv: "live t' j = live t j" for j using i p by (simp add: t')
  show ?thesis
    by (intro pt_invI) (use pt_invD [OF inv] p i lv t' in \<open>auto split: if_splits\<close>)
qed

lemma mark_exited_spec:
  assumes inv: "pt_inv t" and i: "i < 16" "live t i"
    and m: "process_mark_exited ca dw (Some i) code (t, w) = (t', w')"
  shows "pt_inv t'" "state (g_processes t' i) = PROCESS_ZOMBIE" "pid (g_processes t' i) = pid (g_processes t i)"
    "j \<noteq> i \<Longrightarrow> g_processes t' j = g_processes t j" "g_current_process t' = g_current_process t"
proof -
  let ?p = "(g_processes t i)\<lparr>exit_code := code, state := PROCESS_ZOMBIE\<rparr>"
  have "t' = t \<and> state (g_processes t i) = PROCESS_ZOMBIE \<or> t' = set_process i ?p t"
    using m by (auto simp: process_mark_exited_def Let_def split: if_splits)
  then show "pt_inv t'" "state (g_processes t' i) = PROCESS_ZOMBIE" "pid (g_processes t' i) = pid (g_processes t i)"
    "j \<noteq> i \<Longrightarrow> g_processes t' j = g_processes t j" "g_current_process t' = g_current_process t"
    using inv i pt_invD(1) [OF inv i(1)] pt_inv_set_state [OF inv i, of ?p]
    by (auto simp: set_process_def)
qed

end
