(* ===== verification/Vfs.thy ===== *)
theory Vfs
  imports Vfs_Path Process
begin

text \<open>
  The virtual filesystem (\<open>src/kernel/vfs.c\<close>): the tables of static nodes, mounts and open
  files, and every operation on them.  A function pointer stored in a table is an opaque
  code, and the record \<open>vfs_callbacks\<close> says what calling it does: a callback may read and
  change the rest of the kernel state \<open>'w\<close> and the VFS tables themselves, as the \<open>open\<close>
  callback of a disk filesystem does when it registers a node.
\<close>

section \<open>State\<close>

definition VFS_MAX_NODES :: nat where "VFS_MAX_NODES = 24"
definition VFS_MAX_MOUNTS :: nat where "VFS_MAX_MOUNTS = 4"
definition VFS_MAX_OPEN_FILES :: nat where "VFS_MAX_OPEN_FILES = 8"
definition VFS_MAX_GLOBAL_OPEN_FILES :: nat where "VFS_MAX_GLOBAL_OPEN_FILES = VFS_MAX_OPEN_FILES * 16"
definition VFS_NAME_MAX :: nat where "VFS_NAME_MAX = 64"
definition VFS_FILESYSTEM_NAME_MAX :: nat where "VFS_FILESYSTEM_NAME_MAX = 16"
definition VFS_READDIR_MAX_ENTRIES :: u64 where "VFS_READDIR_MAX_ENTRIES = 8"
definition VFS_STRUCTURED_SCAN_LIMIT :: nat where "VFS_STRUCTURED_SCAN_LIMIT = 4096"

definition VFS_O_RDONLY :: u32 where "VFS_O_RDONLY = 0"
definition VFS_O_WRONLY :: u32 where "VFS_O_WRONLY = 1"
definition VFS_O_RDWR :: u32 where "VFS_O_RDWR = 2"
definition VFS_O_ACCMODE :: u32 where "VFS_O_ACCMODE = 3"
definition VFS_O_CREAT :: u32 where "VFS_O_CREAT = 0x40"
definition VFS_O_ALLOWED :: u32 where "VFS_O_ALLOWED = VFS_O_ACCMODE OR VFS_O_CREAT"

definition VFS_FILE_TYPE_UNKNOWN :: u32 where "VFS_FILE_TYPE_UNKNOWN = 0"
definition VFS_FILE_TYPE_REGULAR :: u32 where "VFS_FILE_TYPE_REGULAR = 1"
definition VFS_FILE_TYPE_DIRECTORY :: u32 where "VFS_FILE_TYPE_DIRECTORY = 2"

definition VFS_FS_FLAG_READ_ONLY :: u32 where "VFS_FS_FLAG_READ_ONLY = 0x01"
definition VFS_FS_FLAG_DIRECTORIES :: u32 where "VFS_FS_FLAG_DIRECTORIES = 0x02"
definition VFS_FS_FLAG_LONG_NAMES :: u32 where "VFS_FS_FLAG_LONG_NAMES = 0x04"
definition VFS_FS_FLAG_FLUSH :: u32 where "VFS_FS_FLAG_FLUSH = 0x08"
definition VFS_FS_FLAG_TRUNCATE :: u32 where "VFS_FS_FLAG_TRUNCATE = 0x10"
definition VFS_FS_FLAG_FREE_BYTES_VALID :: u32 where "VFS_FS_FLAG_FREE_BYTES_VALID = 0x20"

text \<open>The public error codes of \<open>abi/errors.h\<close> the filesystem layer returns.\<close>

definition ARMONIOS_ERR_NOENT :: int where "ARMONIOS_ERR_NOENT = -3"
definition ARMONIOS_ERR_INVAL :: int where "ARMONIOS_ERR_INVAL = -7"
definition ARMONIOS_ERR_NOTSUP :: int where "ARMONIOS_ERR_NOTSUP = -20"
definition ARMONIOS_ERR_RANGE :: int where "ARMONIOS_ERR_RANGE = -21"

type_synonym fnptr = nat
type_synonym ctxptr = nat

record vfs_metadata_t =
  md_size :: u64
  md_type :: u32
  md_attributes :: u32

record vfs_dirent =
  de_name :: string
  de_metadata :: vfs_metadata_t

record vfs_fsinfo_t =
  fi_total_bytes :: u64
  fi_free_bytes :: u64
  fi_block_size :: u32
  fi_max_name_length :: u32
  fi_max_path_length :: u32
  fi_flags :: u32
  fi_filesystem :: string

record vfs_node =
  nd_path :: cstr
  nd_size :: u64
  nd_read :: "fnptr option"
  nd_write :: "fnptr option"
  nd_stat :: "fnptr option"
  nd_context :: "ctxptr option"

record vfs_mount_ops =
  mo_open :: "fnptr option"
  mo_read_path :: "fnptr option"
  mo_list :: "fnptr option"
  mo_stat_path :: "fnptr option"
  mo_list_path :: "fnptr option"
  mo_metadata_path :: "fnptr option"
  mo_readdir_path :: "fnptr option"
  mo_fsinfo :: "fnptr option"
  mo_unlink :: "fnptr option"
  mo_rename :: "fnptr option"

record vfs_mount_t =
  mt_path :: string
  mt_ops :: vfs_mount_ops
  mt_context :: "ctxptr option"
  mt_used :: u8

record vfs_open_file =
  of_node :: "nat option"
  of_offset :: u64
  of_flags :: u32
  of_owner_pid :: u32
  of_local_fd :: u32
  of_used :: u8

record vfs =
  g_vfs_nodes :: "vfs_node list"
  g_vfs_paths :: "string list"
  g_vfs_node_count :: u32
  g_mounts :: "vfs_mount_t list"
  g_open_files :: "vfs_open_file list"

text \<open>What a call through a stored function pointer does.  A read or list callback gets the
  caller's buffer and returns it filled, with the byte count and the status; the VFS always
  passes a count of zero in.\<close>

record 'w vfs_callbacks =
  cb_read :: "fnptr \<Rightarrow> ctxptr option \<Rightarrow> u64 \<Rightarrow> u8 list \<Rightarrow> u64 \<Rightarrow> vfs \<times> 'w \<Rightarrow> (vfs \<times> 'w) \<times> u8 list \<times> u64 \<times> int"
  cb_write :: "fnptr \<Rightarrow> ctxptr option \<Rightarrow> u64 \<Rightarrow> u8 list \<Rightarrow> u64 \<Rightarrow> vfs \<times> 'w \<Rightarrow> (vfs \<times> 'w) \<times> u64 \<times> int"
  cb_stat :: "fnptr \<Rightarrow> ctxptr option \<Rightarrow> vfs \<times> 'w \<Rightarrow> (vfs \<times> 'w) \<times> u64 \<times> int"
  cb_open :: "fnptr \<Rightarrow> ctxptr option \<Rightarrow> string \<Rightarrow> u32 \<Rightarrow> vfs \<times> 'w \<Rightarrow> (vfs \<times> 'w) \<times> int"
  cb_read_path :: "fnptr \<Rightarrow> ctxptr option \<Rightarrow> string \<Rightarrow> u64 \<Rightarrow> u8 list \<Rightarrow> u64 \<Rightarrow> vfs \<times> 'w \<Rightarrow>
    (vfs \<times> 'w) \<times> u8 list \<times> u64 \<times> int"
  cb_list :: "fnptr \<Rightarrow> ctxptr option \<Rightarrow> u64 \<Rightarrow> u8 list \<Rightarrow> u64 \<Rightarrow> vfs \<times> 'w \<Rightarrow> (vfs \<times> 'w) \<times> u8 list \<times> u64 \<times> int"
  cb_stat_path :: "fnptr \<Rightarrow> ctxptr option \<Rightarrow> string \<Rightarrow> vfs \<times> 'w \<Rightarrow> (vfs \<times> 'w) \<times> u64 \<times> int"
  cb_list_path :: "fnptr \<Rightarrow> ctxptr option \<Rightarrow> string \<Rightarrow> u64 \<Rightarrow> u8 list \<Rightarrow> u64 \<Rightarrow> vfs \<times> 'w \<Rightarrow>
    (vfs \<times> 'w) \<times> u8 list \<times> u64 \<times> int"
  cb_metadata_path :: "fnptr \<Rightarrow> ctxptr option \<Rightarrow> string \<Rightarrow> vfs_metadata_t \<Rightarrow> vfs \<times> 'w \<Rightarrow> (vfs \<times> 'w) \<times> vfs_metadata_t \<times> int"
  cb_readdir_path :: "fnptr \<Rightarrow> ctxptr option \<Rightarrow> string \<Rightarrow> u64 \<Rightarrow> vfs_dirent list \<Rightarrow> u64 \<Rightarrow> vfs \<times> 'w \<Rightarrow>
    (vfs \<times> 'w) \<times> vfs_dirent list \<times> u64 \<times> int"
  cb_fsinfo :: "fnptr \<Rightarrow> ctxptr option \<Rightarrow> string \<Rightarrow> vfs_fsinfo_t \<Rightarrow> vfs \<times> 'w \<Rightarrow> (vfs \<times> 'w) \<times> vfs_fsinfo_t \<times> int"
  cb_unlink :: "fnptr \<Rightarrow> ctxptr option \<Rightarrow> string \<Rightarrow> vfs \<times> 'w \<Rightarrow> (vfs \<times> 'w) \<times> int"
  cb_rename :: "fnptr \<Rightarrow> ctxptr option \<Rightarrow> string \<Rightarrow> string \<Rightarrow> vfs \<times> 'w \<Rightarrow> (vfs \<times> 'w) \<times> int"

section \<open>Tables\<close>

definition vfs_current_owner_pid :: "ptable \<Rightarrow> u32" where
  "vfs_current_owner_pid t = (case process_current t of None \<Rightarrow> 0 | Some i \<Rightarrow> pid (g_processes t i))"

definition vfs_clear_open_file :: "vfs_open_file \<Rightarrow> vfs_open_file" where
  "vfs_clear_open_file f = f\<lparr>of_node := None, of_offset := 0, of_flags := VFS_O_RDONLY, of_owner_pid := 0,
     of_local_fd := 0, of_used := 0\<rparr>"

definition vfs_owner_is_alive :: "ptable \<Rightarrow> u32 \<Rightarrow> bool" where
  "vfs_owner_is_alive t p =
     (if p = 0 then True
      else case process_current t of
             Some c \<Rightarrow>
               if pid (g_processes t c) = p
               then state (g_processes t c) \<noteq> PROCESS_UNUSED \<and> state (g_processes t c) \<noteq> PROCESS_ZOMBIE
               else (case process_find p t of None \<Rightarrow> False
                     | Some i \<Rightarrow> state (g_processes t i) \<noteq> PROCESS_UNUSED \<and> state (g_processes t i) \<noteq> PROCESS_ZOMBIE)
           | None \<Rightarrow>
               (case process_find p t of None \<Rightarrow> False
                | Some i \<Rightarrow> state (g_processes t i) \<noteq> PROCESS_UNUSED \<and> state (g_processes t i) \<noteq> PROCESS_ZOMBIE))"

text \<open>The loops over the open-file table that clear the entries with some property.\<close>

definition clear_files :: "(vfs_open_file \<Rightarrow> bool) \<Rightarrow> vfs \<Rightarrow> vfs" where
  "clear_files P v =
     v\<lparr>g_open_files := fold (\<lambda>i fs. if P (fs ! i) then fs[i := vfs_clear_open_file (fs ! i)] else fs)
        [0..<VFS_MAX_GLOBAL_OPEN_FILES] (g_open_files v)\<rparr>"

definition vfs_reap_dead_owners :: "ptable \<Rightarrow> vfs \<Rightarrow> vfs" where
  "vfs_reap_dead_owners t = clear_files (\<lambda>f. of_used f \<noteq> 0 \<and> \<not> vfs_owner_is_alive t (of_owner_pid f))"

definition vfs_clear_node :: "nat \<Rightarrow> vfs \<Rightarrow> vfs" where
  "vfs_clear_node index v =
     (if index \<ge> VFS_MAX_NODES then v
      else v\<lparr>g_vfs_nodes := (g_vfs_nodes v)[index := (g_vfs_nodes v ! index)\<lparr>nd_path := None, nd_size := 0,
                nd_read := None, nd_write := None, nd_stat := None, nd_context := None\<rparr>],
             g_vfs_paths := (g_vfs_paths v)[index :=
                fold (\<lambda>j p. p[j := NUL]) [0..<VFS_MAX_PATH] (g_vfs_paths v ! index)]\<rparr>)"

definition vfs_clear_mount :: "vfs_mount_t \<Rightarrow> vfs_mount_t" where
  "vfs_clear_mount m = m\<lparr>mt_path := fold (\<lambda>j p. p[j := NUL]) [0..<VFS_MAX_PATH] (mt_path m),
     mt_ops := \<lparr>mo_open = None, mo_read_path = None, mo_list = None, mo_stat_path = None, mo_list_path = None,
       mo_metadata_path = None, mo_readdir_path = None, mo_fsinfo = None, mo_unlink = None, mo_rename = None\<rparr>,
     mt_context := None, mt_used := 0\<rparr>"

definition vfs_free_node_count :: "vfs \<Rightarrow> nat" where
  "vfs_free_node_count v =
     fold (\<lambda>i n. if nd_path (g_vfs_nodes v ! i) = None then n + 1 else n) [0..<VFS_MAX_NODES] 0"

definition vfs_find_free_node :: "vfs \<Rightarrow> nat option" where
  "vfs_find_free_node v = find (\<lambda>i. nd_path (g_vfs_nodes v ! i) = None) [0..<VFS_MAX_NODES]"

definition vfs_drop_open_files_for_node :: "nat \<Rightarrow> vfs \<Rightarrow> vfs" where
  "vfs_drop_open_files_for_node node = clear_files (\<lambda>f. of_used f \<noteq> 0 \<and> of_node f = Some node)"

definition vfs_local_fd_in_use :: "u32 \<Rightarrow> u32 \<Rightarrow> vfs \<Rightarrow> bool" where
  "vfs_local_fd_in_use owner fd v =
     (\<exists>i\<in>set [0..<VFS_MAX_GLOBAL_OPEN_FILES]. of_used (g_open_files v ! i) \<noteq> 0 \<and>
        of_owner_pid (g_open_files v ! i) = owner \<and> of_local_fd (g_open_files v ! i) = fd)"

definition vfs_find_free_local_fd :: "u32 \<Rightarrow> vfs \<Rightarrow> u32 option" where
  "vfs_find_free_local_fd owner v =
     map_option of_nat (find (\<lambda>fd. \<not> vfs_local_fd_in_use owner (of_nat fd) v) [0..<VFS_MAX_OPEN_FILES])"

definition vfs_find_free_global_handle :: "vfs \<Rightarrow> nat option" where
  "vfs_find_free_global_handle v = find (\<lambda>i. of_used (g_open_files v ! i) = 0) [0..<VFS_MAX_GLOBAL_OPEN_FILES]"

definition vfs_fd_at :: "ptable \<Rightarrow> int \<Rightarrow> vfs \<Rightarrow> vfs \<times> nat option" where
  "vfs_fd_at t fd v =
     (if fd < 0 \<or> fd \<ge> int VFS_MAX_OPEN_FILES then (v, None)
      else
        let v1 = vfs_reap_dead_owners t v;
            owner = vfs_current_owner_pid t
        in (v1, find (\<lambda>i. of_used (g_open_files v1 ! i) \<noteq> 0 \<and> of_node (g_open_files v1 ! i) \<noteq> None \<and>
                  of_owner_pid (g_open_files v1 ! i) = owner \<and> of_local_fd (g_open_files v1 ! i) = of_int fd)
                [0..<VFS_MAX_GLOBAL_OPEN_FILES]))"

definition vfs_find_mount_exact :: "string \<Rightarrow> vfs \<Rightarrow> nat option" where
  "vfs_find_mount_exact path v =
     find (\<lambda>i. mt_used (g_mounts v ! i) \<noteq> 0 \<and> kstreq (Some (c_string (mt_path (g_mounts v ! i)))) (Some path))
       [0..<VFS_MAX_MOUNTS]"

definition vfs_find_mount_for_path :: "string \<Rightarrow> vfs \<Rightarrow> nat option" where
  "vfs_find_mount_for_path path v =
     fst (fold (\<lambda>i (best, best_length).
        let m = c_string (mt_path (g_mounts v ! i))
        in if mt_used (g_mounts v ! i) = 0 \<or> \<not> vfs_path_is_mount_child (Some path) (Some m) then (best, best_length)
           else if best = None \<or> vfs_path_length (Some m) > best_length then (Some i, vfs_path_length (Some m))
           else (best, best_length)) [0..<VFS_MAX_MOUNTS] (None, 0))"

definition vfs_node_size :: "'w vfs_callbacks \<Rightarrow> vfs_node \<Rightarrow> vfs \<times> 'w \<Rightarrow> (vfs \<times> 'w) \<times> u64 option" where
  "vfs_node_size cb node w =
     (case nd_stat node of
        Some f \<Rightarrow> (case cb_stat cb f (nd_context node) w of
                     (w1, sz, status) \<Rightarrow> (w1, if status \<noteq> 0 then None else Some sz))
      | None \<Rightarrow> (w, Some (nd_size node)))"

definition vfs_read_result_valid :: "u64 \<Rightarrow> u64 \<Rightarrow> u64 \<Rightarrow> u64 \<Rightarrow> bool" where
  "vfs_read_result_valid offset file_size capacity count =
     (if offset > file_size \<or> count > capacity then False else count \<le> file_size - offset)"

definition vfs_write_result_valid :: "u64 \<Rightarrow> u64 \<Rightarrow> u64 \<Rightarrow> bool" where
  "vfs_write_result_valid offset requested count =
     (if count > requested \<or> offset > (- 1) - count then False else True)"

definition vfs_open_access_mode :: "u32 \<Rightarrow> u32" where
  "vfs_open_access_mode flags = flags AND VFS_O_ACCMODE"

definition vfs_open_flags_valid :: "u32 \<Rightarrow> bool" where
  "vfs_open_flags_valid flags =
     (let mode = vfs_open_access_mode flags
      in if flags AND NOT VFS_O_ALLOWED \<noteq> 0 then False
         else mode = VFS_O_RDONLY \<or> mode = VFS_O_WRONLY \<or> mode = VFS_O_RDWR)"

section \<open>Nodes and mounts\<close>

definition vfs_reset :: "vfs \<Rightarrow> vfs" where
  "vfs_reset v =
     (let v1 = fold vfs_clear_node [0..<VFS_MAX_NODES] v;
          v2 = v1\<lparr>g_open_files := fold (\<lambda>i fs. fs[i := vfs_clear_open_file (fs ! i)])
                  [0..<VFS_MAX_GLOBAL_OPEN_FILES] (g_open_files v1)\<rparr>;
          v3 = v2\<lparr>g_mounts := fold (\<lambda>i ms. ms[i := vfs_clear_mount (ms ! i)]) [0..<VFS_MAX_MOUNTS] (g_mounts v2)\<rparr>
      in v3\<lparr>g_vfs_node_count := 0\<rparr>)"

definition vfs_find_canonical :: "string \<Rightarrow> vfs \<Rightarrow> nat option" where
  "vfs_find_canonical path v =
     find (\<lambda>i. nd_path (g_vfs_nodes v ! i) \<noteq> None \<and> kstreq (nd_path (g_vfs_nodes v ! i)) (Some path))
       [0..<unat (g_vfs_node_count v)]"

text \<open>The check of the \<open>i\<close>-th node handed to \<open>vfs_mount_static\<close>, and the loop that enters the
  checked nodes into the table.\<close>

definition mountable :: "vfs_node list \<Rightarrow> vfs \<Rightarrow> nat \<Rightarrow> bool" where
  "mountable nodes v i =
     (case normalized (nd_path (nodes ! i)) of
        None \<Rightarrow> False
      | Some path \<Rightarrow>
          if (nd_read (nodes ! i) = None \<and> nd_write (nodes ! i) = None) \<or> vfs_find_canonical path v \<noteq> None then False
          else list_all (\<lambda>j. case normalized (nd_path (nodes ! j)) of
                 None \<Rightarrow> False | Some previous \<Rightarrow> \<not> kstreq (Some previous) (Some path)) [0..<i])"

fun enter_nodes :: "vfs_node list \<Rightarrow> vfs \<Rightarrow> vfs \<times> int" where
  "enter_nodes [] v = (v, OK)"
| "enter_nodes (node # nodes) v =
     (case vfs_find_free_node v of
        None \<Rightarrow> (v, ERR)
      | Some index \<Rightarrow>
          (case vfs_copy_path (g_vfs_paths v ! index) (nd_path node) of (path, status) \<Rightarrow>
             let v1 = v\<lparr>g_vfs_paths := (g_vfs_paths v)[index := path]\<rparr>
             in if status \<noteq> OK then (v1, ERR)
                else enter_nodes nodes
                  (v1\<lparr>g_vfs_nodes := (g_vfs_nodes v1)[index := (g_vfs_nodes v1 ! index)\<lparr>nd_path := Some (c_string path),
                        nd_size := nd_size node, nd_read := nd_read node, nd_write := nd_write node,
                        nd_stat := nd_stat node, nd_context := nd_context node\<rparr>],
                      g_vfs_node_count := (if of_nat index \<ge> g_vfs_node_count v1 then of_nat index + 1
                                           else g_vfs_node_count v1)\<rparr>)))"

definition vfs_mount_static :: "vfs_node list option \<Rightarrow> nat \<Rightarrow> vfs \<Rightarrow> vfs \<times> int" where
  "vfs_mount_static nodes count v =
     (case nodes of None \<Rightarrow> (v, ERR)
      | Some ns \<Rightarrow>
          if count = 0 \<or> count > vfs_free_node_count v \<or> \<not> list_all (mountable ns v) [0..<count] then (v, ERR)
          else enter_nodes (take count ns) v)"

definition vfs_unmount_static :: "cstr \<Rightarrow> vfs \<Rightarrow> vfs \<times> int" where
  "vfs_unmount_static path v =
     (case normalized path of None \<Rightarrow> (v, ERR)
      | Some canonical \<Rightarrow>
          (case vfs_find_canonical canonical v of
             None \<Rightarrow> (v, ERR)
           | Some i \<Rightarrow> (vfs_clear_node i (vfs_drop_open_files_for_node i v), OK)))"

definition vfs_mount :: "cstr \<Rightarrow> vfs_mount_ops option \<Rightarrow> ctxptr option \<Rightarrow> vfs \<Rightarrow> vfs \<times> int" where
  "vfs_mount path ops context v =
     (case (normalized path, ops) of
        (Some canonical, Some op) \<Rightarrow>
          if (mo_open op = None \<and> mo_read_path op = None \<and> mo_list op = None \<and> mo_stat_path op = None \<and>
              mo_list_path op = None \<and> mo_metadata_path op = None \<and> mo_readdir_path op = None \<and>
              mo_fsinfo op = None \<and> mo_unlink op = None \<and> mo_rename op = None) \<or>
             vfs_find_mount_exact canonical v \<noteq> None then (v, ERR)
          else (case find (\<lambda>i. mt_used (g_mounts v ! i) = 0) [0..<VFS_MAX_MOUNTS] of
                  None \<Rightarrow> (v, ERR)
                | Some i \<Rightarrow>
                    (case vfs_copy_path (mt_path (g_mounts v ! i)) (Some canonical) of (path', status) \<Rightarrow>
                       let m = (g_mounts v ! i)\<lparr>mt_path := path'\<rparr>
                       in if status \<noteq> OK then (v\<lparr>g_mounts := (g_mounts v)[i := m]\<rparr>, ERR)
                          else (v\<lparr>g_mounts := (g_mounts v)[i := m\<lparr>mt_ops := op, mt_context := context, mt_used := 1\<rparr>]\<rparr>, OK)))
      | _ \<Rightarrow> (v, ERR))"

definition vfs_mount_list :: "cstr \<Rightarrow> fnptr option \<Rightarrow> ctxptr option \<Rightarrow> vfs \<Rightarrow> vfs \<times> int" where
  "vfs_mount_list path list context v =
     (if list = None then (v, ERR)
      else vfs_mount path (Some \<lparr>mo_open = None, mo_read_path = None, mo_list = list, mo_stat_path = None,
         mo_list_path = None, mo_metadata_path = None, mo_readdir_path = None, mo_fsinfo = None, mo_unlink = None,
         mo_rename = None\<rparr>) context v)"

definition vfs_find :: "cstr \<Rightarrow> vfs \<Rightarrow> nat option" where
  "vfs_find path v = (case normalized path of None \<Rightarrow> None | Some canonical \<Rightarrow> vfs_find_canonical canonical v)"

text \<open>The lookup of the mount responsible for a path, exact root first.\<close>

definition mount_of :: "string \<Rightarrow> vfs \<Rightarrow> nat option" where
  "mount_of path v = (case vfs_find_mount_exact path v of Some i \<Rightarrow> Some i | None \<Rightarrow> vfs_find_mount_for_path path v)"

end
