(* ===== verification/Vfs_Ops.thy ===== *)
theory Vfs_Ops
  imports Vfs
begin

text \<open>
  The calls of the virtual filesystem that go through a callback (\<open>src/kernel/vfs.c\<close>,
  \<open>vfs_read\<close> to \<open>vfs_rename\<close>): reading, writing, listing and describing paths, and the
  per-process file descriptors.  An out pointer that may be null is an option or a flag; the
  state is the pair of VFS tables and the rest of the kernel.  A node is fetched once per
  call, before its callbacks run.
\<close>

section \<open>Reading and writing by path\<close>

text \<open>The checks every read and write result goes through before the caller sees it.\<close>

definition checked_read :: "u64 \<Rightarrow> u64 \<Rightarrow> u64 \<Rightarrow> 'b \<times> u8 list \<times> u64 \<times> int \<Rightarrow> 'b \<times> u8 list option \<times> u64 \<times> int" where
  "checked_read offset sz capacity r =
     (case r of (w, buf, n, status) \<Rightarrow>
        if status \<noteq> 0 \<or> \<not> vfs_read_result_valid offset sz capacity n
        then (w, Some buf, 0, if status \<noteq> 0 then status else ERR) else (w, Some buf, n, OK))"

definition checked_write :: "u64 \<Rightarrow> u64 \<Rightarrow> 'b \<times> u64 \<times> int \<Rightarrow> 'b \<times> u64 \<times> int" where
  "checked_write offset requested r =
     (case r of (w, n, status) \<Rightarrow>
        if status \<noteq> 0 \<or> \<not> vfs_write_result_valid offset requested n
        then (w, 0, if status \<noteq> 0 then status else ERR) else (w, n, OK))"

definition checked_list :: "u64 \<Rightarrow> 'b \<times> u8 list \<times> u64 \<times> int \<Rightarrow> 'b \<times> u8 list option \<times> u64 \<times> int" where
  "checked_list capacity r =
     (case r of (w, buf, n, status) \<Rightarrow>
        if status \<noteq> 0 \<or> n > capacity then (w, Some buf, 0, if status \<noteq> 0 then status else ERR)
        else (w, Some buf, n, OK))"

definition vfs_list_emit_byte ::
  "u64 \<Rightarrow> u64 \<Rightarrow> u8 \<Rightarrow> u8 list \<times> u64 \<times> u64 \<Rightarrow> (u8 list \<times> u64 \<times> u64) \<times> int" where
  "vfs_list_emit_byte offset capacity value st =
     (case st of (buffer, position, out) \<Rightarrow>
        if position \<ge> offset then
          if out \<ge> capacity then (st, ERR) else ((buffer[unat out := value], position + 1, out + 1), OK)
        else ((buffer, position + 1, out), OK))"

fun emit_bytes :: "u64 \<Rightarrow> u64 \<Rightarrow> string \<Rightarrow> u8 list \<times> u64 \<times> u64 \<Rightarrow> (u8 list \<times> u64 \<times> u64) \<times> int" where
  "emit_bytes offset capacity [] st = (st, OK)"
| "emit_bytes offset capacity (c # cs) st =
     (case vfs_list_emit_byte offset capacity (of_char c) st of
        (st1, r) \<Rightarrow> if r \<noteq> OK then (st1, r) else emit_bytes offset capacity cs st1)"

fun emit_paths :: "u64 \<Rightarrow> u64 \<Rightarrow> cstr list \<Rightarrow> u8 list \<times> u64 \<times> u64 \<Rightarrow> u8 list \<times> u64 \<times> u64" where
  "emit_paths offset capacity [] st = st"
| "emit_paths offset capacity (None # ps) st = emit_paths offset capacity ps st"
| "emit_paths offset capacity (Some p # ps) st =
     (case emit_bytes offset capacity (p @ [CHR 0x0A]) st of
        (st1, r) \<Rightarrow> if r \<noteq> OK then st1 else emit_paths offset capacity ps st1)"

definition vfs_list_at ::
  "'w vfs_callbacks \<Rightarrow> cstr \<Rightarrow> u64 \<Rightarrow> u8 list option \<Rightarrow> u64 \<Rightarrow> bool \<Rightarrow> vfs \<times> 'w \<Rightarrow>
   (vfs \<times> 'w) \<times> u8 list option \<times> u64 \<times> int" where
  "vfs_list_at cb path offset buffer capacity has_out w =
     (case (buffer, normalized path) of
        (Some buf, Some canonical) \<Rightarrow>
          if \<not> has_out then (w, buffer, 0, ERR)
          else
            let v = fst w;
                exact = vfs_find_mount_exact canonical v;
                child = (if exact = None then vfs_find_mount_for_path canonical v else None);
                at = (\<lambda>i. g_mounts v ! i);
                root = (if \<not> kstreq (Some canonical) (Some ''/'') then (w, buffer, 0, ERR)
                        else case emit_paths offset capacity
                               (map (\<lambda>i. nd_path (g_vfs_nodes v ! i)) [0..<unat (g_vfs_node_count v)]) (buf, 0, 0) of
                               (buf1, _, out) \<Rightarrow> (w, Some buf1, out, OK))
            in (case exact of
                  Some i \<Rightarrow>
                    (case mo_list_path (mt_ops (at i)) of
                       Some f \<Rightarrow> checked_list capacity (cb_list_path cb f (mt_context (at i)) canonical offset buf capacity w)
                     | None \<Rightarrow>
                         (case mo_list (mt_ops (at i)) of
                            Some f \<Rightarrow> checked_list capacity (cb_list cb f (mt_context (at i)) offset buf capacity w)
                          | None \<Rightarrow> root))
                | None \<Rightarrow>
                    (case child of
                       Some i \<Rightarrow>
                         (case mo_list_path (mt_ops (at i)) of
                            Some f \<Rightarrow> checked_list capacity (cb_list_path cb f (mt_context (at i)) canonical offset buf capacity w)
                          | None \<Rightarrow> root)
                     | None \<Rightarrow> root))
      | _ \<Rightarrow> (w, buffer, 0, ERR))"

definition vfs_list ::
  "'w vfs_callbacks \<Rightarrow> cstr \<Rightarrow> u8 list option \<Rightarrow> u64 \<Rightarrow> bool \<Rightarrow> vfs \<times> 'w \<Rightarrow> (vfs \<times> 'w) \<times> u8 list option \<times> u64 \<times> int" where
  "vfs_list cb path buffer capacity has_out w = vfs_list_at cb path 0 buffer capacity has_out w"

definition vfs_metadata_clear :: "vfs_metadata_t \<Rightarrow> vfs_metadata_t" where
  "vfs_metadata_clear md = md\<lparr>md_size := 0, md_type := VFS_FILE_TYPE_UNKNOWN, md_attributes := 0\<rparr>"

definition vfs_metadata_type_valid :: "u32 \<Rightarrow> bool" where
  "vfs_metadata_type_valid ty =
     (ty = VFS_FILE_TYPE_UNKNOWN \<or> ty = VFS_FILE_TYPE_REGULAR \<or> ty = VFS_FILE_TYPE_DIRECTORY)"

text \<open>Probing a path with a one-byte listing tells directories from files.\<close>

definition lists :: "'w vfs_callbacks \<Rightarrow> string \<Rightarrow> vfs \<times> 'w \<Rightarrow> (vfs \<times> 'w) \<times> bool" where
  "lists cb canonical w = (case vfs_list_at cb (Some canonical) 0 (Some [0]) 1 True w of (w1, _, _, r) \<Rightarrow> (w1, r = OK))"

definition vfs_metadata ::
  "'w vfs_callbacks \<Rightarrow> cstr \<Rightarrow> vfs_metadata_t option \<Rightarrow> vfs \<times> 'w \<Rightarrow> (vfs \<times> 'w) \<times> vfs_metadata_t option \<times> int" where
  "vfs_metadata cb path metadata w =
     (case (metadata, normalized path) of
        (Some md, Some canonical) \<Rightarrow>
          let md0 = vfs_metadata_clear md; v = fst w
          in (case vfs_find_canonical canonical v of
                Some i \<Rightarrow>
                  (case vfs_node_size cb (g_vfs_nodes v ! i) w of
                     (w1, None) \<Rightarrow> (w1, Some md0, ERR)
                   | (w1, Some sz) \<Rightarrow> (w1, Some (md0\<lparr>md_size := sz, md_type := VFS_FILE_TYPE_REGULAR\<rparr>), OK))
              | None \<Rightarrow>
                  let listing = (case lists cb canonical w of
                                   (w1, True) \<Rightarrow> (w1, Some (md0\<lparr>md_type := VFS_FILE_TYPE_DIRECTORY\<rparr>), OK)
                                 | (w1, False) \<Rightarrow> (w1, Some md0, ERR))
                  in (case mount_of canonical v of
                        None \<Rightarrow> listing
                      | Some i \<Rightarrow>
                          let m = g_mounts v ! i
                          in (case mo_metadata_path (mt_ops m) of
                                Some f \<Rightarrow>
                                  (case cb_metadata_path cb f (mt_context m) canonical md0 w of (w1, md1, status) \<Rightarrow>
                                     if status \<noteq> 0 \<or> \<not> vfs_metadata_type_valid (md_type md1)
                                     then (w1, Some (vfs_metadata_clear md1), if status \<noteq> 0 then status else ERR)
                                     else (w1, Some md1, OK))
                              | None \<Rightarrow>
                                  (case mo_stat_path (mt_ops m) of
                                     Some f \<Rightarrow>
                                       (case cb_stat_path cb f (mt_context m) canonical w of (w1, sz, status) \<Rightarrow>
                                          if status \<noteq> 0 then (w1, Some md0, ERR)
                                          else (case lists cb canonical w1 of (w2, isdir) \<Rightarrow>
                                            (w2, Some (md0\<lparr>md_size := sz, md_type := (if isdir then VFS_FILE_TYPE_DIRECTORY
                                                                              else VFS_FILE_TYPE_REGULAR)\<rparr>), OK)))
                                   | None \<Rightarrow> listing))))
      | _ \<Rightarrow> (w, metadata, ERR))"

definition vfs_read ::
  "'w vfs_callbacks \<Rightarrow> cstr \<Rightarrow> u64 \<Rightarrow> u8 list option \<Rightarrow> u64 \<Rightarrow> bool \<Rightarrow> vfs \<times> 'w \<Rightarrow>
   (vfs \<times> 'w) \<times> u8 list option \<times> u64 \<times> int" where
  "vfs_read cb path offset buffer capacity has_out w =
     (case (buffer, normalized path) of
        (Some buf, Some canonical) \<Rightarrow>
          if \<not> has_out then (w, buffer, 0, ERR)
          else
            let v = fst w
            in (case vfs_find_canonical canonical v of
                  Some i \<Rightarrow>
                    let node = g_vfs_nodes v ! i
                    in (case nd_read node of
                          None \<Rightarrow> (w, buffer, 0, ERR)
                        | Some f \<Rightarrow>
                            (case vfs_node_size cb node w of
                               (w1, None) \<Rightarrow> (w1, buffer, 0, ERR)
                             | (w1, Some sz) \<Rightarrow>
                                 if offset > sz then (w1, buffer, 0, ERR)
                                 else checked_read offset sz capacity
                                        (cb_read cb f (nd_context node) offset buf capacity w1)))
                | None \<Rightarrow>
                    (case mount_of canonical v of
                       None \<Rightarrow> (w, buffer, 0, ERR)
                     | Some i \<Rightarrow>
                         let m = g_mounts v ! i
                         in (case mo_read_path (mt_ops m) of
                               None \<Rightarrow> (w, buffer, 0, ERR)
                             | Some f \<Rightarrow>
                                 (case vfs_metadata cb (Some canonical)
                                         (Some \<lparr>md_size = 0, md_type = 0, md_attributes = 0\<rparr>) w of
                                    (w1, md, status) \<Rightarrow>
                                      if status \<noteq> 0 \<or> md_type (the md) \<noteq> VFS_FILE_TYPE_REGULAR \<or> offset > md_size (the md)
                                      then (w1, buffer, 0, ERR)
                                      else checked_read offset (md_size (the md)) capacity
                                             (cb_read_path cb f (mt_context m) canonical offset buf capacity w1)))))
      | _ \<Rightarrow> (w, buffer, 0, ERR))"

definition vfs_write ::
  "'w vfs_callbacks \<Rightarrow> cstr \<Rightarrow> u64 \<Rightarrow> u8 list option \<Rightarrow> u64 \<Rightarrow> bool \<Rightarrow> vfs \<times> 'w \<Rightarrow> (vfs \<times> 'w) \<times> u64 \<times> int" where
  "vfs_write cb path offset buffer sz has_out w =
     (case (vfs_find path (fst w), buffer) of
        (Some i, Some buf) \<Rightarrow>
          let node = g_vfs_nodes (fst w) ! i
          in (case nd_write node of
                None \<Rightarrow> (w, 0, ERR)
              | Some f \<Rightarrow>
                  if \<not> has_out then (w, 0, ERR)
                  else (case vfs_node_size cb node w of
                          (w1, None) \<Rightarrow> (w1, 0, ERR)
                        | (w1, Some current) \<Rightarrow>
                            if offset > current then (w1, 0, ERR)
                            else checked_write offset sz (cb_write cb f (nd_context node) offset buf sz w1)))
      | _ \<Rightarrow> (w, 0, ERR))"

definition vfs_stat :: "'w vfs_callbacks \<Rightarrow> cstr \<Rightarrow> u64 option \<Rightarrow> vfs \<times> 'w \<Rightarrow> (vfs \<times> 'w) \<times> u64 option \<times> int" where
  "vfs_stat cb path stat w =
     (case (stat, normalized path) of
        (Some st, Some canonical) \<Rightarrow>
          (case vfs_find_canonical canonical (fst w) of
             Some i \<Rightarrow>
               (case vfs_node_size cb (g_vfs_nodes (fst w) ! i) w of
                  (w1, None) \<Rightarrow> (w1, stat, ERR)
                | (w1, Some sz) \<Rightarrow> (w1, Some sz, OK))
           | None \<Rightarrow>
               (case mount_of canonical (fst w) of
                  None \<Rightarrow> (w, stat, ERR)
                | Some i \<Rightarrow>
                    (case mo_stat_path (mt_ops (g_mounts (fst w) ! i)) of
                       None \<Rightarrow> (w, stat, ERR)
                     | Some f \<Rightarrow> (case cb_stat_path cb f (mt_context (g_mounts (fst w) ! i)) canonical w of
                                    (w1, sz, status) \<Rightarrow> (w1, Some sz, status)))))
      | _ \<Rightarrow> (w, stat, ERR))"

section \<open>Directories and filesystem information\<close>

definition vfs_dirent_clear :: "vfs_dirent \<Rightarrow> vfs_dirent" where
  "vfs_dirent_clear e = e\<lparr>de_name := fold (\<lambda>i n. n[i := NUL]) [0..<VFS_NAME_MAX] (de_name e),
     de_metadata := vfs_metadata_clear (de_metadata e)\<rparr>"

definition vfs_dirent_name_valid :: "string \<Rightarrow> bool" where
  "vfs_dirent_name_valid name =
     (if name ! 0 = NUL then False else find (\<lambda>i. name ! i = NUL) [0..<VFS_NAME_MAX] \<noteq> None)"

definition vfs_dirent_copy_name :: "string \<Rightarrow> string \<Rightarrow> nat \<Rightarrow> string \<times> int" where
  "vfs_dirent_copy_name destination source len =
     (if len = 0 \<or> len \<ge> VFS_NAME_MAX then (destination, ERR)
      else ((fold (\<lambda>i d. d[i := source ! i]) [0..<len] destination)[len := NUL], OK))"

text \<open>The joined path grows character by character while it fits into \<open>VFS_MAX_PATH\<close>.\<close>

fun append_bounded :: "string \<Rightarrow> string \<Rightarrow> cstr" where
  "append_bounded child [] = Some child"
| "append_bounded child (c # cs) =
     (if length child + 1 \<ge> VFS_MAX_PATH then None else append_bounded (child @ [c]) cs)"

definition vfs_metadata_child_path :: "string \<Rightarrow> string \<Rightarrow> cstr" where
  "vfs_metadata_child_path directory name =
     (if char_at directory 0 \<noteq> CHR ''/'' then None
      else case append_bounded [] directory of
             None \<Rightarrow> None
           | Some child \<Rightarrow>
               (case (if length child > 1 then append_bounded child ''/'' else Some child) of
                  None \<Rightarrow> None
                | Some child1 \<Rightarrow> append_bounded child1 name))"

text \<open>The entry built from one line of a listing.\<close>

definition line_entry :: "'w vfs_callbacks \<Rightarrow> string \<Rightarrow> string \<Rightarrow> vfs_dirent \<Rightarrow> vfs \<times> 'w \<Rightarrow> (vfs \<times> 'w) \<times> vfs_dirent \<times> int" where
  "line_entry cb canonical line entry w =
     (let e0 = vfs_dirent_clear entry;
          hint = (last line = CHR ''/'');
          len = (if hint then length line - 1 else length line)
      in (case vfs_dirent_copy_name (de_name e0) line len of (name, status) \<Rightarrow>
            let e1 = e0\<lparr>de_name := name\<rparr>;
                guess = (\<lambda>md. md\<lparr>md_type := (if hint then VFS_FILE_TYPE_DIRECTORY else VFS_FILE_TYPE_REGULAR)\<rparr>)
            in if status \<noteq> OK then (w, e1, ERR)
               else (case vfs_metadata_child_path canonical (c_string name) of
                       None \<Rightarrow> (w, e1\<lparr>de_metadata := guess (de_metadata e1)\<rparr>, OK)
                     | Some child \<Rightarrow>
                         (case vfs_metadata cb (Some child) (Some (de_metadata e1)) w of (w1, md, r) \<Rightarrow>
                            (w1, e1\<lparr>de_metadata := (if r = OK then the md else guess (the md))\<rparr>, OK)))))"

text \<open>The scan of a textual listing, one byte per round; the first argument counts the rounds left.\<close>

fun readdir_loop ::
  "nat \<Rightarrow> 'w vfs_callbacks \<Rightarrow> string \<Rightarrow> u64 \<Rightarrow> u64 \<Rightarrow> u64 \<Rightarrow> u64 \<Rightarrow> u64 \<Rightarrow> string \<Rightarrow> vfs_dirent list \<Rightarrow> vfs \<times> 'w \<Rightarrow>
   (vfs \<times> 'w) \<times> vfs_dirent list \<times> u64 \<times> int" where
  "readdir_loop 0 cb canonical start max_entries byte_offset index out line entries w = (w, entries, 0, ERR)"
| "readdir_loop (Suc k) cb canonical start max_entries byte_offset index out line entries w =
     (case vfs_list_at cb (Some canonical) byte_offset (Some [0]) 1 True w of (w1, buf, count, status) \<Rightarrow>
        if status \<noteq> OK then (w1, entries, 0, ERR)
        else if count = 0 then (if line \<noteq> [] then (w1, entries, 0, ERR) else (w1, entries, out, OK))
        else
          let value = the buf ! 0
          in if value \<noteq> 0x0A then
               if length line \<ge> VFS_NAME_MAX then (w1, entries, 0, ERR)
               else readdir_loop k cb canonical start max_entries (byte_offset + 1) index out
                      (line @ [char_of (unat value)]) entries w1
             else if line = [] then
               readdir_loop k cb canonical start max_entries (byte_offset + 1) index out line entries w1
             else if index < start then
               readdir_loop k cb canonical start max_entries (byte_offset + 1) (index + 1) out [] entries w1
             else
               (case line_entry cb canonical line (entries ! unat out) w1 of (w2, e, r) \<Rightarrow>
                  let entries1 = entries[unat out := e]
                  in if r \<noteq> OK then (w2, entries1, 0, ERR)
                     else if out + 1 = max_entries then (w2, entries1, out + 1, OK)
                     else readdir_loop k cb canonical start max_entries (byte_offset + 1) (index + 1) (out + 1) [] entries1 w2))"

definition vfs_readdir ::
  "'w vfs_callbacks \<Rightarrow> cstr \<Rightarrow> u64 \<Rightarrow> vfs_dirent list option \<Rightarrow> u64 \<Rightarrow> bool \<Rightarrow> vfs \<times> 'w \<Rightarrow>
   (vfs \<times> 'w) \<times> vfs_dirent list option \<times> u64 \<times> int" where
  "vfs_readdir cb path start entries max_entries has_out w =
     (case (entries, normalized path) of
        (Some es, Some canonical) \<Rightarrow>
          if \<not> has_out \<or> max_entries = 0 \<or> max_entries > VFS_READDIR_MAX_ENTRIES then (w, entries, 0, ERR)
          else
            let scan = (case readdir_loop VFS_STRUCTURED_SCAN_LIMIT cb canonical start max_entries 0 0 0 [] es w of
                          (w1, es1, n, r) \<Rightarrow> (w1, Some es1, n, r))
            in (case mount_of canonical (fst w) of
                  None \<Rightarrow> scan
                | Some i \<Rightarrow>
                    (case mo_readdir_path (mt_ops (g_mounts (fst w) ! i)) of
                       None \<Rightarrow> scan
                     | Some f \<Rightarrow>
                         (case cb_readdir_path cb f (mt_context (g_mounts (fst w) ! i)) canonical start es max_entries w of
                            (w1, es1, n, status) \<Rightarrow>
                              if status \<noteq> 0 \<or> n > max_entries then (w1, Some es1, 0, if status \<noteq> 0 then status else ERR)
                              else if list_all (\<lambda>j. vfs_dirent_name_valid (de_name (es1 ! j)) \<and>
                                        vfs_metadata_type_valid (md_type (de_metadata (es1 ! j)))) [0..<unat n]
                              then (w1, Some es1, n, OK) else (w1, Some es1, 0, ERR))))
      | _ \<Rightarrow> (w, entries, 0, ERR))"

definition vfs_fsinfo_clear :: "vfs_fsinfo_t \<Rightarrow> vfs_fsinfo_t" where
  "vfs_fsinfo_clear info = info\<lparr>fi_total_bytes := 0, fi_free_bytes := 0, fi_block_size := 0, fi_max_name_length := 0,
     fi_max_path_length := 0, fi_flags := 0,
     fi_filesystem := fold (\<lambda>i n. n[i := NUL]) [0..<VFS_FILESYSTEM_NAME_MAX] (fi_filesystem info)\<rparr>"

definition vfs_fsinfo_name_valid :: "string \<Rightarrow> bool" where
  "vfs_fsinfo_name_valid fs =
     (if fs ! 0 = NUL then False else find (\<lambda>i. fs ! i = NUL) [0..<VFS_FILESYSTEM_NAME_MAX] \<noteq> None)"

definition fsinfo_allowed_flags :: u32 where
  "fsinfo_allowed_flags = VFS_FS_FLAG_READ_ONLY OR VFS_FS_FLAG_DIRECTORIES OR VFS_FS_FLAG_LONG_NAMES OR
     VFS_FS_FLAG_FLUSH OR VFS_FS_FLAG_TRUNCATE OR VFS_FS_FLAG_FREE_BYTES_VALID"

definition vfs_fsinfo ::
  "'w vfs_callbacks \<Rightarrow> cstr \<Rightarrow> vfs_fsinfo_t option \<Rightarrow> vfs \<times> 'w \<Rightarrow> (vfs \<times> 'w) \<times> vfs_fsinfo_t option \<times> int" where
  "vfs_fsinfo cb path info w =
     (case (info, normalized path) of
        (Some fi, Some canonical) \<Rightarrow>
          let fi0 = vfs_fsinfo_clear fi
          in (case mount_of canonical (fst w) of
                None \<Rightarrow> (w, Some fi0, ARMONIOS_ERR_NOENT)
              | Some i \<Rightarrow>
                  (case mo_fsinfo (mt_ops (g_mounts (fst w) ! i)) of
                     None \<Rightarrow> (w, Some fi0, ARMONIOS_ERR_NOTSUP)
                   | Some f \<Rightarrow>
                       (case cb_fsinfo cb f (mt_context (g_mounts (fst w) ! i)) canonical fi0 w of (w1, fi1, status) \<Rightarrow>
                          if status \<noteq> 0 then (w1, Some (vfs_fsinfo_clear fi1), status)
                          else if \<not> vfs_fsinfo_name_valid (fi_filesystem fi1) \<or> fi_total_bytes fi1 = 0 \<or>
                                  fi_block_size fi1 = 0 \<or> fi_max_name_length fi1 = 0 \<or>
                                  fi_max_name_length fi1 \<ge> of_nat VFS_NAME_MAX \<or> fi_max_path_length fi1 = 0 \<or>
                                  fi_max_path_length fi1 \<ge> of_nat VFS_MAX_PATH \<or>
                                  fi_flags fi1 AND NOT fsinfo_allowed_flags \<noteq> 0 \<or>
                                  (fi_flags fi1 AND VFS_FS_FLAG_FREE_BYTES_VALID \<noteq> 0 \<and> fi_free_bytes fi1 > fi_total_bytes fi1)
                               then (w1, Some (vfs_fsinfo_clear fi1), ARMONIOS_ERR_RANGE)
                               else (w1, Some fi1, OK))))
      | _ \<Rightarrow> (w, info, ARMONIOS_ERR_INVAL))"

section \<open>File descriptors\<close>

text \<open>A path without a static node is handed to the mount it lies below, whose \<open>open\<close> callback may
  register a node for it.\<close>

definition materialise :: "'w vfs_callbacks \<Rightarrow> string \<Rightarrow> u32 \<Rightarrow> vfs \<times> 'w \<Rightarrow> (vfs \<times> 'w) \<times> int" where
  "materialise cb path flags w =
     (case vfs_find_canonical path (fst w) of
        Some i \<Rightarrow> (w, OK)
      | None \<Rightarrow>
          (case vfs_find_mount_for_path path (fst w) of
             None \<Rightarrow> (w, ERR)
           | Some m \<Rightarrow>
               (case mo_open (mt_ops (g_mounts (fst w) ! m)) of
                  None \<Rightarrow> (w, ERR)
                | Some f \<Rightarrow> cb_open cb f (mt_context (g_mounts (fst w) ! m)) path flags w)))"

definition vfs_open_flags :: "'w vfs_callbacks \<Rightarrow> ptable \<Rightarrow> cstr \<Rightarrow> u32 \<Rightarrow> vfs \<times> 'w \<Rightarrow> (vfs \<times> 'w) \<times> int" where
  "vfs_open_flags cb t path flags w =
     (let mode = vfs_open_access_mode flags
      in if \<not> vfs_open_flags_valid flags then (w, ERR)
         else (case normalized path of
                 None \<Rightarrow> (w, ERR)
               | Some canonical \<Rightarrow>
                   (case materialise cb canonical flags w of
                      (w1, status) \<Rightarrow>
                        if status \<noteq> 0 then (w1, ERR)
                        else
                          (case vfs_find_canonical canonical (fst w1) of
                             None \<Rightarrow> (w1, ERR)
                           | Some i \<Rightarrow>
                               let node = g_vfs_nodes (fst w1) ! i
                               in if ((mode = VFS_O_RDONLY \<or> mode = VFS_O_RDWR) \<and> nd_read node = None) \<or>
                                     ((mode = VFS_O_WRONLY \<or> mode = VFS_O_RDWR) \<and> nd_write node = None) then (w1, ERR)
                                  else
                                    let v2 = vfs_reap_dead_owners t (fst w1);
                                        owner = vfs_current_owner_pid t
                                    in (case (vfs_find_free_local_fd owner v2, vfs_find_free_global_handle v2) of
                                          (Some fd, Some h) \<Rightarrow>
                                            ((v2\<lparr>g_open_files := (g_open_files v2)[h := (g_open_files v2 ! h)\<lparr>of_node := Some i,
                                                of_offset := 0, of_flags := mode, of_owner_pid := owner, of_local_fd := fd,
                                                of_used := 1\<rparr>]\<rparr>, snd w1), int (unat fd))
                                        | _ \<Rightarrow> ((v2, snd w1), ERR))))))"

definition vfs_open :: "'w vfs_callbacks \<Rightarrow> ptable \<Rightarrow> cstr \<Rightarrow> vfs \<times> 'w \<Rightarrow> (vfs \<times> 'w) \<times> int" where
  "vfs_open cb t path w = vfs_open_flags cb t path VFS_O_RDONLY w"

text \<open>Moving the offset of the handle \<open>h\<close> after a transfer of \<open>n\<close> bytes.\<close>

definition advance :: "nat \<Rightarrow> u64 \<Rightarrow> vfs \<Rightarrow> vfs" where
  "advance h n v = v\<lparr>g_open_files := (g_open_files v)[h := (g_open_files v ! h)\<lparr>of_offset := of_offset (g_open_files v ! h) + n\<rparr>]\<rparr>"

definition vfs_read_fd ::
  "'w vfs_callbacks \<Rightarrow> ptable \<Rightarrow> int \<Rightarrow> u8 list option \<Rightarrow> u64 \<Rightarrow> bool \<Rightarrow> vfs \<times> 'w \<Rightarrow>
   (vfs \<times> 'w) \<times> u8 list option \<times> u64 \<times> int" where
  "vfs_read_fd cb t fd buffer capacity has_out w =
     (case buffer of None \<Rightarrow> (w, buffer, 0, ERR)
      | Some buf \<Rightarrow>
          if \<not> has_out then (w, buffer, 0, ERR)
          else (case vfs_fd_at t fd (fst w) of
                  (v1, None) \<Rightarrow> ((v1, snd w), buffer, 0, ERR)
                | (v1, Some h) \<Rightarrow>
                    let file = g_open_files v1 ! h;
                        node = g_vfs_nodes v1 ! the (of_node file)
                    in (case nd_read node of
                          None \<Rightarrow> ((v1, snd w), buffer, 0, ERR)
                        | Some f \<Rightarrow>
                            if of_flags file = VFS_O_WRONLY then ((v1, snd w), buffer, 0, ERR)
                            else (case vfs_node_size cb node (v1, snd w) of
                                    (w2, None) \<Rightarrow> (w2, buffer, 0, ERR)
                                  | (w2, Some sz) \<Rightarrow>
                                      if of_offset file > sz then (w2, buffer, 0, ERR)
                                      else (case checked_read (of_offset file) sz capacity
                                                   (cb_read cb f (nd_context node) (of_offset file) buf capacity w2) of
                                              (w3, buf', n, r) \<Rightarrow>
                                                if r \<noteq> OK then (w3, buf', n, r)
                                                else ((advance h n (fst w3), snd w3), buf', n, OK))))))"

definition vfs_write_fd ::
  "'w vfs_callbacks \<Rightarrow> ptable \<Rightarrow> int \<Rightarrow> u8 list option \<Rightarrow> u64 \<Rightarrow> bool \<Rightarrow> vfs \<times> 'w \<Rightarrow> (vfs \<times> 'w) \<times> u64 \<times> int" where
  "vfs_write_fd cb t fd buffer sz has_out w =
     (case buffer of None \<Rightarrow> (w, 0, ERR)
      | Some buf \<Rightarrow>
          if \<not> has_out then (w, 0, ERR)
          else (case vfs_fd_at t fd (fst w) of
                  (v1, None) \<Rightarrow> ((v1, snd w), 0, ERR)
                | (v1, Some h) \<Rightarrow>
                    let file = g_open_files v1 ! h;
                        node = g_vfs_nodes v1 ! the (of_node file)
                    in (case nd_write node of
                          None \<Rightarrow> ((v1, snd w), 0, ERR)
                        | Some f \<Rightarrow>
                            if of_flags file = VFS_O_RDONLY then ((v1, snd w), 0, ERR)
                            else (case vfs_node_size cb node (v1, snd w) of
                                    (w2, None) \<Rightarrow> (w2, 0, ERR)
                                  | (w2, Some current) \<Rightarrow>
                                      if of_offset file > current then (w2, 0, ERR)
                                      else (case checked_write (of_offset file) sz
                                                   (cb_write cb f (nd_context node) (of_offset file) buf sz w2) of
                                              (w3, n, r) \<Rightarrow>
                                                if r \<noteq> OK then (w3, n, r)
                                                else ((advance h n (fst w3), snd w3), n, OK))))))"

definition vfs_seek :: "'w vfs_callbacks \<Rightarrow> ptable \<Rightarrow> int \<Rightarrow> u64 \<Rightarrow> vfs \<times> 'w \<Rightarrow> (vfs \<times> 'w) \<times> int" where
  "vfs_seek cb t fd offset w =
     (case vfs_fd_at t fd (fst w) of
        (v1, None) \<Rightarrow> ((v1, snd w), ERR)
      | (v1, Some h) \<Rightarrow>
          (case vfs_node_size cb (g_vfs_nodes v1 ! the (of_node (g_open_files v1 ! h))) (v1, snd w) of
             (w2, None) \<Rightarrow> (w2, ERR)
           | (w2, Some sz) \<Rightarrow>
               if offset > sz then (w2, ERR)
               else (((fst w2)\<lparr>g_open_files := (g_open_files (fst w2))
                        [h := (g_open_files (fst w2) ! h)\<lparr>of_offset := offset\<rparr>]\<rparr>, snd w2), OK)))"

definition vfs_close :: "ptable \<Rightarrow> int \<Rightarrow> vfs \<Rightarrow> vfs \<times> int" where
  "vfs_close t fd v =
     (case vfs_fd_at t fd v of
        (v1, None) \<Rightarrow> (v1, ERR)
      | (v1, Some h) \<Rightarrow>
          (v1\<lparr>g_open_files := (g_open_files v1)[h := vfs_clear_open_file (g_open_files v1 ! h)]\<rparr>, OK))"

definition vfs_close_all_for_pid :: "u32 \<Rightarrow> vfs \<Rightarrow> vfs \<times> u32" where
  "vfs_close_all_for_pid p v =
     (let (fs, closed) = fold (\<lambda>i (fs, closed).
            if of_used (fs ! i) \<noteq> 0 \<and> of_owner_pid (fs ! i) = p
            then (fs[i := vfs_clear_open_file (fs ! i)], closed + 1) else (fs, closed))
          [0..<VFS_MAX_GLOBAL_OPEN_FILES] (g_open_files v, 0)
      in (v\<lparr>g_open_files := fs\<rparr>, closed))"

section \<open>Removing and renaming\<close>

definition vfs_unlink :: "'w vfs_callbacks \<Rightarrow> cstr \<Rightarrow> vfs \<times> 'w \<Rightarrow> (vfs \<times> 'w) \<times> int" where
  "vfs_unlink cb path w =
     (case normalized path of
        None \<Rightarrow> (w, ERR)
      | Some canonical \<Rightarrow>
          (case vfs_find_mount_for_path canonical (fst w) of
             None \<Rightarrow> (w, ERR)
           | Some i \<Rightarrow>
               (case mo_unlink (mt_ops (g_mounts (fst w) ! i)) of
                  None \<Rightarrow> (w, ERR)
                | Some f \<Rightarrow>
                    (case cb_unlink cb f (mt_context (g_mounts (fst w) ! i)) canonical w of (w1, status) \<Rightarrow>
                       if status \<noteq> 0 then (w1, ERR)
                       else ((fst (vfs_unmount_static (Some canonical) (fst w1)), snd w1), OK)))))"

definition vfs_rename :: "'w vfs_callbacks \<Rightarrow> cstr \<Rightarrow> cstr \<Rightarrow> vfs \<times> 'w \<Rightarrow> (vfs \<times> 'w) \<times> int" where
  "vfs_rename cb old_path new_path w =
     (case (normalized old_path, normalized new_path) of
        (Some old, Some new) \<Rightarrow>
          (case vfs_find_mount_for_path old (fst w) of
             None \<Rightarrow> (w, ERR)
           | Some i \<Rightarrow>
               if vfs_find_mount_for_path new (fst w) \<noteq> Some i then (w, ERR)
               else (case mo_rename (mt_ops (g_mounts (fst w) ! i)) of
                       None \<Rightarrow> (w, ERR)
                     | Some f \<Rightarrow>
                         (case cb_rename cb f (mt_context (g_mounts (fst w) ! i)) old new w of (w1, status) \<Rightarrow>
                            if status \<noteq> 0 then (w1, ERR)
                            else ((fst (vfs_unmount_static (Some new) (fst (vfs_unmount_static (Some old) (fst w1)))),
                                   snd w1), OK))))
      | _ \<Rightarrow> (w, ERR))"

end
