(* ===== verification/Vfs_Tables.thy ===== *)
theory Vfs_Tables
  imports Vfs_Ops
begin

text \<open>
  Correctness of the virtual filesystem tables: the invariant of nodes, mounts and open
  files, the map of descriptors the open-file table stands for, and the properties of the
  calls.  What the VFS relies on from a filesystem's callbacks is the locale
  \<open>vfs_provider\<close>.
\<close>

section \<open>The tables\<close>

definition canonical :: "string \<Rightarrow> bool" where
  "canonical q \<longleftrightarrow> NUL \<notin> set q \<and> normalized (Some q) = Some q"

abbreviation node_path :: "vfs \<Rightarrow> nat \<Rightarrow> cstr" where
  "node_path v i \<equiv> nd_path (g_vfs_nodes v ! i)"

definition nodes_inv :: "vfs \<Rightarrow> bool" where
  "nodes_inv v \<longleftrightarrow> length (g_vfs_nodes v) = 24 \<and> length (g_vfs_paths v) = 24 \<and> (\<forall>p\<in>set (g_vfs_paths v). length p = 64) \<and>
     unat (g_vfs_node_count v) \<le> 24 \<and>
     (\<forall>i<24. \<forall>q. node_path v i = Some q \<longrightarrow> i < unat (g_vfs_node_count v) \<and> canonical q) \<and>
     (\<forall>i<24. \<forall>j<24. \<forall>q. node_path v i = Some q \<and> node_path v j = Some q \<longrightarrow> i = j)"

definition mounts_inv :: "vfs \<Rightarrow> bool" where
  "mounts_inv v \<longleftrightarrow> length (g_mounts v) = 4 \<and> (\<forall>m\<in>set (g_mounts v). length (mt_path m) = 64) \<and>
     (\<forall>i<4. mt_used (g_mounts v ! i) \<noteq> 0 \<longrightarrow> canonical (c_string (mt_path (g_mounts v ! i)))) \<and>
     (\<forall>i<4. \<forall>j<4. mt_used (g_mounts v ! i) \<noteq> 0 \<and> mt_used (g_mounts v ! j) \<noteq> 0 \<and>
        c_string (mt_path (g_mounts v ! i)) = c_string (mt_path (g_mounts v ! j)) \<longrightarrow> i = j)"

definition file_ok :: "vfs \<Rightarrow> vfs_open_file \<Rightarrow> bool" where
  "file_ok v f \<longleftrightarrow> of_used f \<noteq> 0 \<longrightarrow>
     of_local_fd f < 8 \<and> (\<exists>n<24. of_node f = Some n \<and> node_path v n \<noteq> None)"

abbreviation same_fd :: "vfs_open_file \<Rightarrow> vfs_open_file \<Rightarrow> bool" where
  "same_fd f g \<equiv> of_used f \<noteq> 0 \<and> of_used g \<noteq> 0 \<and> of_owner_pid f = of_owner_pid g \<and> of_local_fd f = of_local_fd g"

definition files_inv :: "vfs \<Rightarrow> bool" where
  "files_inv v \<longleftrightarrow> length (g_open_files v) = 128 \<and> (\<forall>f\<in>set (g_open_files v). file_ok v f) \<and>
     (\<forall>i<128. \<forall>j<128. same_fd (g_open_files v ! i) (g_open_files v ! j) \<longrightarrow> i = j)"

definition vfs_inv :: "vfs \<Rightarrow> bool" where
  "vfs_inv v \<longleftrightarrow> nodes_inv v \<and> mounts_inv v \<and> files_inv v"

lemmas vfs_size_defs = VFS_MAX_NODES_def VFS_MAX_MOUNTS_def VFS_MAX_OPEN_FILES_def VFS_MAX_GLOBAL_OPEN_FILES_def VFS_MAX_PATH_def

lemma canonicalI: "normalized (Some p) = Some q \<Longrightarrow> NUL \<notin> set p \<Longrightarrow> canonical q"
  unfolding canonical_def using canonical_again(1,2) by blast

lemma kstreq_canonical: "NUL \<notin> set a \<Longrightarrow> NUL \<notin> set b \<Longrightarrow> kstreq (Some a) (Some b) \<longleftrightarrow> a = b"
  by (simp add: kstreq_def kstreq_loop_iff)

subsection \<open>Lookups\<close>

lemma nodes_invD:
  assumes "nodes_inv v"
  shows "length (g_vfs_nodes v) = 24" "length (g_vfs_paths v) = 24" "unat (g_vfs_node_count v) \<le> 24"
    "i < 24 \<Longrightarrow> node_path v i = Some q \<Longrightarrow> i < unat (g_vfs_node_count v)"
    "i < 24 \<Longrightarrow> node_path v i = Some q \<Longrightarrow> canonical q"
    "i < 24 \<Longrightarrow> j < 24 \<Longrightarrow> node_path v i = Some q \<Longrightarrow> node_path v j = Some q \<Longrightarrow> i = j"
    "i < 24 \<Longrightarrow> length (g_vfs_paths v ! i) = 64"
  using assms unfolding nodes_inv_def by (blast, blast, blast, blast, blast, blast, simp)

lemma find_canonical_Some:
  assumes "nodes_inv v" "NUL \<notin> set q"
  shows "vfs_find_canonical q v = Some i \<longleftrightarrow> i < 24 \<and> node_path v i = Some q"
proof -
  have P: "node_path v j \<noteq> None \<and> kstreq (node_path v j) (Some q) \<longleftrightarrow> node_path v j = Some q" if "j < 24" for j
    using nodes_invD(5) [OF assms(1) that] assms(2) kstreq_canonical [of _ q] by (cases "node_path v j") (auto simp: canonical_def)
  note c = nodes_invD(3) [OF assms(1)]
  show ?thesis
  proof
    assume "vfs_find_canonical q v = Some i"
    then have "i < unat (g_vfs_node_count v)" "node_path v i \<noteq> None \<and> kstreq (node_path v i) (Some q)"
      by (simp_all add: vfs_find_canonical_def find_upt_Some_iff)
    then show "i < 24 \<and> node_path v i = Some q" using P c by simp
  next
    assume i: "i < 24 \<and> node_path v i = Some q"
    then have "i < unat (g_vfs_node_count v)" using nodes_invD(4) [OF assms(1)] by blast
    moreover have "\<not> (node_path v j \<noteq> None \<and> kstreq (node_path v j) (Some q))" if "j < i" for j
    proof
      assume "node_path v j \<noteq> None \<and> kstreq (node_path v j) (Some q)"
      then have "node_path v j = Some q" using P [of j] that i by simp
      then show False using nodes_invD(6) [OF assms(1), of j i q] that i by simp
    qed
    ultimately show "vfs_find_canonical q v = Some i" using P [of i] i
      unfolding vfs_find_canonical_def find_upt_Some_iff by blast
  qed
qed

lemma find_canonical_None:
  assumes "nodes_inv v" "NUL \<notin> set q"
  shows "vfs_find_canonical q v = None \<longleftrightarrow> (\<forall>i<24. node_path v i \<noteq> Some q)"
  using find_canonical_Some [OF assms] by (cases "vfs_find_canonical q v") auto

lemma find_free_node_Some:
  "vfs_find_free_node v = Some i \<Longrightarrow> i < 24 \<and> node_path v i = None"
  by (simp add: vfs_find_free_node_def find_upt_Some_iff vfs_size_defs)

lemma free_node_count_eq: "vfs_free_node_count v = card {i. i < 24 \<and> node_path v i = None}"
proof -
  have "fold (\<lambda>i n. if node_path v i = None then n + 1 else n) [0..<k] 0 = card {i. i < k \<and> node_path v i = None}" for k
  proof (induction k)
    case (Suc k)
    have "{i. i < Suc k \<and> node_path v i = None} =
        {i. i < k \<and> node_path v i = None} \<union> (if node_path v k = None then {k} else {})"
      by (auto simp: less_Suc_eq)
    with Suc show ?case by simp
  qed simp
  then show ?thesis by (simp add: vfs_free_node_count_def vfs_size_defs)
qed

subsection \<open>Clearing open files\<close>

lemma fold_clear_nth:
  assumes "length fs = n"
  shows "length (fold (\<lambda>i fs. if P (fs ! i) then fs[i := g (fs ! i)] else fs) [0..<k] fs) = n \<and>
    (\<forall>j<n. fold (\<lambda>i fs. if P (fs ! i) then fs[i := g (fs ! i)] else fs) [0..<k] fs ! j =
       (if j < k \<and> P (fs ! j) then g (fs ! j) else fs ! j))"
proof (induction k)
  case (Suc k)
  then show ?case by (cases "k < n") (auto simp: nth_list_update less_Suc_eq)
qed (simp add: assms)

lemma clear_files_nth:
  assumes "length (g_open_files v) = 128"
  shows "length (g_open_files (clear_files P v)) = 128"
    "i < 128 \<Longrightarrow> g_open_files (clear_files P v) ! i =
       (if P (g_open_files v ! i) then vfs_clear_open_file (g_open_files v ! i) else g_open_files v ! i)"
  using fold_clear_nth [OF assms, of P vfs_clear_open_file 128] by (simp_all add: clear_files_def vfs_size_defs)

lemma clear_files_other [simp]:
  "g_vfs_nodes (clear_files P v) = g_vfs_nodes v" "g_vfs_paths (clear_files P v) = g_vfs_paths v"
  "g_vfs_node_count (clear_files P v) = g_vfs_node_count v" "g_mounts (clear_files P v) = g_mounts v"
  by (simp_all add: clear_files_def)

lemma cleared [simp]: "of_used (vfs_clear_open_file f) = 0"
  by (simp add: vfs_clear_open_file_def)

lemma files_inv_clear:
  assumes "files_inv v"
  shows "files_inv (clear_files P v)"
proof -
  have len: "length (g_open_files v) = 128" using assms by (simp add: files_inv_def)
  note nth = clear_files_nth [OF len, where P = P]
  have "file_ok (clear_files P v) (g_open_files (clear_files P v) ! i)" if "i < 128" for i
    using assms that nth(2) [OF that] len by (auto simp: files_inv_def file_ok_def)
  moreover have "i = j" if "i < 128" "j < 128" "same_fd (g_open_files (clear_files P v) ! i) (g_open_files (clear_files P v) ! j)" for i j
    using assms that nth(2) [OF that(1)] nth(2) [OF that(2)] by (auto simp: files_inv_def split: if_splits)
  ultimately show ?thesis using nth(1) unfolding files_inv_def by (auto simp: in_set_conv_nth)
qed

lemma tables_inv_clear [simp]:
  "nodes_inv (clear_files P v) = nodes_inv v" "mounts_inv (clear_files P v) = mounts_inv v"
  by (simp_all only: nodes_inv_def mounts_inv_def clear_files_other)

lemma vfs_inv_clear: "vfs_inv v \<Longrightarrow> vfs_inv (clear_files P v)"
  by (simp add: vfs_inv_def files_inv_clear)


subsection \<open>Descriptors\<close>

text \<open>The open-file table as a map from process and descriptor to node, offset and mode.\<close>

definition file_for :: "vfs_open_file \<Rightarrow> u32 \<times> u32 \<Rightarrow> bool" where
  "file_for f k \<longleftrightarrow> of_used f \<noteq> 0 \<and> of_owner_pid f = fst k \<and> of_local_fd f = snd k"

definition fd_content :: "vfs_open_file \<Rightarrow> nat \<times> u64 \<times> u32" where
  "fd_content f = (the (of_node f), of_offset f, of_flags f)"

definition descriptors :: "vfs \<Rightarrow> u32 \<times> u32 \<rightharpoonup> nat \<times> u64 \<times> u32" where
  "descriptors v k = map_option (\<lambda>i. fd_content (g_open_files v ! i)) (find (\<lambda>i. file_for (g_open_files v ! i) k) [0..<128])"

definition live_descriptors :: "ptable \<Rightarrow> vfs \<Rightarrow> u32 \<times> u32 \<rightharpoonup> nat \<times> u64 \<times> u32" where
  "live_descriptors t v = descriptors v |` {k. vfs_owner_is_alive t (fst k)}"

lemma files_invD:
  assumes "files_inv v"
  shows "length (g_open_files v) = 128" "i < 128 \<Longrightarrow> file_ok v (g_open_files v ! i)"
    "i < 128 \<Longrightarrow> j < 128 \<Longrightarrow> same_fd (g_open_files v ! i) (g_open_files v ! j) \<Longrightarrow> i = j"
  using assms unfolding files_inv_def by (blast, metis nth_mem, blast)

lemma descriptors_at:
  assumes "files_inv v" "i < 128" "file_for (g_open_files v ! i) k"
  shows "descriptors v k = Some (fd_content (g_open_files v ! i))"
proof -
  have "\<not> file_for (g_open_files v ! j) k" if "j < i" for j
  proof
    assume "file_for (g_open_files v ! j) k"
    then have "j = i" using files_invD(3) [OF assms(1), of j i] assms(2,3) that by (simp add: file_for_def)
    then show False using that by simp
  qed
  then have "find (\<lambda>i. file_for (g_open_files v ! i) k) [0..<128] = Some i"
    unfolding find_upt_Some_iff using assms(2,3) by blast
  then show ?thesis by (simp add: descriptors_def)
qed

lemma descriptors_None:
  "descriptors v k = None \<longleftrightarrow> (\<forall>i<128. \<not> file_for (g_open_files v ! i) k)"
  unfolding descriptors_def map_option_is_None find_upt_None_iff ..

lemma descriptors_Some:
  assumes "descriptors v k = Some x"
  obtains i where "i < 128" "file_for (g_open_files v ! i) k" "x = fd_content (g_open_files v ! i)"
  using assms by (auto simp: descriptors_def find_upt_Some_iff)

lemma descriptors_eqI:
  assumes "files_inv v" "files_inv v'"
    and "\<And>i. i < 128 \<Longrightarrow> file_for (g_open_files v ! i) k \<longleftrightarrow> file_for (g_open_files v' ! i) k"
    and "\<And>i. i < 128 \<Longrightarrow> file_for (g_open_files v ! i) k \<Longrightarrow> fd_content (g_open_files v ! i) = fd_content (g_open_files v' ! i)"
  shows "descriptors v k = descriptors v' k"
proof (cases "descriptors v k")
  case None
  then show ?thesis using assms(3) descriptors_None [of v k] descriptors_None [of v' k] by auto
next
  case (Some x)
  then obtain i where i: "i < 128" "file_for (g_open_files v ! i) k" "x = fd_content (g_open_files v ! i)"
    by (rule descriptors_Some)
  then show ?thesis using Some assms descriptors_at [of v' i k] by simp
qed

lemma descriptors_clear:
  assumes inv: "files_inv v" and P: "\<And>i. i < 128 \<Longrightarrow> of_used (g_open_files v ! i) \<noteq> 0 \<Longrightarrow>
      P (g_open_files v ! i) \<longleftrightarrow> Q (of_owner_pid (g_open_files v ! i), of_local_fd (g_open_files v ! i))"
  shows "descriptors (clear_files P v) = descriptors v |` {k. \<not> Q k}"
proof
  fix k
  note nth = clear_files_nth(2) [OF files_invD(1) [OF inv]]
  show "descriptors (clear_files P v) k = (descriptors v |` {k. \<not> Q k}) k"
  proof (cases "Q k")
    case True
    then have "\<not> file_for (g_open_files (clear_files P v) ! i) k" if "i < 128" for i
      using nth [OF that] P [OF that] by (cases k) (auto simp: file_for_def)
    then show ?thesis using True by (simp add: descriptors_None)
  next
    case False
    then have "descriptors v k = descriptors (clear_files P v) k"
      using nth P by (intro descriptors_eqI [OF inv files_inv_clear [OF inv]]) (cases k; auto simp: file_for_def)+
    then show ?thesis using False by simp
  qed
qed

lemma reap_descriptors:
  assumes "files_inv v"
  shows "descriptors (vfs_reap_dead_owners t v) = live_descriptors t v"
    "live_descriptors t (vfs_reap_dead_owners t v) = live_descriptors t v"
proof -
  show 1: "descriptors (vfs_reap_dead_owners t v) = live_descriptors t v"
    unfolding vfs_reap_dead_owners_def live_descriptors_def
    using descriptors_clear [OF assms, of "\<lambda>f. of_used f \<noteq> 0 \<and> \<not> vfs_owner_is_alive t (of_owner_pid f)" "\<lambda>k. \<not> vfs_owner_is_alive t (fst k)"]
    by simp
  show "live_descriptors t (vfs_reap_dead_owners t v) = live_descriptors t v"
    using 1 by (simp add: live_descriptors_def)
qed


subsection \<open>Static nodes\<close>

text \<open>The node table as a finite map from canonical paths.\<close>

definition registered :: "vfs \<Rightarrow> string \<rightharpoonup> vfs_node" where
  "registered v q = find (\<lambda>n. nd_path n = Some q) (g_vfs_nodes v)"

lemma registered_iff:
  assumes "nodes_inv v"
  shows "registered v q = Some n \<longleftrightarrow> (\<exists>i<24. g_vfs_nodes v ! i = n \<and> nd_path n = Some q)"
proof
  assume "registered v q = Some n"
  then show "\<exists>i<24. g_vfs_nodes v ! i = n \<and> nd_path n = Some q"
    using nodes_invD(1) [OF assms] by (auto simp: registered_def find_Some_iff)
next
  assume "\<exists>i<24. g_vfs_nodes v ! i = n \<and> nd_path n = Some q"
  then obtain i where i: "i < 24" "g_vfs_nodes v ! i = n" "nd_path n = Some q" by blast
  have "nd_path (g_vfs_nodes v ! j) \<noteq> Some q" if "j < i" for j
    using nodes_invD(6) [OF assms, of j i q] i that by auto
  then show "registered v q = Some n"
    unfolding registered_def find_Some_iff using i nodes_invD(1) [OF assms] by auto
qed

lemma registered_None:
  assumes "nodes_inv v"
  shows "registered v q = None \<longleftrightarrow> (\<forall>i<24. node_path v i \<noteq> Some q)"
  using nodes_invD(1) [OF assms] by (auto simp: registered_def find_None_iff in_set_conv_nth)

lemma find_canonical_registered:
  assumes "nodes_inv v" "NUL \<notin> set q"
  shows "map_option (\<lambda>i. g_vfs_nodes v ! i) (vfs_find_canonical q v) = registered v q"
proof (cases "vfs_find_canonical q v")
  case None
  then have "registered v q = None" using find_canonical_None [OF assms] registered_None [OF assms(1), of q] by blast
  then show ?thesis using None by simp
next
  case (Some i)
  then have "i < 24" "node_path v i = Some q" using find_canonical_Some [OF assms] by auto
  then have "registered v q = Some (g_vfs_nodes v ! i)" using registered_iff [OF assms(1)] by blast
  then show ?thesis using Some by simp
qed

lemma nodes_inv_enter:
  assumes inv: "nodes_inv v" and i: "i < 24" "node_path v i = None"
    and q: "canonical q" "registered v q = None" and n: "nd_path n = Some q" and p: "length p = 64"
    and v': "v' = v\<lparr>g_vfs_paths := (g_vfs_paths v)[i := p], g_vfs_nodes := (g_vfs_nodes v)[i := n],
       g_vfs_node_count := (if of_nat i \<ge> g_vfs_node_count v then of_nat i + 1 else g_vfs_node_count v)\<rparr>"
  shows "nodes_inv v'" "registered v' = (registered v)(q \<mapsto> n)"
proof -
  have len: "length (g_vfs_nodes v) = 24" "length (g_vfs_paths v) = 24" using nodes_invD [OF inv] by auto
  have at: "node_path v' j = (if j = i then Some q else node_path v j)" if "j < 24" for j
    using that len n by (auto simp: v' nth_list_update)
  have u: "unat (of_nat i :: u32) = i" using i(1) by (intro unat_of_nat_less) simp
  have le: "of_nat i \<ge> g_vfs_node_count v \<longleftrightarrow> unat (g_vfs_node_count v) \<le> i" by (simp add: word_le_nat_alt u)
  have u1: "unat (of_nat i + 1 :: u32) = i + 1" using i(1) u by (subst unat_plus_no_overflow) simp_all
  have cnt: "unat (g_vfs_node_count v') = max (unat (g_vfs_node_count v)) (i + 1)"
    using u1 le by (simp add: v' max_def split: if_splits)
  have nq: "node_path v j \<noteq> Some q" if "j < 24" for j using registered_None [OF inv] q(2) that by blast
  have "length x = 64" if "x \<in> set (g_vfs_paths v')" for x
    using that p inv set_update_subset_insert [of "g_vfs_paths v" i p] unfolding nodes_inv_def v' by auto
  moreover have "j < unat (g_vfs_node_count v') \<and> canonical x" if "j < 24" "node_path v' j = Some x" for j x
  proof (cases "j = i")
    case True
    then show ?thesis using that at [of j] q(1) cnt by simp
  next
    case False
    then show ?thesis using that at [of j] nodes_invD(4,5) [OF inv, of j x] cnt by simp
  qed
  moreover have "j = k" if "j < 24" "k < 24" "node_path v' j = Some x" "node_path v' k = Some x" for j k x
    using that at [of j] at [of k] nodes_invD(6) [OF inv, of j k] nq [of j] nq [of k] by (auto split: if_splits)
  moreover have "unat (g_vfs_node_count v') \<le> 24" using cnt nodes_invD(3) [OF inv] i(1) by simp
  moreover have "length (g_vfs_nodes v') = 24" "length (g_vfs_paths v') = 24" using len by (simp_all add: v')
  ultimately show inv': "nodes_inv v'" unfolding nodes_inv_def by blast
  show "registered v' = (registered v)(q \<mapsto> n)"
  proof
    fix x
    show "registered v' x = ((registered v)(q \<mapsto> n)) x"
    proof (cases "registered v' x")
      case None
      then have "\<forall>j<24. node_path v' j \<noteq> Some x" using registered_None [OF inv'] by blast
      then have "x \<noteq> q" "\<forall>j<24. node_path v j \<noteq> Some x" using at i by (metis, metis option.distinct(1))
      moreover from this have "registered v x = None" using registered_None [OF inv, of x] by blast
      ultimately show ?thesis using None by simp
    next
      case (Some m)
      then obtain j where j: "j < 24" "g_vfs_nodes v' ! j = m" "nd_path m = Some x" using registered_iff [OF inv'] by blast
      show ?thesis
      proof (cases "j = i")
        case True
        then have "m = n" using j(2) len i(1) by (simp add: v')
        then show ?thesis using Some j(3) n by simp
      next
        case False
        then have m: "m = g_vfs_nodes v ! j" using j(2) by (simp add: v')
        then have "x \<noteq> q" using nq [OF j(1)] j(3) by auto
        then show ?thesis using Some registered_iff [OF inv, of x m] m j by auto
      qed
    qed
  qed
qed


definition c_ok :: "cstr \<Rightarrow> bool" where
  "c_ok s \<longleftrightarrow> (\<forall>p. s = Some p \<longrightarrow> NUL \<notin> set p)"

lemma normalized_canonical: "c_ok s \<Longrightarrow> normalized s = Some q \<Longrightarrow> canonical q"
  using canonicalI by (cases s) (auto simp: c_ok_def)

definition place :: "vfs_node \<Rightarrow> string \<times> vfs_node" where
  "place n = (the (normalized (nd_path n)), n\<lparr>nd_path := normalized (nd_path n)\<rparr>)"

lemma enter_node:
  assumes inv: "nodes_inv v" and free: "vfs_find_free_node v = Some i"
    and n: "c_ok (nd_path n)" "normalized (nd_path n) = Some q" "registered v q = None"
  obtains v' where "enter_nodes (n # ns) v = enter_nodes ns v'" "nodes_inv v'"
    "registered v' = (registered v)(q \<mapsto> n\<lparr>nd_path := Some q\<rparr>)" "g_mounts v' = g_mounts v" "g_open_files v' = g_open_files v"
    "\<And>j. j \<noteq> i \<Longrightarrow> g_vfs_nodes v' ! j = g_vfs_nodes v ! j" "vfs_free_node_count v = Suc (vfs_free_node_count v')"
proof -
  obtain p where p: "nd_path n = Some p" "NUL \<notin> set p" using n(1,2) by (cases "nd_path n") (auto simp: c_ok_def)
  have i: "i < 24" "node_path v i = None" using find_free_node_Some [OF free] by auto
  have "length (g_vfs_paths v ! i) = 64" using nodes_invD(7) [OF inv i(1)] .
  note canon = vfs_normalize_path_canon [OF p(2) this]
  have cq: "canon (Some p) = Some q" using normalized_canon [OF p(2)] n(2) p(1) by simp
  obtain arr r where ar: "vfs_normalize_path (Some p) (g_vfs_paths v ! i) = (arr, r)" by fastforce
  have r: "r = OK" "holds_string arr q" using canon cq ar by simp_all
  have arr: "length arr = 64" "c_string arr = q"
    using r(2) holds_string_c_string canon_canonical(2) [OF cq p(2)] by (auto simp: holds_string_def)
  define v' where "v' = v\<lparr>g_vfs_paths := (g_vfs_paths v)[i := arr], g_vfs_nodes := (g_vfs_nodes v)[i := n\<lparr>nd_path := Some q\<rparr>],
     g_vfs_node_count := (if of_nat i \<ge> g_vfs_node_count v then of_nat i + 1 else g_vfs_node_count v)\<rparr>"
  have upd: "(g_vfs_nodes v ! i)\<lparr>nd_path := Some q, nd_size := nd_size n, nd_read := nd_read n, nd_write := nd_write n,
      nd_stat := nd_stat n, nd_context := nd_context n\<rparr> = n\<lparr>nd_path := Some q\<rparr>" by simp
  have eq: "enter_nodes (n # ns) v = enter_nodes ns v'"
    using free ar r(1) arr(2) p(1) by (simp add: vfs_copy_path_def v'_def Let_def upd)
  have cn: "canonical q" using normalized_canonical [OF n(1,2)] .
  note new = nodes_inv_enter [OF inv i cn n(3) _ arr(1) v'_def]
  have other: "g_vfs_nodes v' ! j = g_vfs_nodes v ! j" if "j \<noteq> i" for j using that by (simp add: v'_def)
  have at: "g_vfs_nodes v' ! i = n\<lparr>nd_path := Some q\<rparr>" using i(1) nodes_invD(1) [OF inv] by (simp add: v'_def)
  have "node_path v j = None \<longleftrightarrow> j = i \<or> node_path v' j = None" for j
    using i(2) other at by (cases "j = i") simp_all
  then have "{j. j < 24 \<and> node_path v j = None} = insert i {j. j < 24 \<and> node_path v' j = None}"
    using i(1) by auto
  moreover have "i \<notin> {j. j < 24 \<and> node_path v' j = None}" using at by simp
  ultimately have "vfs_free_node_count v = Suc (vfs_free_node_count v')" by (simp add: free_node_count_eq)
  then show thesis using that [OF eq _ _ _ _ other] new by (simp add: v'_def)
qed

lemma enter_nodes_spec:
  assumes "nodes_inv v" "length ns \<le> vfs_free_node_count v"
    "\<forall>n\<in>set ns. c_ok (nd_path n) \<and> normalized (nd_path n) \<noteq> None \<and> registered v (fst (place n)) = None"
    "distinct (map (\<lambda>n. fst (place n)) ns)"
  shows "\<exists>v'. enter_nodes ns v = (v', OK) \<and> nodes_inv v' \<and> registered v' = registered v ++ map_of (map place ns) \<and>
    g_mounts v' = g_mounts v \<and> g_open_files v' = g_open_files v \<and>
    (\<forall>j<24. node_path v j \<noteq> None \<longrightarrow> g_vfs_nodes v' ! j = g_vfs_nodes v ! j)"
  using assms
proof (induction ns arbitrary: v)
  case Nil
  then show ?case by simp
next
  case (Cons n ns)
  obtain q where q: "normalized (nd_path n) = Some q" "place n = (q, n\<lparr>nd_path := Some q\<rparr>)"
    using Cons.prems(3) by (auto simp: place_def)
  have "vfs_find_free_node v \<noteq> None"
  proof
    assume "vfs_find_free_node v = None"
    then have "{j. j < 24 \<and> node_path v j = None} = {}" by (auto simp: vfs_find_free_node_def find_upt_None_iff vfs_size_defs)
    then have "vfs_free_node_count v = 0" unfolding free_node_count_eq by simp
    then show False using Cons.prems(2) by simp
  qed
  then obtain i where i: "vfs_find_free_node v = Some i" by blast
  have n: "c_ok (nd_path n)" "registered v q = None" using Cons.prems(3) q by auto
  obtain v1 where v1: "enter_nodes (n # ns) v = enter_nodes ns v1" "nodes_inv v1"
    "registered v1 = (registered v)(q \<mapsto> n\<lparr>nd_path := Some q\<rparr>)" "g_mounts v1 = g_mounts v" "g_open_files v1 = g_open_files v"
    "\<And>j. j \<noteq> i \<Longrightarrow> g_vfs_nodes v1 ! j = g_vfs_nodes v ! j" "vfs_free_node_count v = Suc (vfs_free_node_count v1)"
    using enter_node [OF Cons.prems(1) i n(1) q(1) n(2)] by metis
  have nq: "q \<notin> fst ` set (map place ns)" using Cons.prems(4) q(2) by auto
  have "\<forall>m\<in>set ns. c_ok (nd_path m) \<and> normalized (nd_path m) \<noteq> None \<and> registered v1 (fst (place m)) = None"
    using Cons.prems(3) v1(3) nq by auto
  then obtain v2 where v2: "enter_nodes ns v1 = (v2, OK)" "nodes_inv v2" "registered v2 = registered v1 ++ map_of (map place ns)"
    "g_mounts v2 = g_mounts v1" "g_open_files v2 = g_open_files v1"
    "\<forall>j<24. node_path v1 j \<noteq> None \<longrightarrow> g_vfs_nodes v2 ! j = g_vfs_nodes v1 ! j"
    using Cons.IH [OF v1(2)] Cons.prems(2,4) v1(7) by auto
  have reg: "registered v2 = registered v ++ map_of (map place (n # ns))"
    using nq q(2) unfolding v2(3) v1(3) by (simp add: map_add_upd_left dom_map_of_conv_image_fst)
  have old: "\<forall>j<24. node_path v j \<noteq> None \<longrightarrow> g_vfs_nodes v2 ! j = g_vfs_nodes v ! j"
  proof (intro allI impI)
    fix j :: nat
    assume that: "j < 24" "node_path v j \<noteq> None"
    have "j \<noteq> i" using find_free_node_Some [OF i] that(2) by auto
    then show "g_vfs_nodes v2 ! j = g_vfs_nodes v ! j" using v1(6) [of j] v2(6) that by simp
  qed
  have "enter_nodes (n # ns) v = (v2, OK)" using v1(1) v2(1) by (rule trans)
  moreover have "g_mounts v2 = g_mounts v" "g_open_files v2 = g_open_files v"
    using v1(4,5) v2(4,5) by simp_all
  ultimately show ?case using v2(2) reg old by blast
qed


lemma mountable_iff:
  assumes inv: "nodes_inv v" and ok: "\<And>j. j \<le> i \<Longrightarrow> c_ok (nd_path (ns ! j))"
  shows "mountable ns v i \<longleftrightarrow> normalized (nd_path (ns ! i)) \<noteq> None \<and>
     (nd_read (ns ! i) \<noteq> None \<or> nd_write (ns ! i) \<noteq> None) \<and> registered v (fst (place (ns ! i))) = None \<and>
     (\<forall>j<i. normalized (nd_path (ns ! j)) \<noteq> None \<and> fst (place (ns ! j)) \<noteq> fst (place (ns ! i)))"
proof (cases "normalized (nd_path (ns ! i))")
  case None
  then show ?thesis by (simp add: mountable_def)
next
  case (Some q)
  have q: "NUL \<notin> set q" using normalized_canonical [OF ok Some] by (simp add: canonical_def)
  have reg: "vfs_find_canonical q v = None \<longleftrightarrow> registered v q = None"
    using find_canonical_registered [OF inv q] by (metis option.map_disc_iff)
  have prev: "(case normalized (nd_path (ns ! j)) of None \<Rightarrow> False | Some p \<Rightarrow> \<not> kstreq (Some p) (Some q)) \<longleftrightarrow>
      normalized (nd_path (ns ! j)) \<noteq> None \<and> fst (place (ns ! j)) \<noteq> q" if "j < i" for j
  proof (cases "normalized (nd_path (ns ! j))")
    case (Some p)
    then have "NUL \<notin> set p" using normalized_canonical [OF ok Some] that by (simp add: canonical_def)
    with Some q show ?thesis by (simp add: kstreq_canonical place_def)
  qed simp
  show ?thesis using Some reg prev by (auto simp: mountable_def list_all_iff place_def)
qed

lemma files_inv_nodes:
  assumes "files_inv v" "g_open_files v' = g_open_files v" "\<And>n. n < 24 \<Longrightarrow> node_path v n \<noteq> None \<Longrightarrow> node_path v' n \<noteq> None"
  shows "files_inv v'"
proof -
  have "file_ok v' f" if "file_ok v f" for f using that assms(3) by (auto simp: file_ok_def)
  with assms(1,2) show ?thesis unfolding files_inv_def by auto
qed

lemma mount_static_spec:
  assumes inv: "vfs_inv v" and len: "count \<le> length ns" and ok: "\<forall>n\<in>set (take count ns). c_ok (nd_path n)"
    and m: "vfs_mount_static (Some ns) count v = (v', r)"
  shows "if r = OK then vfs_inv v' \<and> registered v' = registered v ++ map_of (map place (take count ns)) \<and>
       (\<forall>n\<in>set (take count ns). normalized (nd_path n) \<noteq> None \<and> registered v (fst (place n)) = None) \<and>
       g_open_files v' = g_open_files v \<and> g_mounts v' = g_mounts v
     else r = ERR \<and> v' = v"
proof (cases "count = 0 \<or> count > vfs_free_node_count v \<or> \<not> list_all (mountable ns v) [0..<count]")
  case True
  then show ?thesis using m by (simp add: vfs_mount_static_def)
next
  case False
  have ninv: "nodes_inv v" using inv by (simp add: vfs_inv_def)
  have okn: "c_ok (nd_path (ns ! j))" if "j < count" for j
    using ok that len nth_mem [of j "take count ns"] by simp
  have mt: "normalized (nd_path (ns ! i)) \<noteq> None \<and> registered v (fst (place (ns ! i))) = None \<and>
      (\<forall>j<i. fst (place (ns ! j)) \<noteq> fst (place (ns ! i)))" if "i < count" for i
  proof -
    have "mountable ns v i" using False that by (simp add: list_all_iff)
    moreover have "\<And>j. j \<le> i \<Longrightarrow> c_ok (nd_path (ns ! j))" using okn that by simp
    ultimately show ?thesis using mountable_iff [OF ninv] by blast
  qed
  have all: "\<forall>n\<in>set (take count ns). c_ok (nd_path n) \<and> normalized (nd_path n) \<noteq> None \<and> registered v (fst (place n)) = None"
  proof
    fix n
    assume "n \<in> set (take count ns)"
    then obtain i where "i < count" "n = ns ! i" using len by (auto simp: in_set_conv_nth)
    then show "c_ok (nd_path n) \<and> normalized (nd_path n) \<noteq> None \<and> registered v (fst (place n)) = None"
      using okn [of i] mt [of i] by simp
  qed
  have dist: "distinct (map (\<lambda>n. fst (place n)) (take count ns))"
  proof (subst distinct_conv_nth, intro allI impI)
    fix i j
    assume ij: "i < length (map (\<lambda>n. fst (place n)) (take count ns))"
      "j < length (map (\<lambda>n. fst (place n)) (take count ns))" "i \<noteq> j"
    then have "i < count" "j < count" using len by simp_all
    then have "fst (place (ns ! i)) \<noteq> fst (place (ns ! j))"
      using mt [of i] mt [of j] ij(3) by (metis linorder_neqE_nat)
    then show "map (\<lambda>n. fst (place n)) (take count ns) ! i \<noteq> map (\<lambda>n. fst (place n)) (take count ns) ! j"
      using ij by simp
  qed
  have "length (take count ns) \<le> vfs_free_node_count v" using False len by simp
  from enter_nodes_spec [OF ninv this all dist] obtain v1 where v1: "enter_nodes (take count ns) v = (v1, OK)" "nodes_inv v1"
    "registered v1 = registered v ++ map_of (map place (take count ns))" "g_mounts v1 = g_mounts v" "g_open_files v1 = g_open_files v"
    "\<forall>j<24. node_path v j \<noteq> None \<longrightarrow> g_vfs_nodes v1 ! j = g_vfs_nodes v ! j" by (elim exE conjE) (rule that)
  have "v' = v1" "r = OK" using m v1(1) False by (simp_all add: vfs_mount_static_def)
  moreover have "node_path v1 n \<noteq> None" if "n < 24" "node_path v n \<noteq> None" for n
    using that(2) unfolding v1(6) [rule_format, OF that] .
  then have "files_inv v1" using inv by (intro files_inv_nodes [OF _ v1(5)]) (simp_all add: vfs_inv_def)
  moreover have "mounts_inv v1" using inv v1(4) by (simp add: vfs_inv_def mounts_inv_def)
  ultimately show ?thesis using v1 all by (simp add: vfs_inv_def)
qed

lemma nodes_inv_clear:
  assumes inv: "nodes_inv v" and i: "i < 24" "node_path v i = Some q"
  shows "nodes_inv (vfs_clear_node i v)" "registered (vfs_clear_node i v) = (registered v)(q := None)"
    "node_path (vfs_clear_node i v) j = (if j = i then None else node_path v j)"
    "g_open_files (vfs_clear_node i v) = g_open_files v" "g_mounts (vfs_clear_node i v) = g_mounts v"
proof -
  let ?v = "vfs_clear_node i v"
  have len: "length (g_vfs_nodes v) = 24" "length (g_vfs_paths v) = 24" using nodes_invD [OF inv] by auto
  show at: "node_path ?v j = (if j = i then None else node_path v j)" for j
    using i(1) len by (simp add: vfs_clear_node_def vfs_size_defs)
  show "g_open_files ?v = g_open_files v" "g_mounts ?v = g_mounts v" by (simp_all add: vfs_clear_node_def)
  have cnt: "g_vfs_node_count ?v = g_vfs_node_count v" by (simp add: vfs_clear_node_def)
  have lens: "length (g_vfs_nodes ?v) = 24" "length (g_vfs_paths ?v) = 24"
    using len by (simp_all add: vfs_clear_node_def)
  have "length p = 64" if "p \<in> set (g_vfs_paths ?v)" for p
  proof -
    have "p \<in> set (g_vfs_paths v) \<or> p = fold (\<lambda>j p. p[j := NUL]) [0..<VFS_MAX_PATH] (g_vfs_paths v ! i)"
      using that set_update_subset_insert by (fastforce simp: vfs_clear_node_def split: if_splits)
    then show ?thesis using nodes_invD(7) [OF inv i(1)] inv
      by (auto simp: nodes_inv_def length_fold_update)
  qed
  with lens cnt show inv': "nodes_inv ?v"
    using inv at unfolding nodes_inv_def by (auto split: if_splits)
  show "registered ?v = (registered v)(q := None)"
  proof
    fix x
    have iff: "node_path ?v j = Some x \<longleftrightarrow> node_path v j = Some x \<and> x \<noteq> q" if "j < 24" for j
      using at [of j] i nodes_invD(6) [OF inv, of j i x] that by auto
    show "registered ?v x = ((registered v)(q := None)) x"
    proof (cases "registered ?v x")
      case None
      then have "\<forall>j<24. node_path ?v j \<noteq> Some x" using registered_None [OF inv', of x] by simp
      then have "x = q \<or> (\<forall>j<24. node_path v j \<noteq> Some x)" using iff by auto
      then have "x = q \<or> registered v x = None" unfolding registered_None [OF inv, of x] .
      then show ?thesis using None by auto
    next
      case (Some m)
      then obtain j where j: "j < 24" "g_vfs_nodes ?v ! j = m" "nd_path m = Some x" using registered_iff [OF inv'] by blast
      then have "node_path ?v j = Some x" by simp
      then have "x \<noteq> q" "j \<noteq> i" using iff [OF j(1)] at [of j] by (simp_all split: if_splits)
      then have "m = g_vfs_nodes v ! j" using j(2) by (simp add: vfs_clear_node_def split: if_splits)
      then have "registered v x = Some m" using j(1,3) registered_iff [OF inv, of x m] by blast
      then show ?thesis using Some \<open>x \<noteq> q\<close> by simp
    qed
  qed
qed


lemma unmount_static_spec:
  assumes inv: "vfs_inv v" and ok: "c_ok path" and u: "vfs_unmount_static path v = (v', r)"
  shows "vfs_inv v'" "r = OK \<or> r = ERR" "r = ERR \<Longrightarrow> v' = v" "g_mounts v' = g_mounts v"
    "r = OK \<Longrightarrow> \<exists>q i. normalized path = Some q \<and> i < 24 \<and> node_path v i = Some q \<and>
       registered v' = (registered v)(q := None) \<and>
       descriptors v' = descriptors v |` {k. \<forall>x. descriptors v k = Some x \<longrightarrow> fst x \<noteq> i}"
    "\<And>q. normalized path = Some q \<Longrightarrow> r = ERR \<Longrightarrow> registered v q = None"
proof -
  have ninv: "nodes_inv v" and finv: "files_inv v" using inv by (simp_all add: vfs_inv_def)
  consider (none) "normalized path = None \<or> (\<exists>q. normalized path = Some q \<and> vfs_find_canonical q v = None)"
    | (some) q i where "normalized path = Some q" "vfs_find_canonical q v = Some i"
    by (cases "normalized path"; cases "vfs_find_canonical (the (normalized path)) v") auto
  then have "vfs_inv v' \<and> (r = OK \<or> r = ERR) \<and> (r = ERR \<longrightarrow> v' = v) \<and> g_mounts v' = g_mounts v \<and>
    (r = OK \<longrightarrow> (\<exists>q i. normalized path = Some q \<and> i < 24 \<and> node_path v i = Some q \<and>
       registered v' = (registered v)(q := None) \<and>
       descriptors v' = descriptors v |` {k. \<forall>x. descriptors v k = Some x \<longrightarrow> fst x \<noteq> i})) \<and>
    (\<forall>q. normalized path = Some q \<longrightarrow> r = ERR \<longrightarrow> registered v q = None)"
  proof cases
    case none
    then have "v' = v" "r = ERR" using u by (auto simp: vfs_unmount_static_def)
    moreover have "registered v q = None" if q: "normalized path = Some q" for q
    proof -
      have "NUL \<notin> set q" using normalized_canonical [OF ok q] by (simp add: canonical_def)
      then show ?thesis using find_canonical_registered [OF ninv, of q] none q by auto
    qed
    ultimately show ?thesis using inv by simp
  next
    case (some q i)
    have "NUL \<notin> set q" using normalized_canonical [OF ok some(1)] by (simp add: canonical_def)
    then have i: "i < 24" "node_path v i = Some q" using find_canonical_Some [OF ninv] some(2) by auto
    let ?P = "\<lambda>f. of_used f \<noteq> 0 \<and> of_node f = Some i"
    define w where "w = clear_files ?P v"
    have v': "v' = vfs_clear_node i w" "r = OK"
      using u some by (simp_all add: vfs_unmount_static_def vfs_drop_open_files_for_node_def w_def)
    have wn: "nodes_inv w" "node_path w i = Some q" "registered w = registered v" "g_mounts w = g_mounts v"
      using ninv i by (simp_all add: w_def registered_def fun_eq_iff)
    note cl = nodes_inv_clear [OF wn(1) i(1) wn(2)]
    have wf: "files_inv w" unfolding w_def by (rule files_inv_clear [OF finv])
    have "file_ok v' f" if f: "f \<in> set (g_open_files w)" for f
    proof -
      obtain k where k: "k < 128" "f = g_open_files w ! k"
        using f files_invD(1) [OF wf] by (auto simp: in_set_conv_nth)
      have "\<not> ?P f" using clear_files_nth(2) [OF files_invD(1) [OF finv] k(1), of ?P] k(2) by (auto simp: w_def)
      moreover have "file_ok w f" using files_invD(2) [OF wf k(1)] k(2) by simp
      ultimately show ?thesis unfolding file_ok_def v'(1) cl(3) by auto
    qed
    then have "files_inv v'" using wf unfolding files_inv_def v'(1) cl(4) by blast
    moreover have "nodes_inv v'" "mounts_inv v'" using cl inv wn(4) unfolding v'(1) by (simp_all add: vfs_inv_def mounts_inv_def)
    ultimately have iv: "vfs_inv v'" by (simp add: vfs_inv_def)
    have "descriptors v' = descriptors w" by (simp add: descriptors_def v'(1) cl(4) fun_eq_iff)
    also have "descriptors w = descriptors v |` {k. \<not> (\<exists>x. descriptors v k = Some x \<and> fst x = i)}"
      unfolding w_def
    proof (rule descriptors_clear [OF finv])
      fix k :: nat
      assume k: "k < 128" "of_used (g_open_files v ! k) \<noteq> 0"
      let ?f = "g_open_files v ! k"
      have "descriptors v (of_owner_pid ?f, of_local_fd ?f) = Some (fd_content ?f)" using k by (intro descriptors_at [OF finv]) (auto simp: file_for_def)
      moreover obtain n where "of_node ?f = Some n" using files_invD(2) [OF finv k(1)] k(2) by (auto simp: file_ok_def)
      ultimately show "(of_used ?f \<noteq> 0 \<and> of_node ?f = Some i) \<longleftrightarrow>
          (\<exists>x. descriptors v (of_owner_pid ?f, of_local_fd ?f) = Some x \<and> fst x = i)"
        using k(2) by (simp add: fd_content_def)
    qed
    also have "{k. \<not> (\<exists>x. descriptors v k = Some x \<and> fst x = i)} = {k. \<forall>x. descriptors v k = Some x \<longrightarrow> fst x \<noteq> i}" by auto
    finally have "descriptors v' = descriptors v |` {k. \<forall>x. descriptors v k = Some x \<longrightarrow> fst x \<noteq> i}" .
    moreover have "registered v' = (registered v)(q := None)" "g_mounts v' = g_mounts v"
      unfolding v'(1) cl(2,5) wn(3,4) by simp_all
    ultimately show ?thesis using v'(2) i some(1) iv by auto
  qed
  then show "vfs_inv v'" "r = OK \<or> r = ERR" "r = ERR \<Longrightarrow> v' = v" "g_mounts v' = g_mounts v"
    "r = OK \<Longrightarrow> \<exists>q i. normalized path = Some q \<and> i < 24 \<and> node_path v i = Some q \<and>
       registered v' = (registered v)(q := None) \<and>
       descriptors v' = descriptors v |` {k. \<forall>x. descriptors v k = Some x \<longrightarrow> fst x \<noteq> i}"
    "\<And>q. normalized path = Some q \<Longrightarrow> r = ERR \<Longrightarrow> registered v q = None" by blast+
qed

subsection \<open>Mounts\<close>

abbreviation mount_path :: "vfs \<Rightarrow> nat \<Rightarrow> string" where
  "mount_path v i \<equiv> c_string (mt_path (g_mounts v ! i))"

abbreviation mounted :: "vfs \<Rightarrow> nat \<Rightarrow> bool" where
  "mounted v i \<equiv> mt_used (g_mounts v ! i) \<noteq> 0"

lemma mounts_invD:
  assumes "mounts_inv v"
  shows "length (g_mounts v) = 4" "i < 4 \<Longrightarrow> length (mt_path (g_mounts v ! i)) = 64"
    "i < 4 \<Longrightarrow> mounted v i \<Longrightarrow> canonical (mount_path v i)"
    "i < 4 \<Longrightarrow> j < 4 \<Longrightarrow> mounted v i \<Longrightarrow> mounted v j \<Longrightarrow> mount_path v i = mount_path v j \<Longrightarrow> i = j"
  using assms unfolding mounts_inv_def by (blast, metis nth_mem, blast, blast)

lemma find_mount_exact_Some:
  assumes "mounts_inv v" "NUL \<notin> set q"
  shows "vfs_find_mount_exact q v = Some i \<longleftrightarrow> i < 4 \<and> mounted v i \<and> mount_path v i = q"
proof -
  have P: "mounted v j \<and> kstreq (Some (mount_path v j)) (Some q) \<longleftrightarrow> mounted v j \<and> mount_path v j = q" for j
  proof -
    have "NUL \<notin> set (mount_path v j)" by (auto dest: set_takeWhileD)
    then show ?thesis using kstreq_canonical [OF _ assms(2)] by simp
  qed
  have "\<not> (mounted v j \<and> mount_path v j = q)" if "j < i" "i < 4" "mounted v i" "mount_path v i = q" for j
    using mounts_invD(4) [OF assms(1), of j i] that by auto
  then show ?thesis unfolding vfs_find_mount_exact_def P find_upt_Some_iff vfs_size_defs by blast
qed

text \<open>The depth of a canonical path, and the mounts a path lies strictly below.\<close>

definition below :: "string \<Rightarrow> string \<Rightarrow> bool" where
  "below path mount \<longleftrightarrow> strict_prefix (tokens mount) (tokens path)"

lemma canonical_components:
  assumes "canonical q"
  obtains cs where "q = spell cs" "\<forall>c\<in>set cs. component_ok c" "tokens q = cs"
proof -
  have c: "canon (Some q) = Some q" "NUL \<notin> set q" using assms normalized_canon by (auto simp: canonical_def)
  obtain cs where "q = spell cs" "\<forall>c\<in>set cs. component_ok c" using canon_Some [OF c] by blast
  then show thesis using that tokens_spell by blast
qed

lemma below_iff:
  assumes "canonical p" "canonical m"
  shows "vfs_path_is_mount_child (Some p) (Some m) \<longleftrightarrow> below p m"
proof -
  obtain cs where cs: "p = spell cs" "\<forall>c\<in>set cs. component_ok c" "tokens p = cs" using canonical_components [OF assms(1)] .
  obtain ms where ms: "m = spell ms" "\<forall>c\<in>set ms. component_ok c" "tokens m = ms" using canonical_components [OF assms(2)] .
  show ?thesis using mount_child_components [OF cs(2) ms(2)] cs ms by (simp add: below_def)
qed

lemma spell_length_mono:
  assumes "\<forall>c\<in>set ms. component_ok c" "strict_prefix ns ms"
  shows "length (spell ns) < length (spell ms)"
proof -
  obtain zs where z: "ms = ns @ zs" "zs \<noteq> []" using assms(2) by (auto simp: strict_prefix_def prefix_def)
  show ?thesis
  proof (cases "ns = []")
    case True
    then show ?thesis using spell_length_pos(3) [OF assms(1)] z by (simp add: spell_def)
  next
    case False
    then show ?thesis using spell_append [OF False z(2)] spell_length_pos(1) [of zs] assms(1) z(1) by auto
  qed
qed

text \<open>The scan over the mount table keeps the mount with the longest path seen so far.\<close>

lemma find_mount_for_path_spec:
  assumes inv: "mounts_inv v" and q: "canonical q"
  shows "case vfs_find_mount_for_path q v of
      None \<Rightarrow> \<forall>i<4. mounted v i \<longrightarrow> \<not> below q (mount_path v i)
    | Some i \<Rightarrow> i < 4 \<and> mounted v i \<and> below q (mount_path v i) \<and>
        (\<forall>j<4. mounted v j \<and> below q (mount_path v j) \<and> j \<noteq> i \<longrightarrow>
           strict_prefix (tokens (mount_path v j)) (tokens (mount_path v i)))"
proof -
  define cand where "cand i \<longleftrightarrow> mounted v i \<and> below q (mount_path v i)" for i
  define len where "len i = length (mount_path v i)" for i
  define step where "step = (\<lambda>i (best, best_length).
        let m = mount_path v i
        in if mt_used (g_mounts v ! i) = 0 \<or> \<not> vfs_path_is_mount_child (Some q) (Some m) then (best, best_length)
           else if best = None \<or> vfs_path_length (Some m) > best_length then (Some i, vfs_path_length (Some m))
           else (best, best_length))"
  have st: "step i (b, l) = (if \<not> cand i then (b, l) else if b = None \<or> len i > l then (Some i, len i) else (b, l))"
    if "i < 4" for i b l
  proof (cases "mounted v i")
    case True
    have "NUL \<notin> set (mount_path v i)" by (auto dest: set_takeWhileD)
    then show ?thesis using True below_iff [OF q mounts_invD(3) [OF inv that True]]
      by (simp add: step_def cand_def len_def vfs_path_length_def Let_def)
  qed (simp add: step_def cand_def Let_def)
  have loop: "case fold step [0..<n] (None, 0) of (b, l) \<Rightarrow>
      (case b of None \<Rightarrow> \<forall>i<n. \<not> cand i | Some i \<Rightarrow> i < n \<and> cand i \<and> l = len i \<and> (\<forall>j<n. cand j \<longrightarrow> len j \<le> len i))"
    if "n \<le> 4" for n
    using that
  proof (induction n)
    case (Suc n)
    obtain b l where bl: "fold step [0..<n] (None, 0) = (b, l)" by fastforce
    have "fold step [0..<Suc n] (None, 0) = step n (b, l)" using bl by simp
    moreover note st [of n b l]
    ultimately show ?case using Suc bl by (cases b) (auto simp: less_Suc_eq)
  qed simp
  have eq: "vfs_find_mount_for_path q v = fst (fold step [0..<4] (None, 0))"
    by (simp only: vfs_find_mount_for_path_def step_def vfs_size_defs)
  have longer: "strict_prefix (tokens (mount_path v j)) (tokens (mount_path v i))"
    if c: "i < 4" "j < 4" "cand i" "cand j" "j \<noteq> i" "len j \<le> len i" for i j
  proof -
    have mi: "canonical (mount_path v i)" and mj: "canonical (mount_path v j)"
      using mounts_invD(3) [OF inv] c by (auto simp: cand_def)
    obtain cs where cs: "q = spell cs" "\<forall>c\<in>set cs. component_ok c" "tokens q = cs" using canonical_components [OF q] .
    obtain ims where i: "mount_path v i = spell ims" "\<forall>c\<in>set ims. component_ok c" "tokens (mount_path v i) = ims" using canonical_components [OF mi] .
    obtain js where j: "mount_path v j = spell js" "\<forall>c\<in>set js. component_ok c" "tokens (mount_path v j) = js" using canonical_components [OF mj] .
    have pre: "prefix ims cs" "prefix js cs" using c cs i j by (auto simp: cand_def below_def strict_prefix_def)
    have "mount_path v i \<noteq> mount_path v j" using mounts_invD(4) [OF inv c(1,2)] c by (auto simp: cand_def)
    then have ne: "ims \<noteq> js" using i j by auto
    have "\<not> strict_prefix ims js" using spell_length_mono [of js ims] j i c(6) by (auto simp: len_def)
    then show ?thesis using prefix_same_cases [OF pre] ne i j by (auto simp: strict_prefix_def)
  qed
  obtain b l where bl: "fold step [0..<4] (None, 0) = (b, l)" by fastforce
  show ?thesis
  proof (cases b)
    case None
    then show ?thesis using loop [of 4] bl unfolding eq by (auto simp: cand_def)
  next
    case (Some i)
    then have i: "i < 4" "cand i" "\<forall>j<4. cand j \<longrightarrow> len j \<le> len i" using loop [of 4] bl by simp_all
    then have "strict_prefix (tokens (mount_path v j)) (tokens (mount_path v i))" if "j < 4" "cand j" "j \<noteq> i" for j
      using longer [of i j] that by blast
    then show ?thesis using i Some bl unfolding eq by (auto simp: cand_def)
  qed
qed


lemma vfs_mount_spec:
  assumes inv: "vfs_inv v" and ok: "c_ok path" and m: "vfs_mount path (Some ops) context v = (v', r)"
  shows "vfs_inv v'" "r = OK \<or> r = ERR" "g_open_files v' = g_open_files v" "g_vfs_nodes v' = g_vfs_nodes v"
    "r = ERR \<Longrightarrow> v' = v"
    "r = OK \<Longrightarrow> \<exists>q i. normalized path = Some q \<and> i < 4 \<and> \<not> mounted v i \<and> mounted v' i \<and> mount_path v' i = q \<and>
       mt_ops (g_mounts v' ! i) = ops \<and> mt_context (g_mounts v' ! i) = context \<and>
       (\<forall>j<4. j \<noteq> i \<longrightarrow> g_mounts v' ! j = g_mounts v ! j) \<and> (\<forall>j<4. mounted v j \<longrightarrow> mount_path v j \<noteq> q)"
proof -
  have minv: "mounts_inv v" using inv by (simp add: vfs_inv_def)
  consider (fail) "v' = v" "r = ERR"
    | (ok) q i where "normalized path = Some q" "vfs_find_mount_exact q v = None" "i < 4" "\<not> mounted v i"
      "vfs_mount path (Some ops) context v = (case vfs_copy_path (mt_path (g_mounts v ! i)) (Some q) of (path', status) \<Rightarrow>
                       let m = (g_mounts v ! i)\<lparr>mt_path := path'\<rparr>
                       in if status \<noteq> OK then (v\<lparr>g_mounts := (g_mounts v)[i := m]\<rparr>, ERR)
                          else (v\<lparr>g_mounts := (g_mounts v)[i := m\<lparr>mt_ops := ops, mt_context := context, mt_used := 1\<rparr>]\<rparr>, OK))"
  proof (cases "normalized path")
    case None
    then show ?thesis using m fail by (simp add: vfs_mount_def)
  next
    case (Some q)
    show ?thesis
    proof (cases "find (\<lambda>i. mt_used (g_mounts v ! i) = 0) [0..<VFS_MAX_MOUNTS]")
      case None
      then show ?thesis using m Some fail by (auto simp: vfs_mount_def split: if_splits)
    next
      case (Some i)
      then have "i < 4" "\<not> mounted v i" by (auto simp: find_upt_Some_iff vfs_size_defs)
      then show ?thesis using m Some \<open>normalized path = Some q\<close> fail ok [of q i]
        by (auto simp: vfs_mount_def simp del: One_nat_def split: if_splits)
    qed
  qed
  then have "vfs_inv v' \<and> (r = OK \<or> r = ERR) \<and> g_open_files v' = g_open_files v \<and> g_vfs_nodes v' = g_vfs_nodes v \<and>
    (r = ERR \<longrightarrow> v' = v) \<and>
    (r = OK \<longrightarrow> (\<exists>q i. normalized path = Some q \<and> i < 4 \<and> \<not> mounted v i \<and> mounted v' i \<and> mount_path v' i = q \<and>
       mt_ops (g_mounts v' ! i) = ops \<and> mt_context (g_mounts v' ! i) = context \<and>
       (\<forall>j<4. j \<noteq> i \<longrightarrow> g_mounts v' ! j = g_mounts v ! j) \<and> (\<forall>j<4. mounted v j \<longrightarrow> mount_path v j \<noteq> q)))"
  proof cases
    case fail
    then show ?thesis using inv by simp
  next
    case (ok q i)
    have cq: "canonical q" using normalized_canonical [OF assms(2) ok(1)] .
    then have cn: "canon (Some q) = Some q" "NUL \<notin> set q" using normalized_canon by (auto simp: canonical_def)
    obtain arr st where ar: "vfs_normalize_path (Some q) (mt_path (g_mounts v ! i)) = (arr, st)" by fastforce
    have "st = OK" "holds_string arr q"
      using vfs_normalize_path_canon [OF cn(2) mounts_invD(2) [OF minv ok(3)]] cn(1) ar by simp_all
    then have arr: "st = OK" "length arr = 64" "c_string arr = q" using holds_string_c_string cn(2) by (auto simp: holds_string_def)
    define m' where "m' = (g_mounts v ! i)\<lparr>mt_path := arr, mt_ops := ops, mt_context := context, mt_used := 1\<rparr>"
    have v': "v' = v\<lparr>g_mounts := (g_mounts v)[i := m']\<rparr>" "r = OK"
      using m ok(5) ar arr(1) by (simp_all add: vfs_copy_path_def Let_def m'_def)
    have at: "g_mounts v' ! j = (if j = i then m' else g_mounts v ! j)" if "j < 4" for j
      using that mounts_invD(1) [OF minv] by (simp add: v'(1))
    have new: "mount_path v j \<noteq> q" if "j < 4" "mounted v j" for j
      using ok(2) find_mount_exact_Some [OF minv cn(2), of j] that by auto
    have len: "length (g_mounts v') = 4" using mounts_invD(1) [OF minv] by (simp add: v'(1))
    have "length (mt_path x) = 64" if "x \<in> set (g_mounts v')" for x
      using that len at arr(2) mounts_invD(2) [OF minv] by (auto simp: in_set_conv_nth m'_def)
    moreover have mu: "mounted v' j \<longleftrightarrow> j = i \<or> mounted v j" and mp: "mount_path v' j = (if j = i then q else mount_path v j)"
      if "j < 4" for j using at [OF that] arr(3) by (simp_all add: m'_def)
    then have "canonical (mount_path v' j)" if "j < 4" "mounted v' j" for j
      using mu [OF that(1)] mp [OF that(1)] that(2) cq mounts_invD(3) [OF minv that(1)] by (cases "j = i") simp_all
    moreover have "j = k" if "j < 4" "k < 4" "mounted v' j" "mounted v' k" "mount_path v' j = mount_path v' k" for j k
    proof -
      have "mounted v j" if "j \<noteq> i" using mu [OF \<open>j < 4\<close>] \<open>mounted v' j\<close> that by simp
      moreover have "mounted v k" if "k \<noteq> i" using mu [OF \<open>k < 4\<close>] \<open>mounted v' k\<close> that by simp
      moreover have "(if j = i then q else mount_path v j) = (if k = i then q else mount_path v k)"
        using that(5) unfolding mp [OF that(1)] mp [OF that(2)] .
      ultimately show ?thesis using new [OF that(1)] new [OF that(2)] mounts_invD(4) [OF minv that(1,2)] by metis
    qed
    ultimately have "mounts_inv v'" using len unfolding mounts_inv_def by blast
    moreover have "nodes_inv v'" "files_inv v'" using inv by (simp_all add: vfs_inv_def nodes_inv_def files_inv_def file_ok_def v'(1))
    ultimately have "vfs_inv v'" by (simp add: vfs_inv_def)
    moreover have "mounted v' i" "mount_path v' i = q" "mt_ops (g_mounts v' ! i) = ops" "mt_context (g_mounts v' ! i) = context"
      using at [OF ok(3)] arr(3) by (simp_all add: m'_def)
    moreover have "\<forall>j<4. j \<noteq> i \<longrightarrow> g_mounts v' ! j = g_mounts v ! j" using at by simp
    ultimately show ?thesis using v' ok(1,3,4) new by auto
  qed
  then show "vfs_inv v'" "r = OK \<or> r = ERR" "g_open_files v' = g_open_files v" "g_vfs_nodes v' = g_vfs_nodes v"
    "r = ERR \<Longrightarrow> v' = v"
    "r = OK \<Longrightarrow> \<exists>q i. normalized path = Some q \<and> i < 4 \<and> \<not> mounted v i \<and> mounted v' i \<and> mount_path v' i = q \<and>
       mt_ops (g_mounts v' ! i) = ops \<and> mt_context (g_mounts v' ! i) = context \<and>
       (\<forall>j<4. j \<noteq> i \<longrightarrow> g_mounts v' ! j = g_mounts v ! j) \<and> (\<forall>j<4. mounted v j \<longrightarrow> mount_path v j \<noteq> q)"
    by blast+
qed

subsection \<open>Open files\<close>

abbreviation fd_key :: "vfs_open_file \<Rightarrow> u32 \<times> u32" where
  "fd_key f \<equiv> (of_owner_pid f, of_local_fd f)"

lemma file_update:
  assumes inv: "files_inv v" and i: "i < 128" and f: "file_ok v f"
    and fresh: "\<And>j. j < 128 \<Longrightarrow> j \<noteq> i \<Longrightarrow> of_used f \<noteq> 0 \<Longrightarrow> \<not> file_for (g_open_files v ! j) (fd_key f)"
    and v': "v' = v\<lparr>g_open_files := (g_open_files v)[i := f]\<rparr>"
  shows "files_inv v'"
    "descriptors v' k = (if file_for f k then Some (fd_content f)
       else if file_for (g_open_files v ! i) k then None else descriptors v k)"
proof -
  note len = files_invD(1) [OF inv]
  have at: "g_open_files v' ! j = (if j = i then f else g_open_files v ! j)" if "j < 128" for j
    using that len by (simp add: v')
  have ok: "file_ok v' g \<longleftrightarrow> file_ok v g" for g by (simp add: file_ok_def v')
  have "file_ok v' g" if g: "g \<in> set (g_open_files v')" for g
  proof -
    obtain j where j: "j < 128" "g = g_open_files v' ! j" using g len by (auto simp: in_set_conv_nth v')
    then show ?thesis using f files_invD(2) [OF inv j(1)] at [OF j(1)] by (simp add: ok)
  qed
  moreover have "j = k" if "j < 128" "k < 128" "same_fd (g_open_files v' ! j) (g_open_files v' ! k)" for j k
    using that at [OF that(1)] at [OF that(2)] fresh [of j] fresh [of k] files_invD(3) [OF inv, of j k]
    by (auto simp: file_for_def split: if_splits)
  ultimately show inv': "files_inv v'" using len unfolding files_inv_def by (simp add: v')
  show "descriptors v' k = (if file_for f k then Some (fd_content f)
       else if file_for (g_open_files v ! i) k then None else descriptors v k)"
  proof (cases "file_for f k")
    case True
    have fi: "g_open_files v' ! i = f" using at [OF i] by simp
    have "descriptors v' k = Some (fd_content (g_open_files v' ! i))" by (rule descriptors_at [OF inv' i]) (unfold fi, rule True)
    then have "descriptors v' k = Some (fd_content f)" unfolding fi .
    then show ?thesis using True by simp
  next
    case new: False
    show ?thesis
    proof (cases "file_for (g_open_files v ! i) k")
      case True
      have "\<not> file_for (g_open_files v' ! j) k" if "j < 128" for j
      proof (cases "j = i")
        case True
        then show ?thesis using at [OF that] new by simp
      next
        case j: False
        show ?thesis
        proof
          assume "file_for (g_open_files v' ! j) k"
          then have "file_for (g_open_files v ! j) k" using at [OF that] j by simp
          then show False using files_invD(3) [OF inv that i] True j by (auto simp: file_for_def)
        qed
      qed
      then have "descriptors v' k = None" unfolding descriptors_None by blast
      then show ?thesis unfolding if_not_P [OF new] if_P [OF True] .
    next
      case False
      have "descriptors v k = descriptors v' k"
      proof (rule descriptors_eqI [OF inv inv'])
        fix j :: nat
        assume j: "j < 128"
        show "file_for (g_open_files v ! j) k \<longleftrightarrow> file_for (g_open_files v' ! j) k"
          using at [OF j] new False by (cases "j = i") auto
        show "fd_content (g_open_files v ! j) = fd_content (g_open_files v' ! j)" if "file_for (g_open_files v ! j) k"
          using at [OF j] that False by (cases "j = i") auto
      qed
      then show ?thesis unfolding if_not_P [OF new] if_not_P [OF False] by (rule sym)
    qed
  qed
qed

subsection \<open>When nodes are accepted\<close>

lemma all_mountable:
  assumes inv: "nodes_inv v" and len: "count \<le> length ns" and ok: "\<forall>n\<in>set (take count ns). c_ok (nd_path n)"
  shows "list_all (mountable ns v) [0..<count] \<longleftrightarrow>
    (\<forall>n\<in>set (take count ns). normalized (nd_path n) \<noteq> None \<and> (nd_read n \<noteq> None \<or> nd_write n \<noteq> None) \<and>
       registered v (fst (place n)) = None) \<and> distinct (map (fst \<circ> place) (take count ns))"
proof -
  have okn: "c_ok (nd_path (ns ! j))" if "j < count" for j
    using ok that len nth_mem [of j "take count ns"] by simp
  have mt: "mountable ns v i \<longleftrightarrow> normalized (nd_path (ns ! i)) \<noteq> None \<and>
     (nd_read (ns ! i) \<noteq> None \<or> nd_write (ns ! i) \<noteq> None) \<and> registered v (fst (place (ns ! i))) = None \<and>
     (\<forall>j<i. normalized (nd_path (ns ! j)) \<noteq> None \<and> fst (place (ns ! j)) \<noteq> fst (place (ns ! i)))" if "i < count" for i
    using mountable_iff [OF inv, of i ns] okn that by simp
  have each: "(\<forall>n\<in>set (take count ns). P n) \<longleftrightarrow> (\<forall>i<count. P (ns ! i))" for P
    using len by (auto simp: all_set_conv_all_nth)
  have dist: "distinct (map (fst \<circ> place) (take count ns)) \<longleftrightarrow> (\<forall>i<count. \<forall>j<i. fst (place (ns ! j)) \<noteq> fst (place (ns ! i)))"
    using len by (auto simp: distinct_conv_nth) (metis linorder_neqE_nat order_less_trans)
  have "list_all (mountable ns v) [0..<count] \<longleftrightarrow> (\<forall>i<count. mountable ns v i)"
    by (auto simp: list_all_iff)
  also have "\<dots> \<longleftrightarrow> (\<forall>i<count. normalized (nd_path (ns ! i)) \<noteq> None \<and>
     (nd_read (ns ! i) \<noteq> None \<or> nd_write (ns ! i) \<noteq> None) \<and> registered v (fst (place (ns ! i))) = None) \<and>
     (\<forall>i<count. \<forall>j<i. fst (place (ns ! j)) \<noteq> fst (place (ns ! i)))"
    using mt by (auto dest: order_less_trans)
  finally show ?thesis unfolding each dist .
qed

lemma mount_static_accepts:
  assumes inv: "vfs_inv v" and len: "count \<le> length ns" and ok: "\<forall>n\<in>set (take count ns). c_ok (nd_path n)"
  shows "snd (vfs_mount_static (Some ns) count v) = OK \<longleftrightarrow>
     0 < count \<and> count \<le> vfs_free_node_count v \<and> list_all (mountable ns v) [0..<count]"
proof (cases "count = 0 \<or> count > vfs_free_node_count v \<or> \<not> list_all (mountable ns v) [0..<count]")
  case True
  then show ?thesis by (auto simp: vfs_mount_static_def)
next
  case False
  have ninv: "nodes_inv v" using inv by (simp add: vfs_inv_def)
  have all: "(\<forall>n\<in>set (take count ns). c_ok (nd_path n) \<and> normalized (nd_path n) \<noteq> None \<and> registered v (fst (place n)) = None)"
    and dist: "distinct (map (\<lambda>n. fst (place n)) (take count ns))"
    using all_mountable [OF ninv len ok] False ok by (auto simp: comp_def)
  have "length (take count ns) \<le> vfs_free_node_count v" using False len by simp
  from enter_nodes_spec [OF ninv this all dist] show ?thesis using False by (auto simp: vfs_mount_static_def)
qed

definition empty_vfs :: vfs where
  "empty_vfs =
     \<lparr>g_vfs_nodes = replicate 24 \<lparr>nd_path = None, nd_size = 0, nd_read = None, nd_write = None, nd_stat = None, nd_context = None\<rparr>,
      g_vfs_paths = replicate 24 (replicate 64 NUL), g_vfs_node_count = 0,
      g_mounts = replicate 4 \<lparr>mt_path = replicate 64 NUL, mt_ops = \<lparr>mo_open = None, mo_read_path = None, mo_list = None,
         mo_stat_path = None, mo_list_path = None, mo_metadata_path = None, mo_readdir_path = None, mo_fsinfo = None,
         mo_unlink = None, mo_rename = None\<rparr>, mt_context = None, mt_used = 0\<rparr>,
      g_open_files = replicate 128 \<lparr>of_node = None, of_offset = 0, of_flags = 0, of_owner_pid = 0, of_local_fd = 0, of_used = 0\<rparr>\<rparr>"

lemma empty_vfs_inv: "vfs_inv empty_vfs"
  by (simp add: vfs_inv_def nodes_inv_def mounts_inv_def files_inv_def file_ok_def empty_vfs_def)

lemma empty_vfs_free: "vfs_free_node_count empty_vfs = 24" "registered empty_vfs q = None"
  by code_simp (simp add: empty_vfs_def registered_def find_None_iff)

subsection \<open>Properties\<close>

text \<open>
  C25: the node table is a finite map from canonical paths to nodes.  \<open>vfs_mount_static\<close> is
  atomic: it accepts a batch exactly when it is non-empty, fits the free slots, and every
  node has a valid path, a read or write callback and a path that is neither registered nor
  used twice in the batch; it then adds exactly these nodes under their canonical paths, and
  otherwise the whole VFS is unchanged.  \<open>vfs_unmount_static\<close> removes exactly the named node
  and closes exactly the descriptors open on it.  Both keep the invariant of the tables, and
  \<open>vfs_find\<close> looks up the map.
\<close>

theorem vfs_nodes_refine_map:
  assumes "vfs_inv v" "count \<le> length ns" "\<forall>n\<in>set (take count ns). c_ok (nd_path n)" "c_ok path"
  shows "(case vfs_mount_static (Some ns) count v of (v', r) \<Rightarrow> vfs_inv v' \<and>
      (if 0 < count \<and> count \<le> vfs_free_node_count v \<and>
          (\<forall>n\<in>set (take count ns). normalized (nd_path n) \<noteq> None \<and> (nd_read n \<noteq> None \<or> nd_write n \<noteq> None) \<and>
             registered v (fst (place n)) = None) \<and> distinct (map (fst \<circ> place) (take count ns))
       then r = OK \<and> registered v' = registered v ++ map_of (map place (take count ns)) \<and>
            g_open_files v' = g_open_files v \<and> g_mounts v' = g_mounts v
       else r = ERR \<and> v' = v)) \<and>
    (case vfs_unmount_static path v of (v', r) \<Rightarrow> vfs_inv v' \<and> g_mounts v' = g_mounts v \<and>
      (case normalized path of None \<Rightarrow> r = ERR \<and> v' = v
       | Some q \<Rightarrow> if registered v q = None then r = ERR \<and> v' = v
           else r = OK \<and> registered v' = (registered v)(q := None) \<and>
             (\<exists>i<24. node_path v i = Some q \<and>
                descriptors v' = descriptors v |` {k. \<forall>x. descriptors v k = Some x \<longrightarrow> fst x \<noteq> i}))) \<and>
    map_option (\<lambda>i. g_vfs_nodes v ! i) (vfs_find path v) = Option.bind (normalized path) (registered v)"
proof (intro conjI)
  have ninv: "nodes_inv v" using assms(1) by (simp add: vfs_inv_def)
  obtain v1 r1 where m: "vfs_mount_static (Some ns) count v = (v1, r1)" by fastforce
  show "case vfs_mount_static (Some ns) count v of (v', r) \<Rightarrow> vfs_inv v' \<and>
      (if 0 < count \<and> count \<le> vfs_free_node_count v \<and>
          (\<forall>n\<in>set (take count ns). normalized (nd_path n) \<noteq> None \<and> (nd_read n \<noteq> None \<or> nd_write n \<noteq> None) \<and>
             registered v (fst (place n)) = None) \<and> distinct (map (fst \<circ> place) (take count ns))
       then r = OK \<and> registered v' = registered v ++ map_of (map place (take count ns)) \<and>
            g_open_files v' = g_open_files v \<and> g_mounts v' = g_mounts v
       else r = ERR \<and> v' = v)"
    using mount_static_spec [OF assms(1-3) m] mount_static_accepts [OF assms(1-3)] assms(1) m
    unfolding all_mountable [OF ninv assms(2,3)] by (auto split: if_splits)
  have reg: "registered v q = None \<longleftrightarrow> (\<forall>i<24. node_path v i \<noteq> Some q)" for q
    by (rule registered_None [OF ninv])
  obtain v2 r2 where u: "vfs_unmount_static path v = (v2, r2)" by fastforce
  note us = unmount_static_spec [OF assms(1,4) u]
  show "case vfs_unmount_static path v of (v', r) \<Rightarrow> vfs_inv v' \<and> g_mounts v' = g_mounts v \<and>
      (case normalized path of None \<Rightarrow> r = ERR \<and> v' = v
       | Some q \<Rightarrow> if registered v q = None then r = ERR \<and> v' = v
           else r = OK \<and> registered v' = (registered v)(q := None) \<and>
             (\<exists>i<24. node_path v i = Some q \<and>
                descriptors v' = descriptors v |` {k. \<forall>x. descriptors v k = Some x \<longrightarrow> fst x \<noteq> i}))"
    using us reg unfolding u by (cases "normalized path"; cases "r2 = OK") (auto 0 3)
  show "map_option (\<lambda>i. g_vfs_nodes v ! i) (vfs_find path v) = Option.bind (normalized path) (registered v)"
    using find_canonical_registered [OF ninv] normalized_canonical [OF assms(4)]
    by (cases "normalized path") (auto simp: vfs_find_def canonical_def)
qed


text \<open>Two nodes entered into the empty table, the second with a path that needs normalising.\<close>

definition example_nodes :: "vfs_node list" where
  "example_nodes =
     [\<lparr>nd_path = Some ''/a'', nd_size = 5, nd_read = Some 1, nd_write = None, nd_stat = None, nd_context = Some 0\<rparr>,
      \<lparr>nd_path = Some ''/b//./c'', nd_size = 0, nd_read = None, nd_write = Some 3, nd_stat = None, nd_context = Some 1\<rparr>]"

lemma example_nodes_paths: "map (\<lambda>n. normalized (nd_path n)) example_nodes = [Some ''/a'', Some ''/b/c'']"
  by code_simp

theorem vfs_nodes_refine_map_witness:
  "case vfs_mount_static (Some example_nodes) 2 empty_vfs of (v', r) \<Rightarrow> r = OK \<and>
     registered v' ''/b/c'' = Some ((example_nodes ! 1)\<lparr>nd_path := Some ''/b/c''\<rparr>) \<and> registered v' ''/c'' = None"
proof -
  have ns: "length example_nodes = 2" "take 2 example_nodes = example_nodes" by (simp_all add: example_nodes_def)
  have ok: "\<forall>n\<in>set (take 2 example_nodes). c_ok (nd_path n)" "c_ok (Some ''/a'')"
    by (simp_all add: example_nodes_def c_ok_def)
  have n: "normalized (Some ''/a'') = Some ''/a''" "normalized (Some ''/b//./c'') = Some ''/b/c''"
    using example_nodes_paths by (simp_all add: example_nodes_def)
  show ?thesis
    using vfs_nodes_refine_map [OF empty_vfs_inv _ ok, THEN conjunct1]
    by (simp add: ns empty_vfs_free) (simp add: example_nodes_def n place_def map_add_def empty_vfs_free split: prod.splits)
qed

text \<open>
  C26: the filesystem responsible for a path is the one mounted on its longest prefix of whole
  components.  \<open>mount_of\<close> answers the mount at the path itself when there is one; otherwise
  a mount whose components are a proper prefix of those of the path, of which every other
  such mount is a proper prefix; and nothing exactly when no mount covers the path.
\<close>

theorem vfs_longest_prefix_mount:
  assumes "vfs_inv v" "canonical q"
  shows "case mount_of q v of
      None \<Rightarrow> \<forall>i<4. mounted v i \<longrightarrow> \<not> Sublist.prefix (tokens (mount_path v i)) (tokens q)
    | Some i \<Rightarrow> i < 4 \<and> mounted v i \<and> Sublist.prefix (tokens (mount_path v i)) (tokens q) \<and>
        (\<forall>j<4. mounted v j \<and> Sublist.prefix (tokens (mount_path v j)) (tokens q) \<and> j \<noteq> i \<longrightarrow>
           strict_prefix (tokens (mount_path v j)) (tokens (mount_path v i)))"
proof -
  have minv: "mounts_inv v" and nul: "NUL \<notin> set q" using assms by (simp_all add: vfs_inv_def canonical_def)
  have same: "mount_path v i = q" if "i < 4" "mounted v i" "tokens (mount_path v i) = tokens q" for i
    using canonical_components [OF mounts_invD(3) [OF minv that(1,2)]] canonical_components [OF assms(2)] that(3) by metis
  have pre: "Sublist.prefix (tokens (mount_path v i)) (tokens q) \<longleftrightarrow> mount_path v i = q \<or> below q (mount_path v i)"
    if "i < 4" "mounted v i" for i
    using same [OF that] unfolding below_def by (auto simp: strict_prefix_def)
  show ?thesis
  proof (cases "vfs_find_mount_exact q v")
    case None
    then have "mount_path v i \<noteq> q" if "i < 4" "mounted v i" for i
      using find_mount_exact_Some [OF minv nul] that by (metis option.distinct(1))
    then show ?thesis using find_mount_for_path_spec [OF minv assms(2)] None pre
      by (auto simp: mount_of_def split: option.splits)
  next
    case (Some i)
    then have i: "i < 4" "mounted v i" "mount_path v i = q" using find_mount_exact_Some [OF minv nul] by auto
    have "strict_prefix (tokens (mount_path v j)) (tokens q)"
      if "j < 4" "mounted v j" "Sublist.prefix (tokens (mount_path v j)) (tokens q)" "j \<noteq> i" for j
      using that i mounts_invD(4) [OF minv, of i j] same [of j] by (auto simp: strict_prefix_def)
    then show ?thesis using Some i by (simp add: mount_of_def)
  qed
qed


definition example_mounts :: vfs where
  "example_mounts =
     (let ops = \<lparr>mo_open = Some 7, mo_read_path = None, mo_list = None, mo_stat_path = None, mo_list_path = None,
        mo_metadata_path = None, mo_readdir_path = None, mo_fsinfo = None, mo_unlink = None, mo_rename = None\<rparr>
      in fst (vfs_mount (Some ''/fat/sub'') (Some ops) None (fst (vfs_mount (Some ''/fat'') (Some ops) None empty_vfs))))"

lemma example_mounts_inv: "vfs_inv example_mounts"
proof -
  have inv: "vfs_inv (fst (vfs_mount (Some p) (Some ops) c v))" if "vfs_inv v" "NUL \<notin> set p" for p ops c v
    using vfs_mount_spec(1) [OF that(1), of "Some p" ops c] that(2)
    by (metis c_ok_def option.inject prod.collapse)
  show ?thesis unfolding example_mounts_def Let_def by (intro inv empty_vfs_inv) simp_all
qed

theorem vfs_longest_prefix_mount_witness:
  "mount_of ''/fat/sub/x'' example_mounts = Some 1 \<and> mount_of ''/fat/y'' example_mounts = Some 0 \<and>
   strict_prefix (tokens (mount_path example_mounts 0)) (tokens (mount_path example_mounts 1))"
proof -
  have e: "mount_of ''/fat/sub/x'' example_mounts = Some 1" "mount_of ''/fat/y'' example_mounts = Some 0"
    "mounted example_mounts 0" "mount_path example_mounts 0 = ''/fat''" "tokens ''/fat'' = [''fat'']"
    "tokens ''/fat/sub/x'' = [''fat'', ''sub'', ''x'']" "canonical ''/fat/sub/x''" by code_simp+
  have "Sublist.prefix (tokens (mount_path example_mounts 0)) (tokens ''/fat/sub/x'')"
    unfolding e(4-6) by simp
  then show ?thesis using vfs_longest_prefix_mount [OF example_mounts_inv e(7)] e(1,2,3) by auto
qed

end
