(* ===== verification/Vfs_Fd.thy ===== *)
theory Vfs_Fd
  imports Vfs_Tables
begin

text \<open>
  The descriptor calls of the virtual filesystem.  The locale \<open>vfs_provider\<close> states what the
  VFS relies on from the callbacks of a filesystem: transferring bytes and asking for sizes
  leaves the VFS tables alone, and opening a path below a mount only registers static nodes.
\<close>

section \<open>What filesystems promise\<close>

locale vfs_provider =
  fixes cb :: "'w vfs_callbacks"
  assumes read_tables: "fst (fst (cb_read cb f c off buf cap w)) = fst w"
    and write_tables: "fst (fst (cb_write cb f c off buf n w)) = fst w"
    and stat_tables: "fst (fst (cb_stat cb f c w)) = fst w"
    and open_registers: "canonical p \<Longrightarrow> cb_open cb f c p fl w = (w', r) \<Longrightarrow>
      fst w' = fst w \<or>
      (\<exists>ns k. k \<le> length ns \<and> (\<forall>n\<in>set (take k ns). c_ok (nd_path n)) \<and> fst w' = fst (vfs_mount_static (Some ns) k (fst w)))"
begin

lemma node_size_tables: "vfs_node_size cb n w = (w', s) \<Longrightarrow> fst w' = fst w"
  using stat_tables [of "the (nd_stat n)" "nd_context n" w]
  by (cases "nd_stat n") (auto simp: vfs_node_size_def split: prod.splits)

lemma open_tables:
  assumes "canonical p" "cb_open cb f c p fl w = (w', r)" "vfs_inv (fst w)"
  shows "vfs_inv (fst w')" "g_open_files (fst w') = g_open_files (fst w)"
proof -
  have "vfs_inv (fst w') \<and> g_open_files (fst w') = g_open_files (fst w)"
    using open_registers [OF assms(1,2)]
  proof
    assume "fst w' = fst w"
    then show ?thesis using assms(3) by simp
  next
    assume "\<exists>ns k. k \<le> length ns \<and> (\<forall>n\<in>set (take k ns). c_ok (nd_path n)) \<and> fst w' = fst (vfs_mount_static (Some ns) k (fst w))"
    then obtain ns k where nk: "k \<le> length ns" "\<forall>n\<in>set (take k ns). c_ok (nd_path n)"
      "fst w' = fst (vfs_mount_static (Some ns) k (fst w))" by blast
    obtain v' r' where m: "vfs_mount_static (Some ns) k (fst w) = (v', r')" by fastforce
    from mount_static_spec [OF assms(3) nk(1,2) m] show ?thesis
      using nk(3) m assms(3) by (simp split: if_splits)
  qed
  then show "vfs_inv (fst w')" "g_open_files (fst w') = g_open_files (fst w)" by auto
qed

end

section \<open>Descriptors of the running process\<close>

lemma vfs_inv_reap: "vfs_inv v \<Longrightarrow> vfs_inv (vfs_reap_dead_owners t v)"
  unfolding vfs_reap_dead_owners_def by (rule vfs_inv_clear)

lemma reap_nodes [simp]: "g_vfs_nodes (vfs_reap_dead_owners t v) = g_vfs_nodes v"
  by (simp add: vfs_reap_dead_owners_def)

text \<open>The key under which the running process sees its descriptor \<open>fd\<close>.\<close>

abbreviation my_fd :: "ptable \<Rightarrow> int \<Rightarrow> u32 \<times> u32" where
  "my_fd t fd \<equiv> (vfs_current_owner_pid t, of_int fd)"

abbreviation me_alive :: "ptable \<Rightarrow> bool" where
  "me_alive t \<equiv> vfs_owner_is_alive t (vfs_current_owner_pid t)"

lemma fd_at_spec:
  assumes inv: "vfs_inv v" and me: "me_alive t" and f: "vfs_fd_at t fd v = (v1, h)"
  shows "vfs_inv v1" "live_descriptors t v1 = live_descriptors t v" "g_vfs_nodes v1 = g_vfs_nodes v"
    "h = None \<Longrightarrow> 0 \<le> fd \<Longrightarrow> fd < 8 \<Longrightarrow> live_descriptors t v (my_fd t fd) = None"
    "h = Some i \<Longrightarrow> 0 \<le> fd \<and> fd < 8 \<and> i < 128 \<and> file_for (g_open_files v1 ! i) (my_fd t fd) \<and>
       live_descriptors t v (my_fd t fd) = Some (fd_content (g_open_files v1 ! i)) \<and>
       (\<exists>n<24. of_node (g_open_files v1 ! i) = Some n)"
proof -
  show "vfs_inv v1" "live_descriptors t v1 = live_descriptors t v" "g_vfs_nodes v1 = g_vfs_nodes v"
    using f inv vfs_inv_reap reap_descriptors(2) [of v t]
    by (auto simp: vfs_fd_at_def Let_def vfs_inv_def split: if_splits)
  have inv1: "files_inv (vfs_reap_dead_owners t v)" using vfs_inv_reap [OF inv] by (simp add: vfs_inv_def)
  have live: "live_descriptors t v (my_fd t fd) = descriptors (vfs_reap_dead_owners t v) (my_fd t fd)"
    using reap_descriptors(1) [of v t] inv by (simp add: vfs_inv_def)
  have P: "of_used (g_open_files (vfs_reap_dead_owners t v) ! i) \<noteq> 0 \<and> of_node (g_open_files (vfs_reap_dead_owners t v) ! i) \<noteq> None \<and>
      of_owner_pid (g_open_files (vfs_reap_dead_owners t v) ! i) = vfs_current_owner_pid t \<and>
      of_local_fd (g_open_files (vfs_reap_dead_owners t v) ! i) = of_int fd \<longleftrightarrow>
      file_for (g_open_files (vfs_reap_dead_owners t v) ! i) (my_fd t fd)" if "i < 128" for i
    using files_invD(2) [OF inv1 that] by (auto simp: file_ok_def file_for_def)
  show "live_descriptors t v (my_fd t fd) = None" if h: "h = None" "0 \<le> fd" "fd < 8"
  proof -
    have "\<not> file_for (g_open_files (vfs_reap_dead_owners t v) ! i) (my_fd t fd)" if "i < 128" for i
      unfolding P [OF that, symmetric] using f h that by (auto simp: vfs_fd_at_def Let_def find_upt_None_iff vfs_size_defs)
    then show ?thesis unfolding live descriptors_None by blast
  qed
  show "0 \<le> fd \<and> fd < 8 \<and> i < 128 \<and> file_for (g_open_files v1 ! i) (my_fd t fd) \<and>
       live_descriptors t v (my_fd t fd) = Some (fd_content (g_open_files v1 ! i)) \<and>
       (\<exists>n<24. of_node (g_open_files v1 ! i) = Some n)" if h: "h = Some i"
  proof -
    have fd: "0 \<le> fd" "fd < 8" and v1: "v1 = vfs_reap_dead_owners t v"
      using f h by (auto simp: vfs_fd_at_def Let_def vfs_size_defs split: if_splits)
    then have i: "i < 128" "file_for (g_open_files v1 ! i) (my_fd t fd)"
      using f h by (auto simp: vfs_fd_at_def Let_def find_upt_Some_iff vfs_size_defs file_for_def)
    have "descriptors v1 (my_fd t fd) = Some (fd_content (g_open_files v1 ! i))"
      using descriptors_at [OF inv1 i(1)] i(2) v1 by blast
    moreover have "\<exists>n<24. of_node (g_open_files v1 ! i) = Some n"
      using files_invD(2) [OF inv1 i(1)] i(2) v1 by (auto simp: file_ok_def file_for_def)
    ultimately show ?thesis using fd i live v1 by auto
  qed
qed


lemma live_update:
  assumes inv: "vfs_inv v" and i: "i < 128" "file_for (g_open_files v ! i) k" and k: "vfs_owner_is_alive t (fst k)"
    and f: "of_used f \<noteq> 0" "fd_key f = k" "of_node f = of_node (g_open_files v ! i)"
    and v': "v' = v\<lparr>g_open_files := (g_open_files v)[i := f]\<rparr>"
  shows "vfs_inv v'" "live_descriptors t v' = (live_descriptors t v)(k \<mapsto> fd_content f)"
proof -
  have finv: "files_inv v" using inv by (simp add: vfs_inv_def)
  have "of_used (g_open_files v ! i) \<noteq> 0" "of_local_fd f = of_local_fd (g_open_files v ! i)" using i(2) f(2) by (auto simp: file_for_def)
  then have ok: "file_ok v f" using files_invD(2) [OF finv i(1)] f(3) by (simp add: file_ok_def)
  have fresh: "\<not> file_for (g_open_files v ! j) (fd_key f)" if "j < 128" "j \<noteq> i" "of_used f \<noteq> 0" for j
    using files_invD(3) [OF finv that(1) i(1)] i(2) f(2) that(2) by (auto simp: file_for_def)
  note up = file_update [OF finv i(1) ok fresh v']
  show "vfs_inv v'" using inv up(1) unfolding vfs_inv_def v' by (simp add: nodes_inv_def mounts_inv_def)
  have "descriptors v' = (descriptors v)(k \<mapsto> fd_content f)"
  proof
    fix x
    show "descriptors v' x = ((descriptors v)(k \<mapsto> fd_content f)) x"
    proof (cases "x = k")
      case True
      then have "file_for f x" using f by (auto simp: file_for_def)
      then show ?thesis using up(2) [of x] True by simp
    next
      case False
      then have n: "\<not> file_for f x" "\<not> file_for (g_open_files v ! i) x" using f i(2) by (auto simp: prod_eq_iff file_for_def)
      then show ?thesis using up(2) [of x] False by simp
    qed
  qed
  then show "live_descriptors t v' = (live_descriptors t v)(k \<mapsto> fd_content f)"
    using k by (simp add: live_descriptors_def)
qed

lemma live_remove:
  assumes inv: "vfs_inv v" and i: "i < 128" "file_for (g_open_files v ! i) k"
    and v': "v' = v\<lparr>g_open_files := (g_open_files v)[i := vfs_clear_open_file (g_open_files v ! i)]\<rparr>"
  shows "vfs_inv v'" "live_descriptors t v' = (live_descriptors t v)(k := None)"
proof -
  have finv: "files_inv v" using inv by (simp add: vfs_inv_def)
  have ok: "file_ok v (vfs_clear_open_file (g_open_files v ! i))" by (simp add: file_ok_def)
  have up: "files_inv v'" "descriptors v' x = (if file_for (vfs_clear_open_file (g_open_files v ! i)) x
      then Some (fd_content (vfs_clear_open_file (g_open_files v ! i)))
      else if file_for (g_open_files v ! i) x then None else descriptors v x)" for x
    by (rule file_update [OF finv i(1) ok _ v'], simp)+
  show "vfs_inv v'" using inv up(1) unfolding vfs_inv_def v' by (simp add: nodes_inv_def mounts_inv_def)
  have "descriptors v' x = ((descriptors v)(k := None)) x" for x
    using up(2) [of x] i(2) by (auto simp: prod_eq_iff file_for_def)
  then have "descriptors v' = (descriptors v)(k := None)" by (rule ext)
  then show "live_descriptors t v' = (live_descriptors t v)(k := None)"
    by (auto simp: live_descriptors_def restrict_map_def fun_eq_iff)
qed

lemma advance_spec:
  assumes inv: "vfs_inv v" and i: "i < 128" "file_for (g_open_files v ! i) k" and k: "vfs_owner_is_alive t (fst k)"
    and c: "fd_content (g_open_files v ! i) = (n, off, fl)"
  shows "vfs_inv (advance i m v)" "live_descriptors t (advance i m v) = (live_descriptors t v)(k \<mapsto> (n, off + m, fl))"
proof -
  let ?f = "(g_open_files v ! i)\<lparr>of_offset := of_offset (g_open_files v ! i) + m\<rparr>"
  have f: "of_used ?f \<noteq> 0" "fd_key ?f = k" "of_node ?f = of_node (g_open_files v ! i)"
    using i(2) by (auto simp: prod_eq_iff file_for_def)
  have "fd_content ?f = (n, off + m, fl)" using c by (simp add: fd_content_def)
  then show "vfs_inv (advance i m v)" "live_descriptors t (advance i m v) = (live_descriptors t v)(k \<mapsto> (n, off + m, fl))"
    using live_update [OF inv i k f advance_def] by simp_all
qed

lemma vfs_close_spec:
  assumes inv: "vfs_inv v" and me: "me_alive t" and c: "vfs_close t fd v = (v', r)"
  shows "vfs_inv v'" "r = OK \<or> r = ERR"
    "r = OK \<Longrightarrow> live_descriptors t v (my_fd t fd) \<noteq> None \<and> live_descriptors t v' = (live_descriptors t v)(my_fd t fd := None)"
    "r = ERR \<Longrightarrow> live_descriptors t v' = live_descriptors t v"
    "r = ERR \<Longrightarrow> 0 \<le> fd \<Longrightarrow> fd < 8 \<Longrightarrow> live_descriptors t v (my_fd t fd) = None"
proof -
  obtain v1 h where f: "vfs_fd_at t fd v = (v1, h)" by fastforce
  note fa = fd_at_spec [OF inv me f]
  have "vfs_inv v' \<and> (r = OK \<or> r = ERR) \<and>
    (r = OK \<longrightarrow> live_descriptors t v (my_fd t fd) \<noteq> None \<and> live_descriptors t v' = (live_descriptors t v)(my_fd t fd := None)) \<and>
    (r = ERR \<longrightarrow> live_descriptors t v' = live_descriptors t v) \<and>
    (r = ERR \<longrightarrow> 0 \<le> fd \<longrightarrow> fd < 8 \<longrightarrow> live_descriptors t v (my_fd t fd) = None)"
  proof (cases h)
    case None
    then have "v' = v1" "r = ERR" using c f by (simp_all add: vfs_close_def)
    then show ?thesis using fa None by simp
  next
    case (Some i)
    then have v': "v' = v1\<lparr>g_open_files := (g_open_files v1)[i := vfs_clear_open_file (g_open_files v1 ! i)]\<rparr>" "r = OK"
      using c f by (simp_all add: vfs_close_def)
    have i: "i < 128" "file_for (g_open_files v1 ! i) (my_fd t fd)" "live_descriptors t v (my_fd t fd) \<noteq> None"
      using fa(5) [OF Some] by auto
    show ?thesis using live_remove [OF fa(1) i(1,2) v'(1)] i(3) v'(2) fa(2) by simp
  qed
  then show "vfs_inv v'" "r = OK \<or> r = ERR"
    "r = OK \<Longrightarrow> live_descriptors t v (my_fd t fd) \<noteq> None \<and> live_descriptors t v' = (live_descriptors t v)(my_fd t fd := None)"
    "r = ERR \<Longrightarrow> live_descriptors t v' = live_descriptors t v"
    "r = ERR \<Longrightarrow> 0 \<le> fd \<Longrightarrow> fd < 8 \<Longrightarrow> live_descriptors t v (my_fd t fd) = None" by blast+
qed


lemma find_free_fd:
  assumes "files_inv v"
  shows "vfs_find_free_local_fd p v = Some fd \<Longrightarrow> unat fd < 8 \<and> descriptors v (p, fd) = None \<and>
      (\<forall>k<unat fd. descriptors v (p, of_nat k) \<noteq> None)"
    "vfs_find_free_local_fd p v = None \<Longrightarrow> k < 8 \<Longrightarrow> descriptors v (p, of_nat k) \<noteq> None"
proof -
  have P: "\<not> vfs_local_fd_in_use p fd v \<longleftrightarrow> descriptors v (p, fd) = None" for fd
    unfolding descriptors_None by (auto simp: vfs_local_fd_in_use_def file_for_def vfs_size_defs)
  show "unat fd < 8 \<and> descriptors v (p, fd) = None \<and> (\<forall>k<unat fd. descriptors v (p, of_nat k) \<noteq> None)"
    if "vfs_find_free_local_fd p v = Some fd"
  proof -
    from that obtain n where n: "find (\<lambda>fd. \<not> vfs_local_fd_in_use p (of_nat fd) v) [0..<8] = Some n" "fd = of_nat n"
      by (auto simp: vfs_find_free_local_fd_def vfs_size_defs)
    then have "n < 8" by (simp add: find_upt_Some_iff)
    then have "unat fd = n" using n(2) by (simp add: unat_of_nat_less)
    then show ?thesis using n unfolding find_upt_Some_iff P by auto
  qed
  show "descriptors v (p, of_nat k) \<noteq> None" if "vfs_find_free_local_fd p v = None" "k < 8"
    using that unfolding vfs_find_free_local_fd_def P vfs_size_defs map_option_is_None find_upt_None_iff by blast
qed

lemma read_valid_bounds:
  assumes "vfs_read_result_valid off sz cap n"
  shows "unat n \<le> unat cap" "unat off + unat n \<le> unat sz"
proof -
  have le: "off \<le> sz" "n \<le> cap" "n \<le> sz - off" using assms by (auto simp: vfs_read_result_valid_def split: if_splits)
  show "unat n \<le> unat cap" using le(2) by (simp add: word_le_nat_alt)
  show "unat off + unat n \<le> unat sz" using le(1,3) by (simp add: word_le_nat_alt unat_sub)
qed

lemma write_valid_bounds:
  assumes "vfs_write_result_valid off req n"
  shows "unat n \<le> unat req" "unat off + unat n < 2 ^ 64"
proof -
  have le: "n \<le> req" "off \<le> - 1 - n" using assms by (auto simp: vfs_write_result_valid_def split: if_splits)
  show "unat n \<le> unat req" using le(1) by (simp add: word_le_nat_alt)
  show "unat off + unat n < 2 ^ 64"
    using le(2) unat_u64_less [of n] by (simp add: word_le_nat_alt unat_max_minus)
qed

text \<open>A transfer through the node behind a descriptor: what the node's own callback did, at
  the offset of the descriptor, and the descriptor moved on by the bytes transferred.\<close>

definition read_through ::
  "'w vfs_callbacks \<Rightarrow> ptable \<Rightarrow> int \<Rightarrow> u8 list option \<Rightarrow> u64 \<Rightarrow> vfs \<times> 'w \<Rightarrow> vfs \<times> 'w \<Rightarrow> u8 list option \<Rightarrow> u64 \<Rightarrow> bool" where
  "read_through cb t fd buf cap w w' buf' n \<longleftrightarrow>
     (\<exists>i off fl sz b f u w1 w2. live_descriptors t (fst w) (my_fd t fd) = Some (i, off, fl) \<and> fl \<noteq> VFS_O_WRONLY \<and>
        buf = Some b \<and> nd_read (g_vfs_nodes (fst w) ! i) = Some f \<and>
        vfs_node_size cb (g_vfs_nodes (fst w) ! i) (u, snd w) = (w1, Some sz) \<and>
        cb_read cb f (nd_context (g_vfs_nodes (fst w) ! i)) off b cap w1 = (w2, the buf', n, OK) \<and> buf' \<noteq> None \<and>
        snd w' = snd w2 \<and> unat n \<le> unat cap \<and> unat off + unat n \<le> unat sz \<and>
        live_descriptors t (fst w') = (live_descriptors t (fst w))(my_fd t fd \<mapsto> (i, off + n, fl)))"

definition write_through ::
  "'w vfs_callbacks \<Rightarrow> ptable \<Rightarrow> int \<Rightarrow> u8 list option \<Rightarrow> u64 \<Rightarrow> vfs \<times> 'w \<Rightarrow> vfs \<times> 'w \<Rightarrow> u64 \<Rightarrow> bool" where
  "write_through cb t fd buf req w w' n \<longleftrightarrow>
     (\<exists>i off fl sz b f u w1 w2. live_descriptors t (fst w) (my_fd t fd) = Some (i, off, fl) \<and> fl \<noteq> VFS_O_RDONLY \<and>
        buf = Some b \<and> nd_write (g_vfs_nodes (fst w) ! i) = Some f \<and>
        vfs_node_size cb (g_vfs_nodes (fst w) ! i) (u, snd w) = (w1, Some sz) \<and> off \<le> sz \<and>
        cb_write cb f (nd_context (g_vfs_nodes (fst w) ! i)) off b req w1 = (w2, n, OK) \<and>
        snd w' = snd w2 \<and> unat n \<le> unat req \<and> unat off + unat n < 2 ^ 64 \<and>
        live_descriptors t (fst w') = (live_descriptors t (fst w))(my_fd t fd \<mapsto> (i, off + n, fl)))"

context vfs_provider
begin

lemma read_fd_spec:
  assumes inv: "vfs_inv (fst w)" and me: "me_alive t" and r: "vfs_read_fd cb t fd buf cap ho w = (w', buf', n, r)"
  shows "vfs_inv (fst w') \<and> (if r = OK then read_through cb t fd buf cap w w' buf' n
     else n = 0 \<and> live_descriptors t (fst w') = live_descriptors t (fst w))"
proof -
  obtain v1 h where f: "vfs_fd_at t fd (fst w) = (v1, h)" by fastforce
  note fa = fd_at_spec [OF inv me f]
  have keep: ?thesis if "fst w' = fst w \<or> fst w' = v1" "n = 0" "r \<noteq> OK"
    using that inv fa(1,2) by auto
  show ?thesis
  proof (cases "buf = None \<or> \<not> ho \<or> h = None")
    case True
    then show ?thesis using r f by (intro keep) (auto simp: vfs_read_fd_def split: option.splits if_splits)
  next
    case False
    then obtain b i where b: "buf = Some b" "ho" "h = Some i" by auto
    define fo where "fo = g_open_files v1 ! i"
    have i: "i < 128" "file_for fo (my_fd t fd)" "live_descriptors t (fst w) (my_fd t fd) = Some (fd_content fo)"
      using fa(5) [OF b(3)] by (auto simp: fo_def)
    define node where "node = g_vfs_nodes v1 ! the (of_node fo)"
    obtain w2 s where ns: "vfs_node_size cb node (v1, snd w) = (w2, s)" by fastforce
    have w2: "fst w2 = v1" using node_size_tables [OF ns] by simp
    show ?thesis
    proof (cases "nd_read node = None \<or> of_flags fo = VFS_O_WRONLY \<or> s = None \<or> of_offset fo > the s")
      case True
      then show ?thesis using r f b ns w2
        by (intro keep) (auto simp: vfs_read_fd_def Let_def fo_def [symmetric] node_def [symmetric] split: option.splits if_splits)
    next
      case False
      then obtain g sz where g: "nd_read node = Some g" "of_flags fo \<noteq> VFS_O_WRONLY" "s = Some sz" "\<not> of_offset fo > sz" by auto
      obtain w3 b3 n3 st where rd: "cb_read cb g (nd_context node) (of_offset fo) b cap w2 = (w3, b3, n3, st)" by (metis prod_cases4)
      have w3: "fst w3 = v1" using read_tables [of g "nd_context node" "of_offset fo" b cap w2] rd w2 by simp
      have res: "vfs_read_fd cb t fd buf cap ho w = (case checked_read (of_offset fo) sz cap (w3, b3, n3, st) of
          (w3, buf', n, r) \<Rightarrow> if r \<noteq> OK then (w3, buf', n, r) else ((advance i n (fst w3), snd w3), buf', n, OK))"
        using f b ns g rd by (simp add: vfs_read_fd_def Let_def fo_def [symmetric] node_def [symmetric])
      show ?thesis
      proof (cases "st \<noteq> 0 \<or> \<not> vfs_read_result_valid (of_offset fo) sz cap n3")
        case True
        then have "w' = w3" "n = 0" "r \<noteq> OK" using r unfolding res by (auto simp: checked_read_def split: if_splits)
        then show ?thesis using w3 by (intro keep) simp_all
      next
        case False
        then have e: "w' = (advance i n3 v1, snd w3)" "buf' = Some b3" "n = n3" "r = OK"
          using r w3 unfolding res by (auto simp: checked_read_def split: if_splits)
        have c: "fd_content fo = (the (of_node fo), of_offset fo, of_flags fo)" by (simp add: fd_content_def)
        note ad = advance_spec [OF fa(1) i(1) i(2) [unfolded fo_def] _ c [unfolded fo_def], of t, folded fo_def]
        have "read_through cb t fd buf cap w w' buf' n"
          unfolding read_through_def
          using i(3) c g b(1) ns rd fa(2,3) False e ad(2) me read_valid_bounds [of "of_offset fo" sz cap n3]
          by (intro exI conjI) (auto simp: node_def)
        then show ?thesis using ad(1) me e by simp
      qed
    qed
  qed
qed

lemma write_fd_spec:
  assumes inv: "vfs_inv (fst w)" and me: "me_alive t" and r: "vfs_write_fd cb t fd buf cap ho w = (w', n, r)"
  shows "vfs_inv (fst w') \<and> (if r = OK then write_through cb t fd buf cap w w' n
     else n = 0 \<and> live_descriptors t (fst w') = live_descriptors t (fst w))"
proof -
  obtain v1 h where f: "vfs_fd_at t fd (fst w) = (v1, h)" by fastforce
  note fa = fd_at_spec [OF inv me f]
  have keep: ?thesis if "fst w' = fst w \<or> fst w' = v1" "n = 0" "r \<noteq> OK"
    using that inv fa(1,2) by auto
  show ?thesis
  proof (cases "buf = None \<or> \<not> ho \<or> h = None")
    case True
    then show ?thesis using r f by (intro keep) (auto simp: vfs_write_fd_def split: option.splits if_splits)
  next
    case False
    then obtain b i where b: "buf = Some b" "ho" "h = Some i" by auto
    define fo where "fo = g_open_files v1 ! i"
    have i: "i < 128" "file_for fo (my_fd t fd)" "live_descriptors t (fst w) (my_fd t fd) = Some (fd_content fo)"
      using fa(5) [OF b(3)] by (auto simp: fo_def)
    define node where "node = g_vfs_nodes v1 ! the (of_node fo)"
    obtain w2 s where ns: "vfs_node_size cb node (v1, snd w) = (w2, s)" by fastforce
    have w2: "fst w2 = v1" using node_size_tables [OF ns] by simp
    show ?thesis
    proof (cases "nd_write node = None \<or> of_flags fo = VFS_O_RDONLY \<or> s = None \<or> of_offset fo > the s")
      case True
      then show ?thesis using r f b ns w2
        by (intro keep) (auto simp: vfs_write_fd_def Let_def fo_def [symmetric] node_def [symmetric] split: option.splits if_splits)
    next
      case False
      then obtain g sz where g: "nd_write node = Some g" "of_flags fo \<noteq> VFS_O_RDONLY" "s = Some sz" "\<not> of_offset fo > sz" by auto
      obtain w3 n3 st where rd: "cb_write cb g (nd_context node) (of_offset fo) b cap w2 = (w3, n3, st)" by (metis prod_cases3)
      have w3: "fst w3 = v1" using write_tables [of g "nd_context node" "of_offset fo" b cap w2] rd w2 by simp
      have res: "vfs_write_fd cb t fd buf cap ho w = (case checked_write (of_offset fo) cap (w3, n3, st) of
          (w3, n, r) \<Rightarrow> if r \<noteq> OK then (w3, n, r) else ((advance i n (fst w3), snd w3), n, OK))"
        using f b ns g rd by (simp add: vfs_write_fd_def Let_def fo_def [symmetric] node_def [symmetric])
      show ?thesis
      proof (cases "st \<noteq> 0 \<or> \<not> vfs_write_result_valid (of_offset fo) cap n3")
        case True
        then have "w' = w3" "n = 0" "r \<noteq> OK" using r unfolding res by (auto simp: checked_write_def split: if_splits)
        then show ?thesis using w3 by (intro keep) simp_all
      next
        case False
        then have e: "w' = (advance i n3 v1, snd w3)" "n = n3" "r = OK"
          using r w3 unfolding res by (auto simp: checked_write_def split: if_splits)
        have c: "fd_content fo = (the (of_node fo), of_offset fo, of_flags fo)" by (simp add: fd_content_def)
        note ad = advance_spec [OF fa(1) i(1) i(2) [unfolded fo_def] _ c [unfolded fo_def], of t, folded fo_def]
        have "write_through cb t fd buf cap w w' n"
          unfolding write_through_def
          using i(3) c g b(1) ns rd fa(2,3) False e ad(2) me write_valid_bounds [of "of_offset fo" cap n3]
          by (intro exI conjI) (auto simp: node_def)
        then show ?thesis using ad(1) me e by simp
      qed
    qed
  qed
qed


lemma seek_spec:
  assumes inv: "vfs_inv (fst w)" and me: "me_alive t" and r: "vfs_seek cb t fd off w = (w', r)"
  shows "vfs_inv (fst w') \<and> (if r = OK then
       (\<exists>i o1 fl sz u w1. live_descriptors t (fst w) (my_fd t fd) = Some (i, o1, fl) \<and>
          vfs_node_size cb (g_vfs_nodes (fst w) ! i) (u, snd w) = (w1, Some sz) \<and> off \<le> sz \<and>
          live_descriptors t (fst w') = (live_descriptors t (fst w))(my_fd t fd \<mapsto> (i, off, fl)))
     else live_descriptors t (fst w') = live_descriptors t (fst w))"
proof -
  obtain v1 h where f: "vfs_fd_at t fd (fst w) = (v1, h)" by fastforce
  note fa = fd_at_spec [OF inv me f]
  have keep: ?thesis if "fst w' = v1" "r \<noteq> OK"
    using that inv fa(1,2) by auto
  show ?thesis
  proof (cases h)
    case None
    then show ?thesis using r f by (intro keep) (auto simp: vfs_seek_def)
  next
    case (Some i)
    define fo where "fo = g_open_files v1 ! i"
    have i: "i < 128" "file_for fo (my_fd t fd)" "live_descriptors t (fst w) (my_fd t fd) = Some (fd_content fo)"
      using fa(5) [OF Some] by (auto simp: fo_def)
    define node where "node = g_vfs_nodes v1 ! the (of_node fo)"
    obtain w2 s where ns: "vfs_node_size cb node (v1, snd w) = (w2, s)" by fastforce
    have w2: "fst w2 = v1" using node_size_tables [OF ns] by simp
    show ?thesis
    proof (cases "s = None \<or> off > the s")
      case True
      then show ?thesis using r f Some ns w2
        by (intro keep) (auto simp: vfs_seek_def fo_def [symmetric] node_def [symmetric] split: option.splits if_splits)
    next
      case False
      then obtain sz where sz: "s = Some sz" "off \<le> sz" by auto
      let ?g = "fo\<lparr>of_offset := off\<rparr>"
      define v2 where "v2 = v1\<lparr>g_open_files := (g_open_files v1)[i := ?g]\<rparr>"
      have e: "w' = (v2, snd w2)" "r = OK"
        using r f Some ns w2 sz(1) leD [OF sz(2)] by (simp_all add: vfs_seek_def fo_def [symmetric] node_def [symmetric] v2_def)
      have g: "of_used ?g \<noteq> 0" "fd_key ?g = my_fd t fd" "of_node ?g = of_node (g_open_files v1 ! i)"
        using i(2) by (auto simp: file_for_def fo_def)
      note up = live_update [OF fa(1) i(1) i(2) [unfolded fo_def] _ g v2_def, of t]
      have c: "fd_content fo = (the (of_node fo), of_offset fo, of_flags fo)"
        "fd_content ?g = (the (of_node fo), off, of_flags fo)" by (simp_all add: fd_content_def)
      have "\<exists>i o1 fl sz u w1. live_descriptors t (fst w) (my_fd t fd) = Some (i, o1, fl) \<and>
          vfs_node_size cb (g_vfs_nodes (fst w) ! i) (u, snd w) = (w1, Some sz) \<and> off \<le> sz \<and>
          live_descriptors t (fst w') = (live_descriptors t (fst w))(my_fd t fd \<mapsto> (i, off, fl))"
        using i(3) c ns sz fa(2,3) e up(2) me by (intro exI conjI) (auto simp: node_def)
      then show ?thesis using up(1) me e by simp
    qed
  qed
qed


text \<open>Entering a fresh descriptor into a free handle.\<close>

end

lemma live_insert:
  assumes inv: "vfs_inv v" and h: "vfs_find_free_global_handle v = Some h" and k: "vfs_owner_is_alive t (fst k)"
    and fresh: "descriptors v k = None" and fd: "snd k < 8" and i: "i < 24" "node_path v i \<noteq> None"
    and f: "of_used f \<noteq> 0" "fd_key f = k" "of_node f = Some i"
    and v': "v' = v\<lparr>g_open_files := (g_open_files v)[h := f]\<rparr>"
  shows "vfs_inv v'" "live_descriptors t v' = (live_descriptors t v)(k \<mapsto> fd_content f)"
proof -
  have finv: "files_inv v" using inv by (simp add: vfs_inv_def)
  have h128: "h < 128" "of_used (g_open_files v ! h) = 0"
    using h by (auto simp: vfs_find_free_global_handle_def find_upt_Some_iff vfs_size_defs)
  have ok: "file_ok v f" using f fd i by (auto simp: file_ok_def)
  have fr: "\<not> file_for (g_open_files v ! j) (fd_key f)" if "j < 128" "j \<noteq> h" "of_used f \<noteq> 0" for j
    using fresh that(1) f(2) unfolding descriptors_None by blast
  note up = file_update [OF finv h128(1) ok fr v']
  show "vfs_inv v'" using inv up(1) unfolding vfs_inv_def v' by (simp add: nodes_inv_def mounts_inv_def)
  have "descriptors v' x = ((descriptors v)(k \<mapsto> fd_content f)) x" for x
    using up(2) [of x] f h128(2) by (auto simp: file_for_def)
  then have "descriptors v' = (descriptors v)(k \<mapsto> fd_content f)" by (rule ext)
  then show "live_descriptors t v' = (live_descriptors t v)(k \<mapsto> fd_content f)"
    using k by (simp add: live_descriptors_def)
qed

lemma live_same_files: "g_open_files v' = g_open_files v \<Longrightarrow> live_descriptors t v' = live_descriptors t v"
  by (simp add: live_descriptors_def descriptors_def fun_eq_iff restrict_map_def)

context vfs_provider
begin

lemma materialise_tables:
  assumes "canonical q" "vfs_inv (fst w)" "materialise cb q flags w = (w', r)"
  shows "vfs_inv (fst w')" "g_open_files (fst w') = g_open_files (fst w)"
  using assms open_tables [OF assms(1) _ assms(2)]
  by (auto simp: materialise_def split: option.splits)

lemma open_flags_spec:
  assumes inv: "vfs_inv (fst w)" and me: "me_alive t" and ok: "c_ok path" and o: "vfs_open_flags cb t path flags w = (w', r)"
  shows "vfs_inv (fst w') \<and> (if r < 0 then r = ERR \<and> live_descriptors t (fst w') = live_descriptors t (fst w)
     else r < 8 \<and> live_descriptors t (fst w) (my_fd t r) = None \<and>
       (\<forall>k. 0 \<le> k \<and> k < r \<longrightarrow> live_descriptors t (fst w) (my_fd t k) \<noteq> None) \<and>
       (\<exists>q i. normalized path = Some q \<and> i < 24 \<and> node_path (fst w') i = Some q \<and>
          live_descriptors t (fst w') = (live_descriptors t (fst w))(my_fd t r \<mapsto> (i, 0, vfs_open_access_mode flags)) \<and>
          (vfs_open_access_mode flags \<noteq> VFS_O_WRONLY \<longrightarrow> nd_read (g_vfs_nodes (fst w') ! i) \<noteq> None) \<and>
          (vfs_open_access_mode flags \<noteq> VFS_O_RDONLY \<longrightarrow> nd_write (g_vfs_nodes (fst w') ! i) \<noteq> None)))"
proof (cases "\<not> vfs_open_flags_valid flags \<or> normalized path = None")
  case True
  then show ?thesis using o inv by (auto simp: vfs_open_flags_def Let_def split: if_splits)
next
  case False
  then obtain q where q: "normalized path = Some q" and valid: "vfs_open_flags_valid flags" by auto
  have cq: "canonical q" by (rule normalized_canonical [OF ok q])
  then have nul: "NUL \<notin> set q" by (simp add: canonical_def)
  define mode where "mode = vfs_open_access_mode flags"
  have modes: "mode = VFS_O_RDONLY \<or> mode = VFS_O_WRONLY \<or> mode = VFS_O_RDWR"
    using valid by (simp add: vfs_open_flags_valid_def mode_def Let_def split: if_splits)
  obtain w1 st where m: "materialise cb q flags w = (w1, st)" by fastforce
  note t1 = materialise_tables [OF cq inv m]
  have l1: "live_descriptors t (fst w1) = live_descriptors t (fst w)" by (rule live_same_files [OF t1(2)])
  have fail: ?thesis if "fst w' = fst w1 \<or> fst w' = vfs_reap_dead_owners t (fst w1)" "r = ERR"
    using that t1(1) l1 vfs_inv_reap [OF t1(1)] reap_descriptors(2) [of "fst w1" t] by (auto simp: vfs_inv_def)
  let ?c = "vfs_find_canonical q (fst w1)"
  let ?node = "g_vfs_nodes (fst w1) ! the ?c"
  define v2 where "v2 = vfs_reap_dead_owners t (fst w1)"
  let ?fd = "vfs_find_free_local_fd (vfs_current_owner_pid t) v2"
  let ?h = "vfs_find_free_global_handle v2"
  show ?thesis
  proof (cases "st \<noteq> 0 \<or> ?c = None \<or> ((mode = VFS_O_RDONLY \<or> mode = VFS_O_RDWR) \<and> nd_read ?node = None) \<or>
      ((mode = VFS_O_WRONLY \<or> mode = VFS_O_RDWR) \<and> nd_write ?node = None) \<or> ?fd = None \<or> ?h = None")
    case True
    then show ?thesis using o q valid m
      by (intro fail) (auto simp: vfs_open_flags_def Let_def mode_def [symmetric] v2_def [symmetric]
          split: option.splits if_splits)
  next
    case False
    then obtain i fd h where ifh: "?c = Some i" "?fd = Some fd" "?h = Some h" and st: "st = 0" by auto
    define f where "f = (g_open_files v2 ! h)\<lparr>of_node := Some i, of_offset := 0, of_flags := mode,
        of_owner_pid := vfs_current_owner_pid t, of_local_fd := fd, of_used := 1\<rparr>"
    define v3 where "v3 = v2\<lparr>g_open_files := (g_open_files v2)[h := f]\<rparr>"
    have e: "w' = (v3, snd w1)" "r = int (unat fd)"
      using o q valid m ifh st False
      by (auto simp: vfs_open_flags_def Let_def mode_def [symmetric] v2_def [symmetric] v3_def f_def)
    have inv2: "vfs_inv v2" unfolding v2_def by (rule vfs_inv_reap [OF t1(1)])
    have live2: "descriptors v2 = live_descriptors t (fst w)" "live_descriptors t v2 = live_descriptors t (fst w)"
      using reap_descriptors [of "fst w1" t] t1(1) l1 by (simp_all add: v2_def vfs_inv_def)
    have fd: "unat fd < 8" "descriptors v2 (vfs_current_owner_pid t, fd) = None"
      "\<forall>k<unat fd. descriptors v2 (vfs_current_owner_pid t, of_nat k) \<noteq> None"
      using find_free_fd(1) [OF _ ifh(2)] inv2 by (auto simp: vfs_inv_def)
    have key: "my_fd t r = (vfs_current_owner_pid t, fd)" using e(2) by simp
    have i: "i < 24" "node_path (fst w1) i = Some q"
      using find_canonical_Some [OF _ nul, of "fst w1" i] t1(1) ifh(1) by (auto simp: vfs_inv_def)
    have "fd < 8" using fd(1) by (simp add: word_less_nat_alt)
    moreover have "node_path v2 i \<noteq> None" using i(2) by (simp add: v2_def)
    ultimately have ins: "vfs_inv v3" "live_descriptors t v3 = (live_descriptors t v2)((vfs_current_owner_pid t, fd) \<mapsto> fd_content f)"
      using live_insert [OF inv2 ifh(3) _ fd(2) _ i(1) _ _ _ _ v3_def, of t] me by (simp_all add: f_def)
    have "live_descriptors t (fst w) (my_fd t k) \<noteq> None" if "0 \<le> k \<and> k < r" for k
    proof -
      have "nat k < unat fd" using that e(2) by (simp only: nat_less_iff)
      then show ?thesis using fd(3) live2(1) that by (metis nat_0_le of_int_of_nat_eq)
    qed
    moreover have "nd_read (g_vfs_nodes (fst w1) ! i) \<noteq> None" if "mode \<noteq> VFS_O_WRONLY" using False modes that ifh(1) by auto
    moreover have "nd_write (g_vfs_nodes (fst w1) ! i) \<noteq> None" if "mode \<noteq> VFS_O_RDONLY" using False modes that ifh(1) by auto
    moreover have "g_vfs_nodes v3 = g_vfs_nodes (fst w1)" by (simp add: v3_def v2_def)
    moreover have "fd_content f = (i, 0, mode)" by (simp add: f_def fd_content_def)
    moreover have "0 \<le> r" "r < 8" using e(2) fd(1) by (simp_all only: of_nat_0_le_iff of_nat_less_numeral_iff)
    ultimately show ?thesis using e(1) ins q i fd(2) live2 key by (auto simp: mode_def)
  qed
qed

end

lemma close_all_eq:
  "vfs_close_all_for_pid p v =
     (clear_files (\<lambda>f. of_used f \<noteq> 0 \<and> of_owner_pid f = p) v, snd (vfs_close_all_for_pid p v))"
proof -
  have "fst (fold (\<lambda>i (fs, closed). if P (fs ! i) then (fs[i := g (fs ! i)], closed + 1) else (fs, closed)) is (fs, c)) =
      fold (\<lambda>i fs. if P (fs ! i) then fs[i := g (fs ! i)] else fs) is fs" for P g "is" fs and c :: u32
    by (induction "is" arbitrary: fs c) auto
  from this [of "\<lambda>f. of_used f \<noteq> 0 \<and> of_owner_pid f = p" vfs_clear_open_file] show ?thesis
    by (simp add: vfs_close_all_for_pid_def clear_files_def Let_def split_beta)
qed

lemma close_all_spec:
  assumes "vfs_inv v"
  shows "vfs_inv (fst (vfs_close_all_for_pid p v))"
    "descriptors (fst (vfs_close_all_for_pid p v)) = descriptors v |` {k. fst k \<noteq> p}"
proof -
  have e: "fst (vfs_close_all_for_pid p v) = clear_files (\<lambda>f. of_used f \<noteq> 0 \<and> of_owner_pid f = p) v"
    by (subst close_all_eq) simp
  show "vfs_inv (fst (vfs_close_all_for_pid p v))" unfolding e by (rule vfs_inv_clear [OF assms])
  have "descriptors (clear_files (\<lambda>f. of_used f \<noteq> 0 \<and> of_owner_pid f = p) v) = descriptors v |` {k. \<not> fst k = p}"
    using assms by (intro descriptors_clear) (auto simp: vfs_inv_def)
  then show "descriptors (fst (vfs_close_all_for_pid p v)) = descriptors v |` {k. fst k \<noteq> p}" unfolding e .
qed

end
