(* ===== verification/Tmpfs.thy ===== *)
theory Tmpfs
  imports Kstring
begin

text \<open>
  The fixed-table temporary filesystem, \<open>kernel/tmpfs.c\<close>.  A file pointer is its index in
  the file table.  Output parameters are returned; a null output pointer is \<open>False\<close> in
  the argument that says whether the caller passed one.
\<close>

definition TMPFS_MAX_FILES :: nat where "TMPFS_MAX_FILES = 8"
definition TMPFS_MAX_FILE_SIZE :: nat where "TMPFS_MAX_FILE_SIZE = 256"
definition TMPFS_MAX_NAME :: nat where "TMPFS_MAX_NAME = 32"

record tmpfs_file =
  tf_name :: string
  tf_data :: "u8 list"
  tf_size :: u64
  tf_used :: u8

record tmpfs =
  g_tmpfs_files :: "tmpfs_file list"

subsection \<open>Operations\<close>

definition tmpfs_clear_file :: "tmpfs_file \<Rightarrow> tmpfs_file" where
  "tmpfs_clear_file file =
     file\<lparr>tf_name := fold (\<lambda>i d. d[i := NUL]) [0..<TMPFS_MAX_NAME] (tf_name file),
          tf_data := fold (\<lambda>i d. d[i := 0]) [0..<TMPFS_MAX_FILE_SIZE] (tf_data file),
          tf_size := 0, tf_used := 0\<rparr>"

definition tmpfs_name_equals :: "cstr \<Rightarrow> cstr \<Rightarrow> bool" where
  "tmpfs_name_equals left right =
     (case (left, right) of (Some l, Some r) \<Rightarrow> kstreq_loop l r | _ \<Rightarrow> False)"

definition tmpfs_find_file :: "cstr \<Rightarrow> tmpfs \<Rightarrow> nat option" where
  "tmpfs_find_file name s =
     (if name = None \<or> cchar (the name) = NUL then None
      else find (\<lambda>i. tf_used (g_tmpfs_files s ! i) \<noteq> 0 \<and>
                     tmpfs_name_equals (Some (tf_name (g_tmpfs_files s ! i))) name) [0..<TMPFS_MAX_FILES])"

fun copy_name_loop :: "string \<Rightarrow> nat \<Rightarrow> string \<Rightarrow> string \<times> int" where
  "copy_name_loop dest i [] = (dest[i := NUL], OK)"
| "copy_name_loop dest i (c # cs) =
     (if c = NUL then (dest[i := NUL], OK)
      else if i + 1 \<ge> TMPFS_MAX_NAME then (dest, ERR)
      else copy_name_loop (dest[i := c]) (i + 1) cs)"

definition tmpfs_copy_name :: "string \<Rightarrow> cstr \<Rightarrow> string \<times> int" where
  "tmpfs_copy_name dest name =
     (case name of None \<Rightarrow> (dest, ERR)
      | Some n \<Rightarrow> if cchar n = NUL then (dest, ERR) else copy_name_loop dest 0 n)"

definition tmpfs_reset :: "tmpfs \<Rightarrow> tmpfs" where
  "tmpfs_reset s =
     fold (\<lambda>i s. s\<lparr>g_tmpfs_files := (g_tmpfs_files s)[i := tmpfs_clear_file (g_tmpfs_files s ! i)]\<rparr>)
       [0..<TMPFS_MAX_FILES] s"

definition tmpfs_create :: "cstr \<Rightarrow> tmpfs \<Rightarrow> tmpfs \<times> int" where
  "tmpfs_create name s =
     (if name = None \<or> cchar (the name) = NUL \<or> tmpfs_find_file name s \<noteq> None then (s, ERR)
      else case find (\<lambda>i. tf_used (g_tmpfs_files s ! i) = 0) [0..<TMPFS_MAX_FILES] of
             None \<Rightarrow> (s, ERR)
           | Some i \<Rightarrow>
               let f = tmpfs_clear_file (g_tmpfs_files s ! i);
                   (nm, r) = tmpfs_copy_name (tf_name f) name
               in if r \<noteq> 0 then (s\<lparr>g_tmpfs_files := (g_tmpfs_files s)[i := f\<lparr>tf_name := nm\<rparr>]\<rparr>, ERR)
                  else (s\<lparr>g_tmpfs_files := (g_tmpfs_files s)
                            [i := f\<lparr>tf_name := nm, tf_size := 0, tf_used := 1\<rparr>]\<rparr>, OK))"

definition tmpfs_delete :: "cstr \<Rightarrow> tmpfs \<Rightarrow> tmpfs \<times> int" where
  "tmpfs_delete name s =
     (case tmpfs_find_file name s of
        None \<Rightarrow> (s, ERR)
      | Some i \<Rightarrow> (s\<lparr>g_tmpfs_files := (g_tmpfs_files s)[i := tmpfs_clear_file (g_tmpfs_files s ! i)]\<rparr>, OK))"

definition tmpfs_write ::
  "cstr \<Rightarrow> u64 \<Rightarrow> u8 list option \<Rightarrow> u64 \<Rightarrow> bool \<Rightarrow> tmpfs \<Rightarrow> tmpfs \<times> u64 \<times> int" where
  "tmpfs_write name offset buffer sz has_out s =
     (case (tmpfs_find_file name s, buffer) of
        (Some i, Some buf) \<Rightarrow>
          if \<not> has_out \<or> offset > of_nat TMPFS_MAX_FILE_SIZE then (s, 0, ERR)
          else
            let file = g_tmpfs_files s ! i;
                count = (if sz > of_nat TMPFS_MAX_FILE_SIZE - offset
                         then of_nat TMPFS_MAX_FILE_SIZE - offset else sz);
                data = fold (\<lambda>j d. d[unat offset + j := buf ! j]) [0..<unat count] (tf_data file);
                size' = (if offset + count > tf_size file then offset + count else tf_size file)
            in (s\<lparr>g_tmpfs_files := (g_tmpfs_files s)[i := file\<lparr>tf_data := data, tf_size := size'\<rparr>]\<rparr>,
                count, OK)
      | _ \<Rightarrow> (s, 0, ERR))"

definition tmpfs_read ::
  "cstr \<Rightarrow> u64 \<Rightarrow> u8 list option \<Rightarrow> u64 \<Rightarrow> bool \<Rightarrow> tmpfs \<Rightarrow> u8 list option \<times> u64 \<times> int" where
  "tmpfs_read name offset buffer capacity has_out s =
     (case (tmpfs_find_file name s, buffer) of
        (Some i, Some buf) \<Rightarrow>
          let file = g_tmpfs_files s ! i
          in if \<not> has_out \<or> offset > tf_size file then (buffer, 0, ERR)
             else
               let count = (if capacity > tf_size file - offset then tf_size file - offset else capacity)
               in (Some (fold (\<lambda>j b. b[j := tf_data file ! (unat offset + j)]) [0..<unat count] buf),
                   count, OK)
      | _ \<Rightarrow> (buffer, 0, ERR))"

definition tmpfs_stat :: "cstr \<Rightarrow> bool \<Rightarrow> tmpfs \<Rightarrow> u64 \<times> int" where
  "tmpfs_stat name has_out s =
     (case tmpfs_find_file name s of
        None \<Rightarrow> (0, ERR)
      | Some i \<Rightarrow> if \<not> has_out then (0, ERR) else (tf_size (g_tmpfs_files s ! i), OK))"

subsection \<open>The invariant and the files a table stands for\<close>

definition file_wf :: "tmpfs_file \<Rightarrow> bool" where
  "file_wf f \<longleftrightarrow> length (tf_name f) = 32 \<and> length (tf_data f) = 256 \<and> tf_size f \<le> 256 \<and>
     (tf_used f \<noteq> 0 \<longrightarrow> NUL \<in> set (tf_name f) \<and> c_string (tf_name f) \<noteq> [] \<and>
        drop (unat (tf_size f)) (tf_data f) = replicate (256 - unat (tf_size f)) 0)"

definition tmpfs_inv :: "tmpfs \<Rightarrow> bool" where
  "tmpfs_inv s \<longleftrightarrow> length (g_tmpfs_files s) = 8 \<and> (\<forall>f\<in>set (g_tmpfs_files s). file_wf f) \<and>
     (\<forall>i<8. \<forall>j<8. tf_used (g_tmpfs_files s ! i) \<noteq> 0 \<longrightarrow> tf_used (g_tmpfs_files s ! j) \<noteq> 0 \<longrightarrow>
        c_string (tf_name (g_tmpfs_files s ! i)) = c_string (tf_name (g_tmpfs_files s ! j)) \<longrightarrow> i = j)"

definition file_content :: "tmpfs_file \<Rightarrow> u8 list" where
  "file_content f = take (unat (tf_size f)) (tf_data f)"

definition tmpfs_view :: "tmpfs \<Rightarrow> string \<Rightarrow> u8 list option" where
  "tmpfs_view s name =
     (case find (\<lambda>f. tf_used f \<noteq> 0 \<and> c_string (tf_name f) = name) (g_tmpfs_files s) of
        None \<Rightarrow> None | Some f \<Rightarrow> Some (file_content f))"

lemma kstreq_loop_c_string: "kstreq_loop a b \<longleftrightarrow> c_string a = c_string b"
  by (induction a b rule: kstreq_loop.induct) (auto simp: cchar_def split: list.splits)

lemma c_string_id: "NUL \<notin> set nm \<Longrightarrow> c_string nm = nm"
  by (induction nm) auto

lemma NUL_notin_c_string [simp]: "NUL \<notin> set (c_string nm)"
  by (auto dest: set_takeWhileD)

lemma cchar_NUL: "NUL \<notin> set nm \<Longrightarrow> cchar nm = NUL \<longleftrightarrow> nm = []"
  by (auto simp: cchar_def split: list.splits)

abbreviation named :: "tmpfs \<Rightarrow> string \<Rightarrow> nat \<Rightarrow> bool" where
  "named s nm i \<equiv> i < 8 \<and> tf_used (g_tmpfs_files s ! i) \<noteq> 0 \<and> c_string (tf_name (g_tmpfs_files s ! i)) = nm"

lemma tmpfs_invD:
  assumes "tmpfs_inv s"
  shows "length (g_tmpfs_files s) = 8" "i < 8 \<Longrightarrow> file_wf (g_tmpfs_files s ! i)"
    "named s nm i \<Longrightarrow> named s nm j \<Longrightarrow> i = j"
  using assms by (auto simp: tmpfs_inv_def)

lemma view_Some_iff:
  assumes "tmpfs_inv s"
  shows "tmpfs_view s nm = Some c \<longleftrightarrow> (\<exists>i. named s nm i \<and> c = file_content (g_tmpfs_files s ! i))"
proof -
  have "tmpfs_view s nm = Some (file_content (g_tmpfs_files s ! i))" if i: "named s nm i" for i
  proof (cases "find (\<lambda>f. tf_used f \<noteq> 0 \<and> c_string (tf_name f) = nm) (g_tmpfs_files s)")
    case None
    moreover have "g_tmpfs_files s ! i \<in> set (g_tmpfs_files s)" using i tmpfs_invD(1) [OF assms] by simp
    ultimately show ?thesis using i by (auto simp: find_None_iff)
  next
    case (Some f)
    then obtain j where "j < 8" "f = g_tmpfs_files s ! j" "tf_used f \<noteq> 0" "c_string (tf_name f) = nm"
      using tmpfs_invD(1) [OF assms] by (auto simp: find_Some_iff)
    with i tmpfs_invD(3) [OF assms, of i nm j] Some show ?thesis by (simp add: tmpfs_view_def)
  qed
  moreover have "\<exists>i. named s nm i" if "tmpfs_view s nm = Some c"
    using that tmpfs_invD(1) [OF assms] by (auto simp: tmpfs_view_def find_Some_iff split: option.splits)
  ultimately show ?thesis by (metis option.inject)
qed

lemma view_None_iff: "tmpfs_inv s \<Longrightarrow> tmpfs_view s nm = None \<longleftrightarrow> (\<forall>i. \<not> named s nm i)"
  using view_Some_iff [of s nm] by (metis option.exhaust option.distinct(1))

lemma find_file_iff:
  assumes inv: "tmpfs_inv s" and nm: "NUL \<notin> set nm" "nm \<noteq> []"
  shows "tmpfs_find_file (Some nm) s = Some i \<longleftrightarrow> named s nm i"
    "tmpfs_find_file (Some nm) s = None \<longleftrightarrow> (\<forall>i. \<not> named s nm i)"
proof -
  have eq: "tmpfs_find_file (Some nm) s = find (\<lambda>i. tf_used (g_tmpfs_files s ! i) \<noteq> 0 \<and>
      c_string (tf_name (g_tmpfs_files s ! i)) = nm) [0..<8]"
    using nm by (simp add: tmpfs_find_file_def cchar_NUL tmpfs_name_equals_def kstreq_loop_c_string
        c_string_id TMPFS_MAX_FILES_def)
  show none: "tmpfs_find_file (Some nm) s = None \<longleftrightarrow> (\<forall>i. \<not> named s nm i)"
    unfolding eq by (auto simp: find_None_iff)
  have "named s nm j" if "tmpfs_find_file (Some nm) s = Some j" for j
    using that unfolding eq by (auto simp: find_Some_iff)
  with none tmpfs_invD(3) [OF inv] show "tmpfs_find_file (Some nm) s = Some i \<longleftrightarrow> named s nm i"
    by (metis not_None_eq)
qed

lemma find_file_empty: "tmpfs_find_file None s = None" "tmpfs_find_file (Some []) s = None"
  by (simp_all add: tmpfs_find_file_def cchar_def)

text \<open>Replacing one table entry.\<close>

lemma tmpfs_update:
  assumes inv: "tmpfs_inv s" and i: "i < 8" and wf: "file_wf f"
    and new: "\<And>j. tf_used f \<noteq> 0 \<Longrightarrow> j \<noteq> i \<Longrightarrow> \<not> named s (c_string (tf_name f)) j"
    and s': "s' = s\<lparr>g_tmpfs_files := (g_tmpfs_files s)[i := f]\<rparr>"
  shows "tmpfs_inv s'"
    "tmpfs_view s' nm = (if tf_used f \<noteq> 0 \<and> c_string (tf_name f) = nm then Some (file_content f)
       else if named s nm i then None else tmpfs_view s nm)"
proof -
  have len: "length (g_tmpfs_files s) = 8" by (rule tmpfs_invD(1) [OF inv])
  have nth: "g_tmpfs_files s' ! j = (if j = i then f else g_tmpfs_files s ! j)" if "j < 8" for j
    using that len i by (simp add: s' nth_list_update)
  have wfs: "\<forall>x\<in>set (g_tmpfs_files s'). file_wf x"
    using inv wf set_update_subset_insert [of "g_tmpfs_files s" i f] by (auto simp: s' tmpfs_inv_def)
  have nm': "named s' nm j \<longleftrightarrow> (if j = i then i < 8 \<and> tf_used f \<noteq> 0 \<and> c_string (tf_name f) = nm else named s nm j)" for nm j
    using nth [of j] i by auto
  have "j = k" if "named s' nm j" "named s' nm k" for nm j k
    using that new tmpfs_invD(3) [OF inv, of j nm k] unfolding nm' by (auto split: if_splits)
  then show inv': "tmpfs_inv s'"
    unfolding tmpfs_inv_def using wfs len by (auto simp: s')
  show "tmpfs_view s' nm = (if tf_used f \<noteq> 0 \<and> c_string (tf_name f) = nm then Some (file_content f)
       else if named s nm i then None else tmpfs_view s nm)"
  proof (cases "tf_used f \<noteq> 0 \<and> c_string (tf_name f) = nm")
    case True
    then have "named s' nm i" using i nth by simp
    with True view_Some_iff [OF inv', of nm "file_content f"] nth i show ?thesis by auto
  next
    case False
    show ?thesis
    proof (cases "named s nm i")
      case True
      with False have "\<forall>j. \<not> named s' nm j" using nm' tmpfs_invD(3) [OF inv, of i nm] by metis
      with True False view_None_iff [OF inv', of nm] show ?thesis by auto
    next
      case F2: False
      with False have "named s' nm j \<longleftrightarrow> named s nm j" for j using nm' by metis
      moreover have "named s nm j \<Longrightarrow> g_tmpfs_files s' ! j = g_tmpfs_files s ! j" for j
        using F2 nth by auto
      ultimately have "tmpfs_view s' nm = Some c \<longleftrightarrow> tmpfs_view s nm = Some c" for c
        unfolding view_Some_iff [OF inv] view_Some_iff [OF inv'] by metis
      then have "tmpfs_view s' nm = tmpfs_view s nm" by (metis option.exhaust)
      with False F2 show ?thesis by auto
    qed
  qed
qed

subsection \<open>Functional behaviour of the operations\<close>

lemma copy_name_loop_eq:
  "length dest = 32 \<Longrightarrow> NUL \<notin> set cs \<Longrightarrow> i < 32 \<Longrightarrow>
   copy_name_loop dest i cs =
     (if i + length cs < 32 then (take i dest @ cs @ NUL # drop (Suc (i + length cs)) dest, OK)
      else (take i dest @ take (31 - i) cs @ drop 31 dest, ERR))"
proof (induction cs arbitrary: dest i)
  case Nil
  then show ?case by (simp add: upd_conv_take_nth_drop)
next
  case (Cons c cs)
  show ?case
  proof (cases "i = 31")
    case True
    with Cons.prems show ?thesis by (auto simp: TMPFS_MAX_NAME_def id_take_nth_drop [symmetric])
  next
    case False
    with Cons.prems Cons.IH [of "dest[i := c]" "Suc i"] show ?thesis
      by (auto simp: TMPFS_MAX_NAME_def take_Suc_conv_app_nth Suc_diff_Suc take_Cons')
  qed
qed

lemma clear_file:
  assumes "length (tf_name f) = 32" "length (tf_data f) = 256"
  shows "tmpfs_clear_file f = f\<lparr>tf_name := replicate 32 NUL, tf_data := replicate 256 0, tf_size := 0, tf_used := 0\<rparr>"
  using assms
  by (simp add: tmpfs_clear_file_def TMPFS_MAX_NAME_def TMPFS_MAX_FILE_SIZE_def fold_update_range
      map_replicate_const del: upt_rec_numeral)

lemma c_string_append_NUL: "NUL \<notin> set nm \<Longrightarrow> c_string (nm @ NUL # x) = nm"
  by (induction nm) auto

definition tmpfs_full :: "tmpfs \<Rightarrow> bool" where
  "tmpfs_full s \<longleftrightarrow> (\<forall>f\<in>set (g_tmpfs_files s). tf_used f \<noteq> 0)"

lemma find_free_file:
  assumes "tmpfs_inv s"
  shows "find (\<lambda>i. tf_used (g_tmpfs_files s ! i) = 0) [0..<TMPFS_MAX_FILES] = None \<longleftrightarrow> tmpfs_full s"
    "find (\<lambda>i. tf_used (g_tmpfs_files s ! i) = 0) [0..<TMPFS_MAX_FILES] = Some i \<Longrightarrow>
       i < 8 \<and> tf_used (g_tmpfs_files s ! i) = 0"
  using tmpfs_invD(1) [OF assms]
  by (auto simp: tmpfs_full_def TMPFS_MAX_FILES_def find_None_iff find_Some_iff all_set_conv_all_nth
      del: upt_rec_numeral)

lemma tmpfs_create_spec:
  assumes inv: "tmpfs_inv s" and nm: "NUL \<notin> set nm"
  shows "case tmpfs_create (Some nm) s of (s', r) \<Rightarrow> tmpfs_inv s' \<and>
    (if nm = [] \<or> 32 \<le> length nm \<or> tmpfs_view s nm \<noteq> None \<or> tmpfs_full s
     then r = ERR \<and> tmpfs_view s' = tmpfs_view s
     else r = OK \<and> tmpfs_view s' = (tmpfs_view s)(nm \<mapsto> []))"
proof (cases "nm = [] \<or> tmpfs_view s nm \<noteq> None \<or> tmpfs_full s")
  case True
  then have "tmpfs_create (Some nm) s = (s, ERR)"
    using find_file_iff(2) [OF inv nm] view_None_iff [OF inv, of nm] find_free_file(1) [OF inv]
    by (auto simp: tmpfs_create_def cchar_NUL [OF nm])
  with True inv show ?thesis by auto
next
  case False
  then have ne: "nm \<noteq> []" and abs: "\<forall>j. \<not> named s nm j" and nf: "\<not> tmpfs_full s"
    using view_None_iff [OF inv, of nm] by auto
  then obtain i where i: "find (\<lambda>i. tf_used (g_tmpfs_files s ! i) = 0) [0..<TMPFS_MAX_FILES] = Some i"
    using find_free_file(1) [OF inv] by auto
  note free = find_free_file(2) [OF inv i]
  let ?f = "g_tmpfs_files s ! i"
  have wf: "file_wf ?f" using tmpfs_invD(2) [OF inv] free by simp
  then have clr: "tmpfs_clear_file ?f =
      ?f\<lparr>tf_name := replicate 32 NUL, tf_data := replicate 256 0, tf_size := 0, tf_used := 0\<rparr>"
    by (intro clear_file) (simp_all add: file_wf_def)
  note cp = copy_name_loop_eq [of "replicate 32 NUL" nm 0]
  have none: "tmpfs_find_file (Some nm) s = None" using find_file_iff(2) [OF inv nm ne] abs by simp
  show ?thesis
  proof (cases "length nm < 32")
    case True
    define f where "f = ?f\<lparr>tf_data := replicate 256 0,
       tf_name := nm @ NUL # replicate (31 - length nm) NUL, tf_size := 0, tf_used := 1\<rparr>"
    have "tmpfs_create (Some nm) s = (s\<lparr>g_tmpfs_files := (g_tmpfs_files s)[i := f]\<rparr>, OK)"
      using ne none i cp True nm
      by (simp add: tmpfs_create_def clr tmpfs_copy_name_def cchar_NUL f_def Let_def)
    moreover have "file_wf f" "c_string (tf_name f) = nm" "file_content f = []" "tf_used f \<noteq> 0"
      using nm True ne by (simp_all add: f_def file_wf_def c_string_append_NUL file_content_def)
    ultimately show ?thesis
      using tmpfs_update [OF inv _ \<open>file_wf f\<close>, of i] abs free True False by (auto simp: fun_eq_iff)
  next
    case long: False
    define f where "f = ?f\<lparr>tf_data := replicate 256 0, tf_size := 0, tf_used := 0,
       tf_name := take 31 nm @ [NUL]\<rparr>"
    have "tmpfs_create (Some nm) s = (s\<lparr>g_tmpfs_files := (g_tmpfs_files s)[i := f]\<rparr>, ERR)"
      using ne none i cp long nm
      by (simp add: tmpfs_create_def clr tmpfs_copy_name_def cchar_NUL f_def Let_def)
    moreover have "file_wf f" "tf_used f = 0"
      using long by (simp_all add: f_def file_wf_def)
    ultimately show ?thesis
      using tmpfs_update [OF inv _ \<open>file_wf f\<close>, of i] free long False by (auto simp: fun_eq_iff)
  qed
qed

lemma fold_update_offset:
  "off + k \<le> length d \<Longrightarrow> k \<le> length b \<Longrightarrow>
   fold (\<lambda>j d. d[off + j := b ! j]) [0..<k] d = take off d @ take k b @ drop (off + k) d"
proof (induction k)
  case (Suc k)
  then have "drop (off + k) d = d ! (off + k) # drop (Suc (off + k)) d"
    by (simp add: Cons_nth_drop_Suc)
  with Suc show ?case
    by (simp add: list_update_append take_Suc_conv_app_nth)
qed simp

text \<open>Writing \<open>d\<close> at an offset, over a gap of zeros if the offset lies past the end.\<close>

definition write_at :: "u8 list \<Rightarrow> nat \<Rightarrow> u8 list \<Rightarrow> u8 list" where
  "write_at c off d = take off (c @ replicate (off - length c) 0) @ d @ drop (off + length d) c"

lemma length_write_at: "length (write_at c off d) = max (length c) (off + length d)"
  by (auto simp: write_at_def)

lemma splice_data:
  assumes "data = c @ replicate (256 - length c) 0" "length c \<le> 256" "off + length d \<le> 256"
  shows "take off data @ d @ drop (off + length d) data =
    write_at c off d @ replicate (256 - length (write_at c off d)) 0"
proof -
  have "min (off - length c) (256 - length c) = off - length c" using assms(3) by simp
  then have "take off data = take off (c @ replicate (off - length c) 0)"
    unfolding assms(1) by simp
  moreover have "256 - length c - (off + length d - length c) = 256 - max (length c) (off + length d)"
    using assms(2,3) by arith
  then have "drop (off + length d) data =
      drop (off + length d) c @ replicate (256 - max (length c) (off + length d)) 0"
    unfolding assms(1) by simp
  ultimately show ?thesis unfolding length_write_at by (simp add: write_at_def)
qed

lemma of_nat_max_file_size: "(of_nat TMPFS_MAX_FILE_SIZE :: u64) = 256"
  by (simp add: TMPFS_MAX_FILE_SIZE_def)

lemma tmpfs_write_spec:
  assumes inv: "tmpfs_inv s" and nm: "NUL \<notin> set nm" and buf: "length buf = unat sz"
  shows "case tmpfs_write (Some nm) offset (Some buf) sz True s of (s', n, r) \<Rightarrow> tmpfs_inv s' \<and>
    (case tmpfs_view s nm of
       None \<Rightarrow> r = ERR \<and> n = 0 \<and> s' = s
     | Some c \<Rightarrow> if 256 < unat offset then r = ERR \<and> n = 0 \<and> s' = s
         else r = OK \<and> unat n = min (unat sz) (256 - unat offset) \<and>
           tmpfs_view s' = (tmpfs_view s)(nm \<mapsto> write_at c (unat offset) (take (unat n) buf)))"
proof (cases "tmpfs_find_file (Some nm) s")
  case None
  then have "tmpfs_view s nm = None"
    using find_file_iff(2) [OF inv nm] view_None_iff [OF inv, of nm] inv
    by (cases "nm = []") (auto simp: tmpfs_inv_def file_wf_def)
  with None inv show ?thesis by (simp add: tmpfs_write_def)
next
  case (Some i)
  then have ne: "nm \<noteq> []" using find_file_empty by auto
  have i: "named s nm i" using Some find_file_iff(1) [OF inv nm ne] by simp
  let ?f = "g_tmpfs_files s ! i"
  have v: "tmpfs_view s nm = Some (file_content ?f)" using view_Some_iff [OF inv] i by blast
  have wf: "file_wf ?f" using tmpfs_invD(2) [OF inv] i by simp
  show ?thesis
  proof (cases "256 < unat offset")
    case True
    with Some v inv show ?thesis by (simp add: tmpfs_write_def TMPFS_MAX_FILE_SIZE_def word_less_nat_alt)
  next
    case False
    define n where "n = (if sz > 256 - offset then 256 - offset else sz)"
    have le: "offset \<le> 256" using False by (simp add: word_le_nat_alt)
    then have "unat (256 - offset) = 256 - unat offset" by (simp add: unat_minus_no_underflow)
    then have n: "unat n = min (unat sz) (256 - unat offset)" by (simp add: n_def word_less_nat_alt min_def)
    have on: "unat (offset + n) = unat offset + unat n"
      using False n by (intro unat_plus_no_overflow) simp
    let ?c = "file_content ?f" and ?d = "take (unat n) buf"
    have c: "length ?c = unat (tf_size ?f)" "tf_data ?f = ?c @ replicate (256 - length ?c) 0" "length ?c \<le> 256"
      using wf i append_take_drop_id [of "unat (tf_size ?f)" "tf_data ?f"]
      by (simp_all add: file_wf_def file_content_def word_le_nat_alt min_def)
    have d: "length ?d = unat n" "unat offset + length ?d \<le> 256" using n buf False by auto
    define sz' where "sz' = (if offset + n > tf_size ?f then offset + n else tf_size ?f)"
    define f where "f = ?f\<lparr>tf_data := write_at ?c (unat offset) ?d @
        replicate (256 - length (write_at ?c (unat offset) ?d)) 0, tf_size := sz'\<rparr>"
    have sz': "unat sz' = length (write_at ?c (unat offset) ?d)"
      using on c(1) d by (auto simp: sz'_def length_write_at word_less_nat_alt max_def)
    have "fold (\<lambda>j d. d[unat offset + j := buf ! j]) [0..<unat n] (tf_data ?f) =
        write_at ?c (unat offset) ?d @ replicate (256 - length (write_at ?c (unat offset) ?d)) 0"
      using splice_data [OF c(2,3) d(2)] d wf buf n
      by (subst fold_update_offset) (simp_all add: file_wf_def)
    then have eq: "tmpfs_write (Some nm) offset (Some buf) sz True s =
        (s\<lparr>g_tmpfs_files := (g_tmpfs_files s)[i := f]\<rparr>, n, OK)"
      unfolding tmpfs_write_def of_nat_max_file_size Let_def n_def [symmetric] using Some leD [OF le]
      by (simp add: f_def sz'_def [symmetric] split del: if_split)
    have "length (write_at ?c (unat offset) ?d) \<le> 256" using c d by (simp add: length_write_at)
    then have wf': "file_wf f" and cont: "file_content f = write_at ?c (unat offset) ?d"
      using wf i sz' by (simp_all add: f_def file_wf_def file_content_def word_le_nat_alt)
    have nm': "c_string (tf_name f) = nm" and used: "tf_used f \<noteq> 0" using i by (simp_all add: f_def)
    have new: "\<not> named s (c_string (tf_name f)) j" if "j \<noteq> i" for j
      using tmpfs_invD(3) [OF inv i, of j] that unfolding nm' by blast
    have ib: "i < 8" using i by simp
    note u = tmpfs_update [OF inv ib wf' new refl]
    have "tmpfs_view (s\<lparr>g_tmpfs_files := (g_tmpfs_files s)[i := f]\<rparr>) =
        (tmpfs_view s)(nm \<mapsto> write_at ?c (unat offset) ?d)"
      using u(2) used nm' i cont by (auto simp: fun_eq_iff)
    with u(1) False v n show ?thesis unfolding eq by simp
  qed
qed

lemma find_file_view:
  assumes inv: "tmpfs_inv s" and nm: "NUL \<notin> set nm"
  obtains (none) "tmpfs_find_file (Some nm) s = None" "tmpfs_view s nm = None"
    | (found) i where "tmpfs_find_file (Some nm) s = Some i" "named s nm i"
      "tmpfs_view s nm = Some (file_content (g_tmpfs_files s ! i))" "file_wf (g_tmpfs_files s ! i)"
proof (cases "tmpfs_find_file (Some nm) s")
  case None
  moreover from None have "tmpfs_view s nm = None"
    using find_file_iff(2) [OF inv nm] view_None_iff [OF inv, of nm] inv
    by (cases "nm = []") (auto simp: tmpfs_inv_def file_wf_def)
  ultimately show thesis by (rule none)
next
  case (Some i)
  then have "nm \<noteq> []" using find_file_empty by auto
  with Some have i: "named s nm i" using find_file_iff(1) [OF inv nm] by simp
  moreover have "tmpfs_view s nm = Some (file_content (g_tmpfs_files s ! i))"
    using view_Some_iff [OF inv] i by blast
  moreover have "file_wf (g_tmpfs_files s ! i)" using tmpfs_invD(2) [OF inv] i by simp
  ultimately show thesis using Some found by blast
qed

lemma tmpfs_delete_spec:
  assumes inv: "tmpfs_inv s" and nm: "NUL \<notin> set nm"
  shows "case tmpfs_delete (Some nm) s of (s', r) \<Rightarrow> tmpfs_inv s' \<and>
    (if tmpfs_view s nm = None then r = ERR \<and> s' = s else r = OK \<and> tmpfs_view s' = (tmpfs_view s)(nm := None))"
  using inv nm
proof (cases rule: find_file_view)
  case none
  with inv show ?thesis by (simp add: tmpfs_delete_def)
next
  case (found i)
  let ?f = "tmpfs_clear_file (g_tmpfs_files s ! i)"
  have clr: "?f = (g_tmpfs_files s ! i)
      \<lparr>tf_name := replicate 32 NUL, tf_data := replicate 256 0, tf_size := 0, tf_used := 0\<rparr>"
    using found(4) by (intro clear_file) (simp_all add: file_wf_def)
  have f: "file_wf ?f" "tf_used ?f = 0" by (simp_all add: clr file_wf_def)
  note u = tmpfs_update [OF inv _ f(1) _ refl, of i]
  have "tmpfs_view (s\<lparr>g_tmpfs_files := (g_tmpfs_files s)[i := ?f]\<rparr>) = (tmpfs_view s)(nm := None)"
    using u(2) f(2) found(2) by (auto simp: fun_eq_iff)
  moreover have "tmpfs_inv (s\<lparr>g_tmpfs_files := (g_tmpfs_files s)[i := ?f]\<rparr>)"
    using u(1) f(2) found(2) by simp
  ultimately show ?thesis using found(1,3) by (simp add: tmpfs_delete_def)
qed

lemma fold_read_offset:
  assumes "k \<le> length b" "off + k \<le> length d"
  shows "fold (\<lambda>j b. b[j := d ! (off + j)]) [0..<k] b = take k (drop off d) @ drop k b"
proof -
  have "map (\<lambda>j. d ! (off + j)) [0..<k] = take k (drop off d)"
    by (rule nth_equalityI) (use assms in auto)
  then show ?thesis using fold_update_range [of 0 k b "\<lambda>j. d ! (off + j)"] assms by simp
qed

lemma tmpfs_read_spec:
  assumes inv: "tmpfs_inv s" and nm: "NUL \<notin> set nm" and buf: "length buf = unat capacity"
  shows "tmpfs_read (Some nm) offset (Some buf) capacity True s =
    (case tmpfs_view s nm of
       None \<Rightarrow> (Some buf, 0, ERR)
     | Some c \<Rightarrow> if length c < unat offset then (Some buf, 0, ERR)
         else let k = min (unat capacity) (length c - unat offset)
              in (Some (take k (drop (unat offset) c) @ drop k buf), of_nat k, OK))"
  using inv nm
proof (cases rule: find_file_view)
  case none
  then show ?thesis by (simp add: tmpfs_read_def)
next
  case (found i)
  let ?f = "g_tmpfs_files s ! i"
  have sz: "unat (tf_size ?f) \<le> 256" "length (tf_data ?f) = 256"
    using found(4) by (simp_all add: file_wf_def word_le_nat_alt)
  then have len: "length (file_content ?f) = unat (tf_size ?f)" by (simp add: file_content_def)
  show ?thesis
  proof (cases "tf_size ?f < offset")
    case True
    with found len show ?thesis by (simp add: tmpfs_read_def word_less_nat_alt)
  next
    case False
    define n where "n = (if capacity > tf_size ?f - offset then tf_size ?f - offset else capacity)"
    have le: "offset \<le> tf_size ?f" using False by (simp add: not_less)
    then have n: "unat n = min (unat capacity) (length (file_content ?f) - unat offset)"
      using len by (simp add: n_def word_less_nat_alt unat_minus_no_underflow min_def)
    have on: "unat offset + unat n \<le> unat (tf_size ?f)"
      using n len le by (simp add: word_le_nat_alt)
    have "fold (\<lambda>j b. b[j := tf_data ?f ! (unat offset + j)]) [0..<unat n] buf =
        take (unat n) (drop (unat offset) (tf_data ?f)) @ drop (unat n) buf"
      using on sz n buf by (intro fold_read_offset) simp_all
    also have "take (unat n) (drop (unat offset) (tf_data ?f)) =
        take (unat n) (drop (unat offset) (file_content ?f))"
      using on by (simp add: file_content_def take_drop min_def)
    finally have "tmpfs_read (Some nm) offset (Some buf) capacity True s =
        (Some (take (unat n) (drop (unat offset) (file_content ?f)) @ drop (unat n) buf), n, OK)"
      using found(1) False
      by (simp add: tmpfs_read_def Let_def n_def [symmetric] split del: if_split)
    moreover have "\<not> length (file_content ?f) < unat offset" using le len by (simp add: word_le_nat_alt)
    moreover have "n = of_nat (min (unat capacity) (length (file_content ?f) - unat offset))"
      unfolding n [symmetric] by simp
    ultimately show ?thesis using found(3) n by (simp add: Let_def)
  qed
qed

lemma tmpfs_reset_files:
  assumes "length (g_tmpfs_files s) = 8"
  shows "g_tmpfs_files (tmpfs_reset s) = map tmpfs_clear_file (g_tmpfs_files s)"
proof -
  have "n \<le> 8 \<Longrightarrow> g_tmpfs_files (fold (\<lambda>i s. s\<lparr>g_tmpfs_files :=
      (g_tmpfs_files s)[i := tmpfs_clear_file (g_tmpfs_files s ! i)]\<rparr>) [0..<n] s) =
      map tmpfs_clear_file (take n (g_tmpfs_files s)) @ drop n (g_tmpfs_files s)" for n
  proof (induction n)
    case (Suc n)
    then have "drop n (g_tmpfs_files s) = g_tmpfs_files s ! n # drop (Suc n) (g_tmpfs_files s)"
      using assms by (simp add: Cons_nth_drop_Suc)
    with Suc assms show ?case by (simp add: nth_append list_update_append take_Suc_conv_app_nth)
  qed simp
  from this [of 8] assms show ?thesis
    by (simp add: tmpfs_reset_def TMPFS_MAX_FILES_def del: upt_rec_numeral fold_simps)
qed

lemma tmpfs_reset_inv:
  assumes "length (g_tmpfs_files s) = 8"
    "\<forall>f\<in>set (g_tmpfs_files s). length (tf_name f) = 32 \<and> length (tf_data f) = 256"
  shows "tmpfs_inv (tmpfs_reset s)" "tmpfs_view (tmpfs_reset s) nm = None" "\<not> tmpfs_full (tmpfs_reset s)"
proof -
  have c: "\<forall>f\<in>set (g_tmpfs_files (tmpfs_reset s)). file_wf f \<and> tf_used f = 0"
    using assms by (auto simp: tmpfs_reset_files clear_file file_wf_def)
  show inv: "tmpfs_inv (tmpfs_reset s)"
    using c assms(1) by (auto simp: tmpfs_inv_def tmpfs_reset_files [OF assms(1)] all_set_conv_all_nth)
  show "tmpfs_view (tmpfs_reset s) nm = None"
    using c by (auto simp: tmpfs_view_def find_None_iff split: option.splits dest!: find_Some_iff [THEN iffD1])
  have "g_tmpfs_files (tmpfs_reset s) ! 0 \<in> set (g_tmpfs_files (tmpfs_reset s))"
    using assms(1) tmpfs_reset_files [OF assms(1)] by (intro nth_mem) simp
  with c show "\<not> tmpfs_full (tmpfs_reset s)" by (auto simp: tmpfs_full_def)
qed

definition example_tmpfs :: tmpfs where
  "example_tmpfs = tmpfs_reset \<lparr>g_tmpfs_files =
     replicate 8 \<lparr>tf_name = replicate 32 CHR ''x'', tf_data = replicate 256 7, tf_size = 3, tf_used = 1\<rparr>\<rparr>"

lemma example_tmpfs: "tmpfs_inv example_tmpfs" "tmpfs_view example_tmpfs nm = None" "\<not> tmpfs_full example_tmpfs"
  unfolding example_tmpfs_def by (rule tmpfs_reset_inv; simp)+

subsection \<open>Properties\<close>

text \<open>
  C15: the file table implements a finite map from names to byte strings.
  \<open>tmpfs_create\<close> adds an empty file exactly when the name is non-empty, shorter than 32
  characters and new and a slot is free; \<open>tmpfs_delete\<close> removes exactly the named file;
  \<open>tmpfs_write\<close> overwrites the named file alone, clamped at 256 bytes, with zeros in the
  gap when it starts past the end.  Every failing call leaves all files as they were, and
  the invariant (unique names, zero bytes behind every file) is kept.
\<close>

theorem tmpfs_refines_map:
  assumes "tmpfs_inv s" "NUL \<notin> set nm" "length buf = unat sz"
  shows "(case tmpfs_create (Some nm) s of (s', r) \<Rightarrow> tmpfs_inv s' \<and>
      (if nm = [] \<or> 32 \<le> length nm \<or> tmpfs_view s nm \<noteq> None \<or> tmpfs_full s
       then r = ERR \<and> tmpfs_view s' = tmpfs_view s
       else r = OK \<and> tmpfs_view s' = (tmpfs_view s)(nm \<mapsto> []))) \<and>
    (case tmpfs_delete (Some nm) s of (s', r) \<Rightarrow> tmpfs_inv s' \<and>
      (if tmpfs_view s nm = None then r = ERR \<and> s' = s
       else r = OK \<and> tmpfs_view s' = (tmpfs_view s)(nm := None))) \<and>
    (case tmpfs_write (Some nm) offset (Some buf) sz True s of (s', n, r) \<Rightarrow> tmpfs_inv s' \<and>
      (case tmpfs_view s nm of
         None \<Rightarrow> r = ERR \<and> n = 0 \<and> s' = s
       | Some c \<Rightarrow> if 256 < unat offset then r = ERR \<and> n = 0 \<and> s' = s
           else r = OK \<and> unat n = min (unat sz) (256 - unat offset) \<and>
             tmpfs_view s' = (tmpfs_view s)(nm \<mapsto> write_at c (unat offset) (take (unat n) buf))))"
  by (intro conjI tmpfs_create_spec [OF assms(1,2)] tmpfs_delete_spec [OF assms(1,2)] tmpfs_write_spec [OF assms])

theorem tmpfs_refines_map_witness:
  "case tmpfs_create (Some ''motd'') example_tmpfs of (s', r) \<Rightarrow> r = OK \<and> tmpfs_view s' ''motd'' = Some []"
  using tmpfs_refines_map [OF example_tmpfs(1), of "''motd''" "[]" 0 0]
  by (auto simp: example_tmpfs split: prod.splits)

text \<open>
  C16: reading back what was written.  After a successful \<open>tmpfs_write\<close> of \<open>n\<close> bytes, a
  \<open>tmpfs_read\<close> of \<open>n\<close> bytes at the same offset returns exactly these bytes.
\<close>

theorem tmpfs_read_after_write:
  assumes "tmpfs_inv s" "NUL \<notin> set nm" "length buf = unat sz"
    "tmpfs_write (Some nm) offset (Some buf) sz True s = (s', n, OK)" "length out = unat n"
  shows "tmpfs_read (Some nm) offset (Some out) n True s' = (Some (take (unat n) buf), n, OK)"
proof -
  from tmpfs_write_spec [OF assms(1-3), of offset] assms(4) obtain c where inv: "tmpfs_inv s'"
    and n: "unat n = min (unat sz) (256 - unat offset)" "unat offset \<le> 256"
    and v: "tmpfs_view s' nm = Some (write_at c (unat offset) (take (unat n) buf))"
    by (auto split: option.splits if_splits)
  let ?w = "write_at c (unat offset) (take (unat n) buf)"
  have l: "length (take (unat n) buf) = unat n" using n assms(3) by simp
  have "take (unat n) (drop (unat offset) ?w) = take (unat n) buf"
  proof -
    have "drop (unat offset) ?w = take (unat n) buf @ drop (unat offset + unat n) c"
      using l by (simp add: write_at_def)
    then show ?thesis using l by simp
  qed
  moreover have "unat offset + unat n \<le> length ?w" using l by (simp add: length_write_at)
  moreover from this have "min (unat n) (length ?w - unat offset) = unat n" by simp
  ultimately show ?thesis
    using tmpfs_read_spec [OF inv assms(2,5), of offset] v assms(5) by (simp add: Let_def)
qed

theorem tmpfs_read_after_write_witness:
  "\<exists>s s'. tmpfs_write (Some ''motd'') 4 (Some [72, 105]) 2 True s = (s', 2, OK) \<and>
     tmpfs_read (Some ''motd'') 4 (Some [0, 0]) 2 True s' = (Some [72, 105], 2, OK)"
proof -
  obtain s r where c: "tmpfs_create (Some ''motd'') example_tmpfs = (s, r)" by fastforce
  have s: "tmpfs_inv s" "tmpfs_view s ''motd'' = Some []"
    using tmpfs_create_spec [OF example_tmpfs(1), of "''motd''"] c by (auto simp: example_tmpfs)
  obtain s' n r' where w: "tmpfs_write (Some ''motd'') 4 (Some [72, 105]) 2 True s = (s', n, r')"
    by (metis prod_cases3)
  have "unat n = 2 \<and> r' = OK"
    using tmpfs_write_spec [OF s(1), of "''motd''" "[72, 105]" 2 4] w s(2) by simp
  then have n: "n = 2" "r' = OK" by (auto intro: unsigned_word_eqI [where ?'a = nat])
  have "tmpfs_read (Some ''motd'') 4 (Some [0, 0]) 2 True s' = (Some (take (unat (2::u64)) [72, 105]), 2, OK)"
    by (rule tmpfs_read_after_write [OF s(1) _ _ w [unfolded n]]) simp_all
  with w n show ?thesis by auto
qed

end
