(* ===== verification/Bytes.thy ===== *)
theory Bytes
  imports Prelude
begin

text \<open>
  Little-endian fields of a byte array: the loads and stores of 16-, 32- and 64-bit
  integers that image headers, disk sectors and network packets are read and written with.
\<close>

definition le16 :: "u8 list \<Rightarrow> nat \<Rightarrow> u16" where
  "le16 bs i = ucast (bs ! i) OR push_bit 8 (ucast (bs ! (i + 1)))"

definition le32 :: "u8 list \<Rightarrow> nat \<Rightarrow> u32" where
  "le32 bs i = ucast (bs ! i) OR push_bit 8 (ucast (bs ! (i + 1))) OR push_bit 16 (ucast (bs ! (i + 2))) OR
     push_bit 24 (ucast (bs ! (i + 3)))"

definition le64 :: "u8 list \<Rightarrow> nat \<Rightarrow> u64" where
  "le64 bs i = ucast (le32 bs i) OR push_bit 32 (ucast (le32 bs (i + 4)))"

definition put_le16 :: "nat \<Rightarrow> u16 \<Rightarrow> u8 list \<Rightarrow> u8 list" where
  "put_le16 i w bs = bs[i := ucast w, i + 1 := ucast (drop_bit 8 w)]"

definition put_le32 :: "nat \<Rightarrow> u32 \<Rightarrow> u8 list \<Rightarrow> u8 list" where
  "put_le32 i w bs = bs[i := ucast w, i + 1 := ucast (drop_bit 8 w), i + 2 := ucast (drop_bit 16 w), i + 3 := ucast (drop_bit 24 w)]"

subsection \<open>Stores and loads\<close>

lemma length_put [simp]: "length (put_le16 i w bs) = length bs" "length (put_le32 i v bs) = length bs"
  by (simp_all add: put_le16_def put_le32_def)

lemma le16_put_le16 [simp]:
  assumes "i + 1 < length bs"
  shows "le16 (put_le16 i w bs) i = w"
proof (rule bit_word_eqI)
  fix n
  assume "n < LENGTH(16)"
  then show "bit (le16 (put_le16 i w bs) i) n \<longleftrightarrow> bit w n"
    using assms by (auto simp: le16_def put_le16_def bit_simps)
qed

lemma le32_put_le32 [simp]:
  assumes "i + 3 < length bs"
  shows "le32 (put_le32 i w bs) i = w"
proof (rule bit_word_eqI)
  fix n
  assume n: "n < LENGTH(32)"
  consider "n < 8" | "8 \<le> n" "n < 16" | "16 \<le> n" "n < 24" | "24 \<le> n" by linarith
  then show "bit (le32 (put_le32 i w bs) i) n \<longleftrightarrow> bit w n"
    using assms n by cases (auto simp: le32_def put_le32_def bit_simps)
qed

lemma put_nth_other:
  "j < i \<or> i + 1 < j \<Longrightarrow> put_le16 i w bs ! j = bs ! j"
  "j < i \<or> i + 3 < j \<Longrightarrow> put_le32 i v bs ! j = bs ! j"
  by (auto simp: put_le16_def put_le32_def nth_list_update)

lemma le16_put_other:
  "j + 1 < i \<or> i + 1 < j \<Longrightarrow> le16 (put_le16 i w bs) j = le16 bs j"
  "j + 1 < i \<or> i + 3 < j \<Longrightarrow> le16 (put_le32 i v bs) j = le16 bs j"
  by (auto simp: le16_def put_nth_other)

lemma le32_put_other:
  "j + 3 < i \<or> i + 1 < j \<Longrightarrow> le32 (put_le16 i w bs) j = le32 bs j"
  "j + 3 < i \<or> i + 3 < j \<Longrightarrow> le32 (put_le32 i v bs) j = le32 bs j"
  by (auto simp: le32_def put_nth_other)

end
