(* ===== verification/Process_Life.thy ===== *)
theory Process_Life
  imports Process
begin

text \<open>
  The life of a process: who runs next, how often, what an exit leaves behind and what a
  release gives back.  The operations are those of theory \<open>Process\<close>; this theory proves
  their properties.
\<close>

section \<open>Dispatching\<close>

text \<open>How many table entries lie between \<open>a\<close> and \<open>n\<close> when walking up from \<open>a\<close>, cyclically.\<close>

definition gap :: "nat \<Rightarrow> nat \<Rightarrow> nat" where
  "gap a n = (n + 15 - a) mod 16"

lemma gap_unique:
  assumes "a < 16" "n < 16"
  shows "gap a n < 16" "(a + 1 + gap a n) mod 16 = n" "off < 16 \<Longrightarrow> (a + 1 + off) mod 16 = n \<Longrightarrow> off = gap a n"
proof -
  have c: "gap a n = (if a < n then n - a - 1 else n + 15 - a)"
    using assms by (auto simp: gap_def mod_if)
  show "gap a n < 16" by (simp add: gap_def)
  show "(a + 1 + gap a n) mod 16 = n" using assms by (auto simp: c mod_if)
  show "off < 16 \<Longrightarrow> (a + 1 + off) mod 16 = n \<Longrightarrow> off = gap a n"
    using assms by (auto simp: c mod_if split: if_splits)
qed

lemma gap_self: "a < 16 \<Longrightarrow> n < 16 \<Longrightarrow> gap a n = 15 \<longleftrightarrow> n = a"
  by (auto simp: gap_def mod_if split: if_splits)

lemma next_runnable_Some:
  assumes a: "a < 16" and n: "process_next_runnable (Some a) t = Some n"
  shows "n < 16" "n \<noteq> a" "state (g_processes t n) = PROCESS_READY"
    "m < 16 \<Longrightarrow> m \<noteq> a \<Longrightarrow> state (g_processes t m) = PROCESS_READY \<Longrightarrow> gap a n \<le> gap a m"
proof -
  from n a obtain off where off: "off < 15" "n = (a + 1 + off) mod 16" "state (g_processes t n) = PROCESS_READY"
    and before: "\<And>k. k < off \<Longrightarrow> state (g_processes t ((a + 1 + k) mod 16)) \<noteq> PROCESS_READY"
    by (auto simp: process_next_runnable_def process_in_table_def PROCESS_MAX_PROCESSES_def find_Some_iff
        simp del: upt_rec_numeral)
  show n16: "n < 16" using off by simp
  have g: "off = gap a n" by (rule gap_unique(3) [OF a n16]) (use off in simp_all)
  have "gap a n \<noteq> 15" using off(1) g by simp
  then show "n \<noteq> a" using gap_self [OF a n16] by blast
  show "state (g_processes t n) = PROCESS_READY" by (rule off)
  show "gap a n \<le> gap a m" if "m < 16" "m \<noteq> a" "state (g_processes t m) = PROCESS_READY"
  proof (rule ccontr)
    assume "\<not> gap a n \<le> gap a m"
    then have "gap a m < off" using g by simp
    from before [OF this] that(3) show False unfolding gap_unique(2) [OF a that(1)] by simp
  qed
qed

lemma next_runnable_None:
  assumes a: "a < 16"
  shows "process_next_runnable (Some a) t = None \<longleftrightarrow>
    (\<forall>m<16. m \<noteq> a \<longrightarrow> state (g_processes t m) \<noteq> PROCESS_READY)"
proof -
  have "process_next_runnable (Some a) t = None \<longleftrightarrow>
      (\<forall>off<15. state (g_processes t ((a + 1 + off) mod 16)) \<noteq> PROCESS_READY)"
    using a by (auto simp: process_next_runnable_def process_in_table_def PROCESS_MAX_PROCESSES_def find_None_iff)
  also have "\<dots> \<longleftrightarrow> (\<forall>m<16. m \<noteq> a \<longrightarrow> state (g_processes t m) \<noteq> PROCESS_READY)"
  proof (intro iffI allI impI)
    fix m
    assume h: "\<forall>off<15. state (g_processes t ((a + 1 + off) mod 16)) \<noteq> PROCESS_READY" and m: "m < 16" "m \<noteq> a"
    then have "gap a m < 15" using gap_self [OF a m(1)] gap_unique(1) [OF a m(1)] by simp
    with h gap_unique(2) [OF a m(1)] show "state (g_processes t m) \<noteq> PROCESS_READY" by metis
  next
    fix off :: nat
    assume h: "\<forall>m<16. m \<noteq> a \<longrightarrow> state (g_processes t m) \<noteq> PROCESS_READY" and off: "off < 15"
    have "(a + 1 + off) mod 16 < 16" by simp
    moreover have "(a + 1 + off) mod 16 \<noteq> a" using a off by (auto simp: mod_if split: if_splits)
    ultimately show "state (g_processes t ((a + 1 + off) mod 16)) \<noteq> PROCESS_READY" using h by blast
  qed
  finally show ?thesis .
qed

lemma next_runnable_first:
  "process_next_runnable None t = Some n \<Longrightarrow> n < 16 \<and> state (g_processes t n) = PROCESS_READY"
  by (auto simp: process_next_runnable_def PROCESS_MAX_PROCESSES_def find_Some_iff)

text \<open>The frame a dispatched process returns to.\<close>

definition frame_of :: "process \<Rightarrow> exception_frame" where
  "frame_of p = \<lparr>frame_x = regs p, frame_elr = pc p, frame_spsr = pstate p, frame_sp_el0 = psp p\<rparr>"

lemma process_load_context_eq:
  assumes "length (regs p) = 31" "length (frame_x fr) = 31"
  shows "process_load_context p fr = frame_of p"
proof -
  have "fold (\<lambda>i x. x[i := regs p ! i]) [0..<31] (frame_x fr) = regs p"
    using assms by (simp add: fold_update_range map_nth_upt_take del: upt_rec_numeral)
  then show ?thesis by (simp add: process_load_context_def frame_of_def)
qed

lemma dispatch_table:
  assumes inv: "pt_inv t" and c: "\<And>i. current = Some i \<Longrightarrow> i < 16 \<and> live t i" and fr: "length (frame_x fr) = 31"
    and d: "process_dispatch_next current (Some fr) policy t = (t', fr', 1)"
  obtains n where "process_next_runnable current t = Some n" "n < 16" "current \<noteq> Some n"
    "state (g_processes t n) = PROCESS_READY"
    "pt_inv t'" "g_current_process t' = Some n" "fr' = Some (frame_of (g_processes t n))"
    "g_processes t' n = (g_processes t n)\<lparr>state := PROCESS_RUNNING\<rparr>"
    "\<And>j. j \<noteq> n \<Longrightarrow> g_processes t' j = (if current = Some j \<and> policy = PROCESS_DISPATCH_PREEMPT \<and>
        state (g_processes t j) = PROCESS_RUNNING then (g_processes t j)\<lparr>state := PROCESS_READY\<rparr> else g_processes t j)"
proof -
  from d obtain n where n: "process_next_runnable current t = Some n"
    by (auto simp: process_dispatch_next_def split: if_splits option.splits)
  have n16: "n < 16" "current \<noteq> Some n" "state (g_processes t n) = PROCESS_READY"
    using n c next_runnable_Some [of _ t n] next_runnable_first [of t n] by (cases current; auto)+
  define t1 where "t1 = (case current of
      Some c \<Rightarrow> if policy = PROCESS_DISPATCH_PREEMPT \<and> state (g_processes t c) = PROCESS_RUNNING
                then set_process c ((g_processes t c)\<lparr>state := PROCESS_READY\<rparr>) t else t
    | None \<Rightarrow> t)"
  have p1: "g_processes t1 = (\<lambda>j. if current = Some j \<and> policy = PROCESS_DISPATCH_PREEMPT \<and>
        state (g_processes t j) = PROCESS_RUNNING then (g_processes t j)\<lparr>state := PROCESS_READY\<rparr> else g_processes t j)"
    "g_process_count t1 = g_process_count t" "g_current_process t1 = g_current_process t"
    by (auto simp: t1_def set_process_def split: option.splits)
  have inv1: "pt_inv t1"
    using inv pt_inv_set_state [OF inv, of _ "(g_processes t _)\<lparr>state := PROCESS_READY\<rparr>"] c pt_invD(1) [OF inv]
    by (auto simp: t1_def set_process_def split: option.splits)
  have p: "g_processes t' = (g_processes t1)(n := (g_processes t n)\<lparr>state := PROCESS_RUNNING\<rparr>)"
    "g_process_count t' = g_process_count t1" "g_current_process t' = Some n"
    "fr' = Some (process_load_context ((g_processes t n)\<lparr>state := PROCESS_RUNNING\<rparr>) fr)"
    using d n n16(2) p1
    by (auto simp: process_dispatch_next_def t1_def [symmetric] process_activate_context_def set_process_def
        process_set_current_def Let_def split: if_splits)
  have "proc_wf (g_processes t n)" by (rule pt_invD(1) [OF inv n16(1)])
  then have f: "fr' = Some (frame_of (g_processes t n))"
    using p(4) process_load_context_eq [of "(g_processes t n)\<lparr>state := PROCESS_RUNNING\<rparr>" fr] fr
    by (simp add: proc_wf_def frame_of_def)
  have "pt_inv t'"
    by (rule pt_inv_set_state [OF inv1 n16(1) _ _ _ _ p(1,2)])
       (use n16 p p1 pt_invD(1) [OF inv n16(1)] in auto)
  then show thesis using n n16 p p1 f by (intro that) auto
qed

text \<open>Timer preemption: each tick dispatches away from the current process.\<close>

definition tick :: "exception_frame \<Rightarrow> ptable \<Rightarrow> ptable" where
  "tick fr t = fst (process_dispatch_next (g_current_process t) (Some fr) PROCESS_DISPATCH_PREEMPT t)"

lemma gap_eq: "a < 16 \<Longrightarrow> n < 16 \<Longrightarrow> gap a n = (if a < n then n - a - 1 else n + 15 - a)"
  by (auto simp: gap_def mod_if)

lemma gap_step:
  assumes "c < 16" "n < 16" "p < 16" "gap c n < gap c p"
  shows "gap n p < gap c p"
  using assms by (auto simp: gap_eq split: if_splits)

lemma tick_step:
  assumes inv: "pt_inv t" and c: "g_current_process t = Some c" "state (g_processes t c) = PROCESS_RUNNING"
    and p: "p < 16" "state (g_processes t p) = PROCESS_READY" and fr: "length (frame_x fr) = 31"
  shows "\<exists>n. n < 16 \<and> pt_inv (tick fr t) \<and> g_current_process (tick fr t) = Some n \<and>
    state (g_processes (tick fr t) n) = PROCESS_RUNNING \<and> gap c n \<le> gap c p \<and>
    (n \<noteq> p \<longrightarrow> state (g_processes (tick fr t) p) = PROCESS_READY)"
proof -
  have c16: "c < 16" using pt_invD(5) [OF inv c(1)] by simp
  have pc: "p \<noteq> c" using p c by auto
  then obtain m where m: "process_next_runnable (Some c) t = Some m"
    using next_runnable_None [OF c16, of t] p by (cases "process_next_runnable (Some c) t") auto
  obtain t' fr' r where d0: "process_dispatch_next (Some c) (Some fr) PROCESS_DISPATCH_PREEMPT t = (t', fr', r)"
    by (metis prod_cases3)
  then have "r = 1" using m by (simp add: process_dispatch_next_def Let_def split_beta)
  with d0 have d: "process_dispatch_next (Some c) (Some fr) PROCESS_DISPATCH_PREEMPT t = (t', fr', 1)" by simp
  obtain n where n: "process_next_runnable (Some c) t = Some n" "n < 16" "pt_inv t'" "g_current_process t' = Some n"
    "g_processes t' n = (g_processes t n)\<lparr>state := PROCESS_RUNNING\<rparr>"
    "\<And>j. j \<noteq> n \<Longrightarrow> g_processes t' j = (if Some c = Some j \<and> PROCESS_DISPATCH_PREEMPT = PROCESS_DISPATCH_PREEMPT \<and>
        state (g_processes t j) = PROCESS_RUNNING then (g_processes t j)\<lparr>state := PROCESS_READY\<rparr> else g_processes t j)"
  proof (rule dispatch_table [OF inv _ fr d])
    fix i
    assume "Some c = Some i"
    with c16 c(2) show "i < 16 \<and> live t i" by auto
  qed (rule that)
  have "gap c n \<le> gap c p" using next_runnable_Some(4) [OF c16 n(1)] p pc by simp
  with d n p pc show ?thesis by (auto simp: tick_def c)
qed

lemma tick_reaches:
  assumes "pt_inv t" "g_current_process t = Some c" "state (g_processes t c) = PROCESS_RUNNING"
    "p < 16" "state (g_processes t p) = PROCESS_READY" "length (frame_x fr) = 31"
  shows "\<exists>k\<le>gap c p + 1. g_current_process ((tick fr ^^ k) t) = Some p \<and>
    state (g_processes ((tick fr ^^ k) t) p) = PROCESS_RUNNING"
  using assms
proof (induction "gap c p" arbitrary: t c rule: less_induct)
  case less
  from tick_step [OF less.prems] obtain n where n: "n < 16" "pt_inv (tick fr t)"
    "g_current_process (tick fr t) = Some n" "state (g_processes (tick fr t) n) = PROCESS_RUNNING"
    "gap c n \<le> gap c p" "n \<noteq> p \<longrightarrow> state (g_processes (tick fr t) p) = PROCESS_READY" by blast
  show ?case
  proof (cases "n = p")
    case True
    with n show ?thesis by (intro exI [of _ 1]) simp
  next
    case False
    have c16: "c < 16" using pt_invD(5) [OF less.prems(1,2)] by simp
    have "gap c n \<noteq> gap c p" using False gap_unique(2) [OF c16] n(1) less.prems(4) by metis
    with n(5) have "gap c n < gap c p" by simp
    then have g: "gap n p < gap c p" by (rule gap_step [OF c16 n(1) less.prems(4)])
    with less.hyps [OF g n(2,3,4) less.prems(4) _ less.prems(6)] n(6) False
    obtain k where "k \<le> gap n p + 1" "g_current_process ((tick fr ^^ k) (tick fr t)) = Some p"
      "state (g_processes ((tick fr ^^ k) (tick fr t)) p) = PROCESS_RUNNING" by blast
    with g show ?thesis by (intro exI [of _ "Suc k"]) (simp add: funpow_swap1)
  qed
qed

section \<open>Reclaiming zombies\<close>

definition active :: "process \<Rightarrow> bool" where
  "active p \<longleftrightarrow> state p \<noteq> PROCESS_UNUSED \<and> state p \<noteq> PROCESS_ZOMBIE"

text \<open>A zombie nobody can wait for: it has no parent, or its parent is not active.\<close>

definition orphan :: "ptable \<Rightarrow> nat \<Rightarrow> bool" where
  "orphan t i \<longleftrightarrow> state (g_processes t i) = PROCESS_ZOMBIE \<and>
     (parent_pid (g_processes t i) = 0 \<or>
      (\<forall>j<16. active (g_processes t j) \<longrightarrow> pid (g_processes t j) \<noteq> parent_pid (g_processes t i)))"

lemma reclaim_at_orphan:
  assumes inv: "pt_inv t"
  shows "reclaim_at i (t, s) = (if orphan t i then process_release (Some i) (t, s) else (t, s))"
proof (cases "parent_pid (g_processes t i) = 0")
  case False
  show ?thesis
  proof (cases "process_find (parent_pid (g_processes t i)) t")
    case None
    then show ?thesis using process_find_iff(2) [OF inv False] False
      by (auto simp: reclaim_at_def orphan_def active_def Let_def)
  next
    case (Some k)
    then have k: "k < 16" "live t k" "pid (g_processes t k) = parent_pid (g_processes t i)"
      using process_find_Some [OF Some] by blast+
    have "(\<forall>j<16. active (g_processes t j) \<longrightarrow> pid (g_processes t j) \<noteq> parent_pid (g_processes t i)) \<longleftrightarrow>
        \<not> active (g_processes t k)"
      using k pt_invD(3) [OF inv] unfolding active_def by metis
    then have "orphan t i \<longleftrightarrow> state (g_processes t i) = PROCESS_ZOMBIE \<and> \<not> active (g_processes t k)"
      using False by (simp add: orphan_def)
    then show ?thesis using Some False k(2) by (simp add: reclaim_at_def active_def Let_def)
  qed
qed (simp add: reclaim_at_def orphan_def Let_def)

lemma fold_reclaim:
  assumes inv: "pt_inv t" and xs: "set xs \<subseteq> {..<16}"
  shows "case fold reclaim_at xs (t, s) of (t', s') \<Rightarrow> pt_inv t' \<and>
    (\<forall>j. if j \<in> set xs \<and> orphan t j then \<not> live t' j else g_processes t' j = g_processes t j)"
  using assms
proof (induction xs arbitrary: t s)
  case (Cons x xs)
  obtain t1 s1 where r: "reclaim_at x (t, s) = (t1, s1)" by fastforce
  have x: "x < 16" using Cons.prems(2) by simp
  have t1: "pt_inv t1 \<and> (if orphan t x then \<not> live t1 x \<and> (\<forall>j. j \<noteq> x \<longrightarrow> g_processes t1 j = g_processes t j) else t1 = t)"
    using r process_release_table [OF Cons.prems(1) x, of s] unfolding reclaim_at_orphan [OF Cons.prems(1)]
    using Cons.prems(1) by (auto split: if_splits)
  have act: "active (g_processes t1 j) \<longleftrightarrow> active (g_processes t j)" "active (g_processes t j) \<Longrightarrow> g_processes t1 j = g_processes t j" for j
    using t1 by (cases "j = x"; auto simp: active_def orphan_def split: if_splits)+
  have orph: "orphan t1 j \<longleftrightarrow> (if j = x \<and> orphan t x then False else orphan t j)" for j
  proof (cases "j = x \<and> orphan t x")
    case True
    with t1 show ?thesis by (auto simp: orphan_def)
  next
    case False
    then have "g_processes t1 j = g_processes t j" using t1 by (auto split: if_splits)
    then have "orphan t1 j \<longleftrightarrow> orphan t j" unfolding orphan_def using act by metis
    then show ?thesis using False by auto
  qed
  obtain t' s' where f: "fold reclaim_at xs (t1, s1) = (t', s')" by fastforce
  from Cons.IH [of t1 s1] Cons.prems t1 f have inv': "pt_inv t'"
    and h: "\<And>j. if j \<in> set xs \<and> orphan t1 j then \<not> live t' j else g_processes t' j = g_processes t1 j"
    by auto
  have "if j \<in> set (x # xs) \<and> orphan t j then \<not> live t' j else g_processes t' j = g_processes t j" for j
    using h [of j] orph [of j] t1
    by (cases "j = x"; cases "orphan t x") (auto split: if_splits)
  with inv' f r show ?case by simp
qed simp

section \<open>Owned pages\<close>

definition region_pages :: "user_region \<Rightarrow> u64 set" where
  "region_pages r =
     (if rg_flags r AND PROCESS_USER_REGION_OWNED_PAGES = 0 \<or> rg_paddr r = 0 \<or> \<not> rg_end r > rg_start r then {}
      else (\<lambda>k. rg_paddr r + of_nat k * PAGE_SIZE) ` {..<(unat (rg_end r - rg_start r) + 4095) div 4096})"

definition owned_pages :: "process \<Rightarrow> u64 set" where
  "owned_pages p = (\<Union>r\<in>set (regions p). region_pages r)"

definition disowned :: "user_region \<Rightarrow> user_region" where
  "disowned r = (if rg_flags r AND PROCESS_USER_REGION_OWNED_PAGES = 0 \<or> rg_paddr r = 0 then r
     else r\<lparr>rg_flags := rg_flags r AND NOT PROCESS_USER_REGION_OWNED_PAGES, rg_paddr := 0\<rparr>)"

lemma released_refl: "pmm_inv (vm_pmm s) \<Longrightarrow> released {} s s"
  by (simp add: released_def)

lemma free_region_pages_released:
  assumes "pmm_inv (vm_pmm s)"
    "(\<lambda>k. paddr + of_nat k * PAGE_SIZE) ` {..<(unat sz + 4095) div 4096} \<subseteq> managed_addrs (vm_pmm s) - {0}"
  shows "released ((\<lambda>k. paddr + of_nat k * PAGE_SIZE) ` {..<(unat sz + 4095) div 4096}) s (free_region_pages paddr sz s)"
proof -
  let ?n = "(unat sz + 4095) div 4096"
  have "released (\<Union>k\<in>set [0..<?n]. {paddr + of_nat k * PAGE_SIZE}) s (free_region_pages paddr sz s)"
    unfolding free_region_pages_def
  proof (rule released_fold)
    fix k and s1 :: vm
    assume k: "k \<in> set [0..<?n]" "pmm_inv (vm_pmm s1)" "managed_addrs (vm_pmm s1) = managed_addrs (vm_pmm s)"
    then have "paddr + of_nat k * PAGE_SIZE \<in> managed_addrs (vm_pmm s1) - {0}" using assms(2) by auto
    with k(2) show "released {paddr + of_nat k * PAGE_SIZE} s1
        (s1\<lparr>vm_pmm := pmm_free_page (paddr + of_nat k * PAGE_SIZE) (vm_pmm s1)\<rparr>)"
      by (intro released_page) auto
  qed (rule assms(1))
  moreover have "(\<Union>k\<in>set [0..<?n]. {paddr + of_nat k * PAGE_SIZE}) = (\<lambda>k. paddr + of_nat k * PAGE_SIZE) ` {..<?n}"
    by auto
  ultimately show ?thesis by (simp only:)
qed

lemma free_region_at_released:
  assumes "pmm_inv (vm_pmm s)" "region_pages (user_regions p ! i) \<subseteq> managed_addrs (vm_pmm s) - {0}"
    and f: "free_region_at i (p, s) = (p', s')"
  shows "released (region_pages (user_regions p ! i)) s s'"
    "user_regions p' = (user_regions p)[i := disowned (user_regions p ! i)]"
proof -
  let ?r = "user_regions p ! i"
  show "released (region_pages ?r) s s'"
  proof (cases "rg_flags ?r AND PROCESS_USER_REGION_OWNED_PAGES = 0 \<or> rg_paddr ?r = 0 \<or> \<not> rg_end ?r > rg_start ?r")
    case True
    then have "region_pages ?r = {}" "s' = s"
      using f by (auto simp: region_pages_def free_region_at_def Let_def split: if_splits)
    with assms(1) show ?thesis by (simp add: released_refl)
  next
    case False
    then have "s' = free_region_pages (rg_paddr ?r) (rg_end ?r - rg_start ?r) s"
      using f by (simp add: free_region_at_def Let_def)
    with False assms(1,2) show ?thesis by (simp add: region_pages_def free_region_pages_released)
  qed
  show "user_regions p' = (user_regions p)[i := disowned ?r]"
    using f by (auto simp: free_region_at_def Let_def disowned_def split: if_splits)
qed

lemma fold_free_region_released:
  assumes "distinct xs" "pmm_inv (vm_pmm s)" "set xs \<subseteq> {..<length (user_regions p)}"
    "\<And>i. i \<in> set xs \<Longrightarrow> region_pages (user_regions p ! i) \<subseteq> managed_addrs (vm_pmm s) - {0}"
    "fold free_region_at xs (p, s) = (p', s')"
  shows "released (\<Union>i\<in>set xs. region_pages (user_regions p ! i)) s s' \<and>
    (\<forall>j<length (user_regions p). user_regions p' ! j =
       (if j \<in> set xs then disowned (user_regions p ! j) else user_regions p ! j))"
  using assms
proof (induction xs arbitrary: p s)
  case Nil
  then show ?case by (simp add: released_refl)
next
  case (Cons x xs)
  obtain p1 s1 where f: "free_region_at x (p, s) = (p1, s1)" by fastforce
  from f Cons.prems(2,4) have r: "released (region_pages (user_regions p ! x)) s s1"
    and u: "user_regions p1 = (user_regions p)[x := disowned (user_regions p ! x)]"
    using free_region_at_released [of s p x p1 s1] by simp_all
  have same: "user_regions p1 ! i = user_regions p ! i" if "i \<in> set xs" for i
    using that Cons.prems(1) u by (metis distinct.simps(2) nth_list_update_neq)
  have x: "x < length (user_regions p)" using Cons.prems(3) by simp
  have "released (\<Union>i\<in>set xs. region_pages (user_regions p1 ! i)) s1 s' \<and>
    (\<forall>j<length (user_regions p1). user_regions p' ! j =
       (if j \<in> set xs then disowned (user_regions p1 ! j) else user_regions p1 ! j))"
    using Cons.prems f r u same by (intro Cons.IH) (auto simp: released_def)
  moreover have "(\<Union>i\<in>set xs. region_pages (user_regions p1 ! i)) = (\<Union>i\<in>set xs. region_pages (user_regions p ! i))"
    using same by simp
  ultimately show ?case
    using released_trans [OF r] u same x Cons.prems(1) by (auto simp: nth_list_update)
qed

lemma regions_nth: "proc_wf p \<Longrightarrow> set (regions p) = (\<lambda>i. user_regions p ! i) ` {..<unat (user_region_count p)}"
  using nth_image [of "unat (user_region_count p)" "user_regions p"]
  by (simp add: proc_wf_def regions_wf_def regions_def lessThan_atLeast0)

definition table_pages :: "u64 \<Rightarrow> vm \<Rightarrow> u64 set" where
  "table_pages pgd s = (if pgd = 0 then {} else tables_of s pgd 3)"

lemma free_resources_released:
  assumes wf: "proc_wf p" and inv: "pmm_inv (vm_pmm s)"
    and own: "owned_pages p \<subseteq> managed_addrs (vm_pmm s) - {0}" "table_pages (page_table p) s \<subseteq> managed_addrs (vm_pmm s) - {0}"
    and f: "process_free_resources p s = (p', s')"
  shows "released (owned_pages p \<union> table_pages (page_table p) s) s s'"
    "page_table p' = 0" "owned_pages p' = {}" "process_free_resources p' s' = (p', s')"
proof -
  let ?n = "unat (user_region_count p)"
  have n: "?n \<le> 8" "length (user_regions p) = 8" using wf by (auto simp: proc_wf_def regions_wf_def)
  then have m: "min ?n PROCESS_MAX_USER_REGIONS = ?n" by (simp add: PROCESS_MAX_USER_REGIONS_def)
  obtain p1 s1 where g: "fold free_region_at [0..<?n] (p, s) = (p1, s1)" by fastforce
  note gf = fold_free_region_fields [OF g]
  have op: "owned_pages p = (\<Union>i\<in>set [0..<?n]. region_pages (user_regions p ! i))"
    by (auto simp: owned_pages_def regions_nth [OF wf])
  have "released (\<Union>i\<in>set [0..<?n]. region_pages (user_regions p ! i)) s s1 \<and>
    (\<forall>j<length (user_regions p). user_regions p1 ! j =
       (if j \<in> set [0..<?n] then disowned (user_regions p ! j) else user_regions p ! j))"
  proof (rule fold_free_region_released [OF _ inv _ _ g])
    show "region_pages (user_regions p ! i) \<subseteq> managed_addrs (vm_pmm s) - {0}" if "i \<in> set [0..<?n]" for i
      using own(1) that unfolding op by blast
  qed (use n in auto)
  then have r: "released (owned_pages p) s s1"
    and u: "\<And>j. j < ?n \<Longrightarrow> user_regions p1 ! j = disowned (user_regions p ! j)"
    using n unfolding op by auto
  have p': "p' = p1\<lparr>page_table := 0\<rparr>" "s' = (if page_table p \<noteq> 0 then vmm_free_table (page_table p) s1 else s1)"
    using f g gf m by (auto simp: process_free_resources_def split: if_splits)
  have inv1: "pmm_inv (vm_pmm s1)" and man: "managed_addrs (vm_pmm s1) = managed_addrs (vm_pmm s)"
    and mem: "vm_mem s1 = vm_mem s"
    using r by (auto simp: released_def)
  have "released (table_pages (page_table p) s) s1 s'"
  proof (cases "page_table p = 0")
    case False
    then have "tables_of s1 (page_table p) 3 \<subseteq> managed_addrs (vm_pmm s1) - {0}"
      using own(2) man tables_of_cong [OF mem] by (simp add: table_pages_def)
    with free_table_level_released [OF inv1, of 0 "page_table p"] False p' tables_of_cong [OF mem] show ?thesis
      by (simp add: vmm_free_table_def table_pages_def)
  qed (use p' inv1 in \<open>simp add: table_pages_def released_refl\<close>)
  from released_trans [OF r this] show "released (owned_pages p \<union> table_pages (page_table p) s) s s'" .
  show "page_table p' = 0" using p' by simp
  have dis: "rg_flags (disowned q) AND PROCESS_USER_REGION_OWNED_PAGES = 0 \<or> rg_paddr (disowned q) = 0" for q
    by (simp add: disowned_def)
  have u': "rg_flags (user_regions p' ! j) AND PROCESS_USER_REGION_OWNED_PAGES = 0 \<or> rg_paddr (user_regions p' ! j) = 0"
    if "j < unat (user_region_count p')" for j
    using that u [of j] dis p' gf by simp
  show "owned_pages p' = {}"
  proof -
    have "region_pages r = {}" if "r \<in> set (regions p')" for r
    proof -
      from that obtain j where "j < unat (user_region_count p')" "r = user_regions p' ! j"
        by (auto simp: regions_def in_set_conv_nth)
      with u' [of j] show ?thesis by (auto simp: region_pages_def)
    qed
    then show ?thesis by (simp add: owned_pages_def)
  qed
  have "fold free_region_at xs (p', s') = (p', s')" if "set xs \<subseteq> {..<unat (user_region_count p')}" for xs
    using that by (induction xs) (use u' in \<open>auto simp: free_region_at_def Let_def\<close>)
  moreover have "set [0..<?n] \<subseteq> {..<unat (user_region_count p')}"
    using p'(1) gf by (simp add: lessThan_atLeast0)
  ultimately have "fold free_region_at [0..<?n] (p', s') = (p', s')" by blast
  then show "process_free_resources p' s' = (p', s')"
    using p'(1) gf m by (simp add: process_free_resources_def)
qed

section \<open>The table as a state machine\<close>

text \<open>The entries of the table are also written outside \<open>process.c\<close>, in \<open>kernel/panel_boot.c\<close>:
  \<open>app_spawn_vfs\<close> records the parent of a new process and keeps it off the ready list until
  its image, stack and arguments are in place, and then makes it ready; \<open>panel_boot_run\<close>
  makes the panel the running process.\<close>

definition spawn_prepare :: "nat option \<Rightarrow> nat \<Rightarrow> ptable \<Rightarrow> ptable" where
  "spawn_prepare parent i t =
     set_process i ((g_processes t i)\<lparr>parent_pid := (case parent of None \<Rightarrow> 0 | Some c \<Rightarrow> pid (g_processes t c)),
       state := PROCESS_BLOCKED\<rparr>) t"

definition spawn_publish :: "u64 \<Rightarrow> u32 \<Rightarrow> nat \<Rightarrow> ptable \<Rightarrow> ptable" where
  "spawn_publish argv_vaddr argc i t =
     (let p = g_processes t i;
          p1 = (if argv_vaddr \<noteq> 0
                then p\<lparr>psp := argv_vaddr, regs := (regs p)[0 := ucast argc, 1 := argv_vaddr]\<rparr> else p)
      in set_process i (p1\<lparr>state := PROCESS_READY\<rparr>) t)"

definition panel_start :: "nat \<Rightarrow> ptable \<Rightarrow> ptable" where
  "panel_start i t = process_set_current (Some i) (set_process i ((g_processes t i)\<lparr>state := PROCESS_RUNNING\<rparr>) t)"

text \<open>The steps: every function of \<open>process.c\<close> that writes the table, and these writes.
  \<open>process_set_current\<close> itself checks nothing; its two call sites in the kernel are
  \<open>process_dispatch_next\<close> and the start of the panel.\<close>

inductive pstep :: "ptable \<times> vm \<Rightarrow> ptable \<times> vm \<Rightarrow> bool" where
  alloc: "process_alloc n name t = (t', r) \<Longrightarrow> pstep (t, s) (t', s)"
| dispatch: "process_dispatch_next (g_current_process t) (Some fr) policy t = (t', fr', r) \<Longrightarrow>
    length (frame_x fr) = 31 \<Longrightarrow> pstep (t, s) (t', s)"
| exit: "g_current_process t = Some c \<Longrightarrow>
    process_mark_exited (\<lambda>_ w. w) (\<lambda>_ w. w) (Some c) code (t, ()) = (t', w') \<Longrightarrow> pstep (t, s) (t', s)"
| kill: "process_kill (\<lambda>_ w. w) (\<lambda>_ w. w) n code (t, ()) = ((t', w'), r) \<Longrightarrow> pstep (t, s) (t', s)"
| wait: "process_wait_zombie n has_out (t, s) = ((t', s'), c, r) \<Longrightarrow> pstep (t, s) (t', s')"
| reclaim: "process_reclaim_zombies (t, s) = (t', s') \<Longrightarrow> pstep (t, s) (t', s')"
| add_region: "i < 16 \<Longrightarrow> process_add_user_region (Some (g_processes t i)) start sz = (Some p, r) \<Longrightarrow>
    pstep (t, s) (set_process i p t, s)"
| alloc_region: "i < 16 \<Longrightarrow> process_alloc_user_region (Some (g_processes t i)) sz True = (Some p, a, r) \<Longrightarrow>
    pstep (t, s) (set_process i p t, s)"
| map_region: "i < 16 \<Longrightarrow>
    process_set_user_region_mapping (Some (g_processes t i)) start sz paddr flags = (Some p, r) \<Longrightarrow>
    pstep (t, s) (set_process i p t, s)"
| remove_region: "i < 16 \<Longrightarrow>
    process_remove_user_region_info (Some (g_processes t i)) start sz out = (Some p, out', r) \<Longrightarrow>
    pstep (t, s) (set_process i p t, s)"
| save: "i < 16 \<Longrightarrow> length rs = 31 \<Longrightarrow>
    pstep (t, s) (set_process i (process_save_context (Some rs) npc nps nsp (g_processes t i)) t, s)"
| release: "i < 16 \<Longrightarrow> process_release (Some i) (t, s) = (t', s') \<Longrightarrow> pstep (t, s) (t', s')"
| set_page_table: "i < 16 \<Longrightarrow> pstep (t, s) (set_process i (process_set_page_table pt (g_processes t i)) t, s)"
| set_entry: "i < 16 \<Longrightarrow> pstep (t, s) (set_process i (process_set_entry npc nsp nps (g_processes t i)) t, s)"
| set_args: "i < 16 \<Longrightarrow> pstep (t, s) (set_process i ((g_processes t i)\<lparr>regs := (regs (g_processes t i))[0 := 0, 1 := 0]\<rparr>) t, s)"
| prepare: "process_alloc n name t = (t1, Some i) \<Longrightarrow> pstep (t, s) (spawn_prepare (g_current_process t) i t1, s)"
| publish: "i < 16 \<Longrightarrow> state (g_processes t i) = PROCESS_BLOCKED \<Longrightarrow> pstep (t, s) (spawn_publish va argc i t, s)"
| start_panel: "i < 16 \<Longrightarrow> state (g_processes t i) = PROCESS_READY \<Longrightarrow> pstep (t, s) (panel_start i t, s)"

text \<open>Region bookkeeping and context saving leave the identity and the state of a process alone.\<close>

definition same_identity :: "process \<Rightarrow> process \<Rightarrow> bool" where
  "same_identity p p' \<longleftrightarrow> state p' = state p \<and> pid p' = pid p \<and> parent_pid p' = parent_pid p \<and>
     exit_code p' = exit_code p"

lemma same_identity_refl [simp]: "same_identity p p"
  by (simp add: same_identity_def)

lemma region_ops_identity:
  "process_add_user_region (Some p) start sz = (Some p', r) \<Longrightarrow> same_identity p p' \<and> regs p' = regs p \<and> name_storage p' = name_storage p"
  "process_alloc_user_region (Some p) sz h = (Some p', a, r) \<Longrightarrow> same_identity p p' \<and> regs p' = regs p \<and> name_storage p' = name_storage p"
  "process_set_user_region_mapping (Some p) start sz pa fl = (Some p', r) \<Longrightarrow> same_identity p p' \<and> regs p' = regs p \<and> name_storage p' = name_storage p"
  "process_remove_user_region_info (Some p) start sz out = (Some p', out', r) \<Longrightarrow> same_identity p p' \<and> regs p' = regs p \<and> name_storage p' = name_storage p"
  by (auto simp: process_add_user_region_def process_alloc_user_region_def process_set_user_region_mapping_def
      process_remove_user_region_info_def same_identity_def Let_def split: if_splits option.splits)

lemma region_ops_wf:
  "proc_wf p \<Longrightarrow> process_add_user_region (Some p) start sz = (Some p', r) \<Longrightarrow> proc_wf p'"
  "proc_wf p \<Longrightarrow> process_alloc_user_region (Some p) sz True = (Some p', a, r) \<Longrightarrow> proc_wf p'"
  "proc_wf p \<Longrightarrow> process_set_user_region_mapping (Some p) start sz pa fl = (Some p', r) \<Longrightarrow> proc_wf p'"
  "proc_wf p \<Longrightarrow> process_remove_user_region_info (Some p) start sz out = (Some p', out', r) \<Longrightarrow> proc_wf p'"
proof -
  assume wf: "proc_wf p"
  then have rw: "regions_wf p" by (simp add: proc_wf_def)
  show "proc_wf p'" if "process_add_user_region (Some p) start sz = (Some p', r)"
    using add_user_region_spec [OF rw, of sz start] region_ops_identity(1) [OF that] wf that
    by (auto simp: proc_wf_def split: if_splits)
  show "proc_wf p'" if "process_alloc_user_region (Some p) sz True = (Some p', a, r)"
    using alloc_user_region_spec [OF rw that] region_ops_identity(2) [OF that] wf by (auto simp: proc_wf_def)
  show "proc_wf p'" if "process_set_user_region_mapping (Some p) start sz pa fl = (Some p', r)"
    using set_user_region_mapping_spec [OF rw that] region_ops_identity(3) [OF that] wf by (auto simp: proc_wf_def)
  show "proc_wf p'" if "process_remove_user_region_info (Some p) start sz out = (Some p', out', r)"
    using remove_user_region_spec [OF rw that] region_ops_identity(4) [OF that] wf by (auto simp: proc_wf_def)
qed

lemma set_process_identity:
  assumes inv: "pt_inv t" and i: "i < 16" and p: "same_identity (g_processes t i) p" "proc_wf p"
  shows "pt_inv (set_process i p t)"
proof -
  let ?t = "set_process i p t"
  have id: "pid (g_processes ?t j) = pid (g_processes t j)" "live ?t j = live t j" for j
    using p by (simp_all add: set_process_def same_identity_def)
  show ?thesis
    by (rule pt_invI) (use pt_invD [OF inv] p i id in \<open>auto simp: set_process_def same_identity_def split: if_splits\<close>)
qed

text \<open>The steps a table entry may take.\<close>

definition entry_step :: "process \<Rightarrow> process \<Rightarrow> bool" where
  "entry_step p p' \<longleftrightarrow>
     state p = PROCESS_UNUSED \<and> state p' = PROCESS_READY \<or>
     state p = PROCESS_UNUSED \<and> state p' = PROCESS_BLOCKED \<or>
     state p = PROCESS_BLOCKED \<and> state p' = PROCESS_READY \<and> pid p' = pid p \<or>
     state p \<noteq> PROCESS_UNUSED \<and> state p' = PROCESS_UNUSED \<and> state p = PROCESS_ZOMBIE \<or>
     state p \<noteq> PROCESS_UNUSED \<and> state p \<noteq> PROCESS_ZOMBIE \<and> state p' = PROCESS_ZOMBIE \<and> pid p' = pid p \<or>
     state p = PROCESS_READY \<and> state p' = PROCESS_RUNNING \<and> pid p' = pid p \<or>
     state p = PROCESS_RUNNING \<and> state p' = PROCESS_READY \<and> pid p' = pid p \<or>
     same_identity p p'"

lemma dispatch_result: "process_dispatch_next c (Some fr) pol t = (t', fr', r) \<Longrightarrow> t' = t \<or> r = 1"
  by (auto simp: process_dispatch_next_def Let_def split_beta split: if_splits option.splits)

definition step_ok :: "ptable \<Rightarrow> ptable \<Rightarrow> bool" where
  "step_ok t t' \<longleftrightarrow> pt_inv t' \<and> (\<forall>i<16. entry_step (g_processes t i) (g_processes t' i))"

lemma entry_step_refl [simp]: "entry_step p p"
  by (simp add: entry_step_def)

lemma step_ok_refl: "pt_inv t \<Longrightarrow> step_ok t t"
  by (simp add: step_ok_def)

lemma step_ok_single:
  assumes "pt_inv t'" "\<And>j. j \<noteq> i \<Longrightarrow> g_processes t' j = g_processes t j" "entry_step (g_processes t i) (g_processes t' i)"
  shows "step_ok t t'"
  unfolding step_ok_def using assms by (metis entry_step_refl)

lemma step_ok_alloc:
  assumes "pt_inv t" "process_alloc n name t = (t', r)"
  shows "step_ok t t'"
proof (cases r)
  case None
  with process_alloc_spec [OF assms] assms(1) show ?thesis by (simp add: step_ok_refl)
next
  case (Some i)
  with process_alloc_spec [OF assms] show ?thesis
    by (intro step_ok_single [of _ i]) (auto simp: entry_step_def)
qed

lemma step_ok_dispatch:
  assumes inv: "pt_inv t" and d: "process_dispatch_next (g_current_process t) (Some fr) policy t = (t', fr', r)"
    and fr: "length (frame_x fr) = 31"
  shows "step_ok t t'"
proof (cases "t' = t")
  case True
  with inv show ?thesis by (simp add: step_ok_refl)
next
  case False
  with dispatch_result [OF d] d
  have d': "process_dispatch_next (g_current_process t) (Some fr) policy t = (t', fr', 1)" by simp
  show ?thesis
  proof (rule dispatch_table [OF inv pt_invD(5) [OF inv] fr d'])
    fix n
    assume n: "state (g_processes t n) = PROCESS_READY" "pt_inv t'"
      "g_processes t' n = (g_processes t n)\<lparr>state := PROCESS_RUNNING\<rparr>"
      "\<And>j. j \<noteq> n \<Longrightarrow> g_processes t' j = (if g_current_process t = Some j \<and> policy = PROCESS_DISPATCH_PREEMPT \<and>
        state (g_processes t j) = PROCESS_RUNNING then (g_processes t j)\<lparr>state := PROCESS_READY\<rparr> else g_processes t j)"
    have "entry_step (g_processes t j) (g_processes t' j)" for j
      by (cases "j = n") (simp_all add: n entry_step_def)
    with n(2) show ?thesis by (simp add: step_ok_def)
  qed
qed

lemma step_ok_exit:
  assumes inv: "pt_inv t" and i: "i < 16" "live t i"
    and m: "process_mark_exited ca dw (Some i) code (t, w) = (t', w')"
  shows "step_ok t t'"
proof (cases "state (g_processes t i) = PROCESS_ZOMBIE")
  case True
  with m have "t' = t" by (simp add: process_mark_exited_def Let_def)
  with inv show ?thesis by (simp add: step_ok_refl)
next
  case False
  note m' = mark_exited_spec [OF inv i m]
  show ?thesis
    by (rule step_ok_single [OF m'(1,4)]) (use False i m' in \<open>auto simp: entry_step_def\<close>)
qed

lemma step_ok_release:
  assumes inv: "pt_inv t" and i: "i < 16" "state (g_processes t i) = PROCESS_ZOMBIE"
    and r: "process_release (Some i) (t, s) = (t', s')"
  shows "step_ok t t'"
  using process_release_table [OF inv i(1), of s] r i(2)
  by (intro step_ok_single [of _ i]) (auto simp: entry_step_def)

text \<open>A change of state between live states keeps the table consistent.\<close>

lemma set_process_live:
  assumes inv: "pt_inv t" and i: "i < 16" "live t i" and p: "state p \<noteq> PROCESS_UNUSED" "pid p = pid (g_processes t i)" "proc_wf p"
  shows "pt_inv (set_process i p t)"
proof -
  let ?t = "set_process i p t"
  have id: "pid (g_processes ?t j) = pid (g_processes t j)" "live ?t j = live t j" for j
    using p i by (simp_all add: set_process_def)
  show ?thesis
    by (rule pt_invI) (use pt_invD [OF inv] p i id in \<open>auto simp: set_process_def split: if_splits\<close>)
qed

lemma proc_wf_fields:
  "proc_wf p \<Longrightarrow> proc_wf (p\<lparr>state := st\<rparr>)" "proc_wf p \<Longrightarrow> proc_wf (p\<lparr>parent_pid := pp, state := st\<rparr>)"
  "proc_wf p \<Longrightarrow> proc_wf (process_set_page_table pt p)" "proc_wf p \<Longrightarrow> proc_wf (process_set_entry npc nsp nps p)"
  "proc_wf p \<Longrightarrow> proc_wf (p\<lparr>regs := (regs p)[0 := a, Suc 0 := b]\<rparr>)" "proc_wf p \<Longrightarrow> proc_wf (p\<lparr>psp := sp, regs := (regs p)[0 := a, Suc 0 := b]\<rparr>)"
  "proc_wf p \<Longrightarrow> proc_wf (p\<lparr>psp := sp, regs := (regs p)[0 := a, Suc 0 := b], state := st\<rparr>)"
  by (auto simp: proc_wf_def regions_wf_def regions_def process_set_page_table_def process_set_entry_def)

lemma step_ok_prepare:
  assumes inv: "pt_inv t" and a: "process_alloc n name t = (t1, Some i)"
  shows "step_ok t (spawn_prepare par i t1)"
proof -
  note sp = process_alloc_spec [OF inv a]
  have i: "i < 16" "live t1 i" "\<not> live t i" "pt_inv t1" using sp by auto
  have "pt_inv (spawn_prepare par i t1)"
    unfolding spawn_prepare_def using i by (intro set_process_live proc_wf_fields pt_invD(1)) simp_all
  then show ?thesis
    by (rule step_ok_single [where i = i]) (use sp i in \<open>auto simp: spawn_prepare_def set_process_def entry_step_def\<close>)
qed

lemma step_ok_publish:
  assumes inv: "pt_inv t" and i: "i < 16" "state (g_processes t i) = PROCESS_BLOCKED"
  shows "step_ok t (spawn_publish va argc i t)"
proof -
  have "pt_inv (spawn_publish va argc i t)"
    unfolding spawn_publish_def Let_def using inv i
    by (intro set_process_live) (auto intro: proc_wf_fields pt_invD(1))
  then show ?thesis
    by (rule step_ok_single [where i = i]) (use i in \<open>auto simp: spawn_publish_def set_process_def entry_step_def Let_def\<close>)
qed

lemma step_ok_start_panel:
  assumes inv: "pt_inv t" and i: "i < 16" "state (g_processes t i) = PROCESS_READY"
  shows "step_ok t (panel_start i t)"
proof -
  let ?t = "set_process i ((g_processes t i)\<lparr>state := PROCESS_RUNNING\<rparr>) t"
  have "pt_inv ?t" using inv i by (intro set_process_live) (auto intro: proc_wf_fields pt_invD(1))
  moreover have "live ?t i" by (simp add: set_process_def)
  ultimately have "pt_inv (panel_start i t)" using i
    unfolding panel_start_def process_set_current_def pt_inv_def by auto
  then show ?thesis
    by (rule step_ok_single [where i = i])
       (use i in \<open>auto simp: panel_start_def process_set_current_def set_process_def entry_step_def\<close>)
qed

lemma step_ok_wait:
  assumes inv: "pt_inv t" and w: "process_wait_zombie n h (t, s) = ((t', s'), c, r)"
  shows "step_ok t t'"
proof (cases "r = OK")
  case True
  with w obtain i where i: "process_find n t = Some i" "state (g_processes t i) = PROCESS_ZOMBIE"
    "process_release (Some i) (t, s) = (t', s')"
    by (auto simp: process_wait_zombie_def split: option.splits if_splits)
  have "i < 16" using process_find_Some [OF i(1)] by simp
  from step_ok_release [OF inv this i(2,3)] show ?thesis .
next
  case False
  with w have "t' = t" by (auto simp: process_wait_zombie_def split: option.splits if_splits)
  with inv show ?thesis by (simp add: step_ok_refl)
qed

lemma step_ok_kill:
  assumes inv: "pt_inv t" and k: "process_kill ca dw n code (t, w) = ((t', w'), r)"
  shows "step_ok t t'"
proof (cases "r = OK")
  case True
  with k obtain i where i: "process_find n t = Some i" "process_mark_exited ca dw (Some i) code (t, w) = (t', w')"
    by (auto simp: process_kill_def split: option.splits if_splits)
  have "i < 16" "live t i" using process_find_Some [OF i(1)] by simp_all
  from step_ok_exit [OF inv this i(2)] show ?thesis .
next
  case False
  with k have "t' = t" by (auto simp: process_kill_def split: option.splits if_splits)
  with inv show ?thesis by (simp add: step_ok_refl)
qed

lemma step_ok_reclaim:
  assumes inv: "pt_inv t" and r: "process_reclaim_zombies (t, s) = (t', s')"
  shows "step_ok t t'"
proof -
  have xs: "set [0..<16] \<subseteq> {..<16::nat}" by auto
  have f: "fold reclaim_at [0..<16] (t, s) = (t', s')"
    using r by (simp only: process_reclaim_zombies_def PROCESS_MAX_PROCESSES_def)
  from fold_reclaim [OF inv xs, of s] have "pt_inv t'"
    and h: "\<And>j. if j \<in> set [0..<16] \<and> orphan t j then \<not> live t' j else g_processes t' j = g_processes t j"
    unfolding f by auto
  moreover have "entry_step (g_processes t i) (g_processes t' i)" for i
    using h [of i] by (cases "orphan t i") (auto simp: orphan_def entry_step_def split: if_splits)
  ultimately show ?thesis by (simp add: step_ok_def)
qed

lemma step_ok_update:
  assumes inv: "pt_inv t" and i: "i < 16" and p: "same_identity (g_processes t i) p" "proc_wf p"
  shows "step_ok t (set_process i p t)"
  by (rule step_ok_single [OF set_process_identity [OF assms]])
     (use p in \<open>auto simp: set_process_def entry_step_def\<close>)

lemma pstep_ok:
  assumes "pstep x y" "pt_inv (fst x)"
  shows "step_ok (fst x) (fst y) \<or> (\<exists>i<16. process_release (Some i) x = y)"
  using assms
proof cases
  case (save i rs t s npc nps nsp)
  let ?p = "process_save_context (Some rs) npc nps nsp (g_processes t i)"
  have "same_identity (g_processes t i) ?p" by (simp add: process_save_context_def same_identity_def)
  moreover have "proc_wf ?p"
    using pt_invD(1) [of t i] assms(2) save
    by (auto simp: process_save_context_def proc_wf_def regions_wf_def regions_def length_fold_update)
  ultimately show ?thesis using save assms(2) by (simp add: step_ok_update)
next
  case (exit t c code t' w' s)
  then have inv: "pt_inv t" using assms(2) by simp
  note c = pt_invD(5) [OF inv exit(3)]
  show ?thesis using step_ok_exit [OF inv _ _ exit(4)] c exit(1,2) by simp
next
  case (kill n code t t' w' r s)
  then have "pt_inv t" using assms(2) by simp
  from step_ok_kill [OF this kill(3)] show ?thesis using kill(1,2) by simp
next
  case (release i t s t' s')
  then show ?thesis by blast
next
  case (set_page_table i t s pt)
  have "same_identity (g_processes t i) (process_set_page_table pt (g_processes t i))"
    by (simp add: process_set_page_table_def same_identity_def)
  from step_ok_update [OF _ set_page_table(3) this] set_page_table(1,2) assms(2) show ?thesis
    by (simp add: proc_wf_fields pt_invD(1) set_page_table(3))
next
  case (set_entry i t s npc nsp nps)
  have "same_identity (g_processes t i) (process_set_entry npc nsp nps (g_processes t i))"
    by (simp add: process_set_entry_def same_identity_def)
  from step_ok_update [OF _ set_entry(3) this] set_entry(1,2) assms(2) show ?thesis
    by (simp add: proc_wf_fields pt_invD(1) set_entry(3))
next
  case (set_args i t s)
  have "same_identity (g_processes t i) ((g_processes t i)\<lparr>regs := (regs (g_processes t i))[0 := 0, 1 := 0]\<rparr>)"
    by (simp add: same_identity_def)
  from step_ok_update [OF _ set_args(3) this] set_args(1,2) assms(2) show ?thesis
    by (simp add: proc_wf_fields pt_invD(1) set_args(3))
next
  case (prepare n name t t1 i s)
  then show ?thesis using assms(2) by (simp add: step_ok_prepare)
next
  case (publish i t s va argc)
  then show ?thesis using assms(2) by (simp add: step_ok_publish)
next
  case (start_panel i t s)
  then show ?thesis using assms(2) by (simp add: step_ok_start_panel)
qed (use assms(2) in \<open>auto simp: step_ok_alloc step_ok_dispatch step_ok_wait
      step_ok_reclaim intro: step_ok_update dest: region_ops_identity region_ops_wf pt_invD(1)\<close>)

lemma pstep_inv:
  assumes "pstep x y" "pt_inv (fst x)"
  shows "pt_inv (fst y)"
  using pstep_ok [OF assms]
proof
  assume "\<exists>i<16. process_release (Some i) x = y"
  then obtain i where "i < 16" "process_release (Some i) (fst x, snd x) = y" by auto
  then show ?thesis using process_release_table [OF assms(2), of i "snd x"] by (auto split: prod.splits)
qed (simp add: step_ok_def)

lemma fold_set_process:
  "fold (\<lambda>i t. set_process i (f (g_processes t i)) t) [0..<n] t =
     t\<lparr>g_processes := (\<lambda>j. if j < n then f (g_processes t j) else g_processes t j)\<rparr>"
proof (induction n)
  case (Suc n)
  have "(\<lambda>j. if j < n then f (g_processes t j) else g_processes t j)(n := f (g_processes t n)) =
      (\<lambda>j. if j < Suc n then f (g_processes t j) else g_processes t j)"
    by (auto simp: less_Suc_eq)
  with Suc show ?case by (simp add: set_process_def)
qed simp

lemma process_table_init_inv:
  assumes "\<And>i. i < 16 \<Longrightarrow> length (user_regions (g_processes t i)) = 8 \<and> length (regs (g_processes t i)) = 31 \<and>
    length (name_storage (g_processes t i)) = 16"
  shows "pt_inv (process_table_init t)"
proof -
  let ?f = "\<lambda>p. (process_init 0 None p)\<lparr>state := PROCESS_UNUSED\<rparr>"
  have eq: "process_table_init t = t\<lparr>g_current_process := None, g_process_count := 0,
      g_processes := (\<lambda>j. if j < 16 then ?f (g_processes t j) else g_processes t j)\<rparr>"
    unfolding process_table_init_def PROCESS_MAX_PROCESSES_def fold_set_process [of ?f] by (simp cong: if_cong)
  have "{i. i < 16 \<and> live (process_table_init t) i} = {}" by (auto simp: eq)
  then show ?thesis
    by (intro pt_invI) (use assms in \<open>simp_all add: eq process_init_wf\<close>)
qed


definition blank_process :: process where
  "blank_process = \<lparr>pid = 7, parent_pid = 3, name_storage = replicate 16 CHR ''z'', regs = replicate 31 9, psp = 1,
     pc = 2, pstate = 3, page_table = 0, state = PROCESS_ZOMBIE, exit_code = 4, next_user_vaddr = 5,
     user_regions = replicate 8 \<lparr>rg_start = 0, rg_end = 0, rg_paddr = 0, rg_flags = 0\<rparr>, user_region_count = 0\<rparr>"

definition example_ptable :: ptable where
  "example_ptable = process_table_init
     \<lparr>g_processes = (\<lambda>_. blank_process), g_current_process = None, g_process_count = 5, cpu_ttbr0 = 0\<rparr>"

lemma example_ptable: "pt_inv example_ptable"
  unfolding example_ptable_def by (rule process_table_init_inv) (simp add: blank_process_def)

lemma example_region_wf: "regions_wf (process_init 1 (Some ''app'') blank_process)"
  using process_init_wf [of blank_process 1 "Some ''app''"] by (simp add: proc_wf_def blank_process_def)

lemma example_unused: "i < 16 \<Longrightarrow> \<not> live example_ptable i"
  using fold_set_process [of "\<lambda>p. (process_init 0 None p)\<lparr>state := PROCESS_UNUSED\<rparr>" 16]
  by (simp add: example_ptable_def process_table_init_def PROCESS_MAX_PROCESSES_def cong: if_cong)

text \<open>A table with a zombie and one with a running and a ready process.\<close>

lemma example_alloc:
  "\<exists>t i. process_alloc 5 (Some ''init'') example_ptable = (t, Some i) \<and> pt_inv t \<and> i < 16 \<and>
     state (g_processes t i) = PROCESS_READY \<and> pid (g_processes t i) = 5 \<and> parent_pid (g_processes t i) = 0 \<and>
     (\<forall>j<16. j \<noteq> i \<longrightarrow> \<not> live t j) \<and> g_current_process t = None"
proof -
  obtain t r where a: "process_alloc 5 (Some ''init'') example_ptable = (t, r)" by fastforce
  have none: "process_find 5 example_ptable = None"
    using process_find_iff(2) [OF example_ptable, of 5] example_unused by simp
  note sp = process_alloc_spec [OF example_ptable a]
  then obtain i where r: "r = Some i" using none example_unused [of 0] by (cases r) auto
  have "parent_pid (g_processes t i) = 0" "g_current_process example_ptable = None"
    using a r by (auto simp: process_alloc_def set_process_def split: if_splits option.splits)
       (simp add: example_ptable_def process_table_init_def fold_set_process
          [of "\<lambda>p. (process_init 0 None p)\<lparr>state := PROCESS_UNUSED\<rparr>"])
  then show ?thesis
    using a r sp example_unused by (intro exI [of _ t] exI [of _ i]) auto
qed

lemma example_zombie:
  "\<exists>t i. pt_inv t \<and> i < 16 \<and> state (g_processes t i) = PROCESS_ZOMBIE \<and> parent_pid (g_processes t i) = 0"
proof -
  obtain t i where t: "pt_inv t" "i < 16" "state (g_processes t i) = PROCESS_READY" "parent_pid (g_processes t i) = 0"
    using example_alloc by blast
  obtain t' w' where m: "process_mark_exited (\<lambda>_ w. w) (\<lambda>_ w. w) (Some i) 0 (t, 0::nat) = (t', w')" by fastforce
  have "parent_pid (g_processes t' i) = 0" using m t by (auto simp: process_mark_exited_def Let_def set_process_def)
  with mark_exited_spec [OF t(1,2) _ m] t(2,3) show ?thesis by auto
qed

lemma example_running:
  "\<exists>t c p. pt_inv t \<and> g_current_process t = Some c \<and> state (g_processes t c) = PROCESS_RUNNING \<and> p < 16 \<and>
     state (g_processes t p) = PROCESS_READY"
proof -
  obtain t i where t: "pt_inv t" "i < 16" "state (g_processes t i) = PROCESS_READY" "pid (g_processes t i) = 5"
    "\<forall>j<16. j \<noteq> i \<longrightarrow> \<not> live t j" "g_current_process t = None"
    using example_alloc by blast
  obtain t1 r where a: "process_alloc 6 (Some ''shell'') t = (t1, r)" by fastforce
  have none: "process_find 6 t = None" using process_find_iff(2) [OF t(1), of 6] t by auto
  have "\<exists>j<16. \<not> live t j" using t(5) by (cases "i = 0") (auto intro: exI [of _ 0] exI [of _ 1])
  with process_alloc_spec [OF t(1) a] none obtain k where k: "r = Some k" "k < 16" "\<not> live t k" "pt_inv t1"
    "state (g_processes t1 k) = PROCESS_READY" "\<forall>j. j \<noteq> k \<longrightarrow> g_processes t1 j = g_processes t j"
    by (cases r) auto
  then have ki: "k \<noteq> i" using t(3) by auto
  then have gi: "g_processes t1 i = g_processes t i" using k(6) not_sym by metis
  let ?fr = "frame_of blank_process"
  obtain n where n: "process_next_runnable None t1 = Some n"
    using k by (cases "process_next_runnable None t1")
       (auto simp: process_next_runnable_def PROCESS_MAX_PROCESSES_def find_None_iff)
  obtain t2 fr2 r2 where d: "process_dispatch_next None (Some ?fr) PROCESS_DISPATCH_EXIT t1 = (t2, fr2, r2)"
    by (metis prod_cases3)
  then have "r2 = 1" using n by (simp add: process_dispatch_next_def Let_def split_beta)
  show ?thesis
  proof (rule dispatch_table [OF k(4) _ _ d [unfolded \<open>r2 = 1\<close>]])
    fix m
    assume m: "m < 16" "pt_inv t2" "g_current_process t2 = Some m"
      "g_processes t2 m = (g_processes t1 m)\<lparr>state := PROCESS_RUNNING\<rparr>"
      "\<And>j. j \<noteq> m \<Longrightarrow> g_processes t2 j = (if None = Some j \<and> PROCESS_DISPATCH_EXIT = PROCESS_DISPATCH_PREEMPT \<and>
        state (g_processes t1 j) = PROCESS_RUNNING then (g_processes t1 j)\<lparr>state := PROCESS_READY\<rparr> else g_processes t1 j)"
    have "\<exists>p<16. state (g_processes t2 p) = PROCESS_READY"
      using m k ki gi t(2,3) by (cases "m = k") (auto intro: exI [of _ i] exI [of _ k])
    moreover have "state (g_processes t2 m) = PROCESS_RUNNING" using m(4) by simp
    ultimately show ?thesis using m(2,3) by blast
  qed (simp_all add: frame_of_def blank_process_def)
qed

section \<open>Properties\<close>

text \<open>
  C17: \<open>process_user_range_contains\<close>, the kernel's authority on user pointers, accepts
  exactly the empty range and the ranges that lie byte for byte inside one region of the
  process, without wrapping around the address space.
\<close>

theorem process_user_range_contains_correct:
  assumes "regions_wf p"
  shows "process_user_range_contains (Some p) start sz \<longleftrightarrow>
     sz = 0 \<or>
     unat start + unat sz < 2 ^ 64 \<and>
     (\<exists>r\<in>set (regions p). \<forall>a. unat start \<le> unat a \<and> unat a < unat start + unat sz \<longrightarrow>
        rg_start r \<le> a \<and> a < rg_end r)"
proof (cases "sz = 0")
  case False
  have "(\<exists>r\<in>set (regions p). unat (rg_start r) \<le> unat start \<and> unat start + unat sz \<le> unat (rg_end r)) \<longleftrightarrow>
     unat start + unat sz < 2 ^ 64 \<and>
     (\<exists>r\<in>set (regions p). \<forall>a. unat start \<le> unat a \<and> unat a < unat start + unat sz \<longrightarrow>
        rg_start r \<le> a \<and> a < rg_end r)" (is "?L \<longleftrightarrow> ?R")
  proof
    assume ?L
    then obtain r where "r \<in> set (regions p)" "unat (rg_start r) \<le> unat start"
      "unat start + unat sz \<le> unat (rg_end r)" by blast
    with unat_u64_less [of "rg_end r"] show ?R
      by (auto simp: word_le_nat_alt word_less_nat_alt intro!: bexI [of _ r])
  next
    assume ?R
    then obtain r where lim: "unat start + unat sz < 2 ^ 64" and r: "r \<in> set (regions p)"
      "\<And>a. unat start \<le> unat a \<Longrightarrow> unat a < unat start + unat sz \<Longrightarrow> rg_start r \<le> a \<and> a < rg_end r" by blast
    have pos: "0 < unat sz" using False by (simp add: unat_gt_0)
    define l :: u64 where "l = of_nat (unat start + unat sz - 1)"
    have l: "unat l = unat start + unat sz - 1" unfolding l_def using lim by (intro unat_of_nat_less) simp
    have "rg_start r \<le> start" using r(2) [of start] pos by simp
    moreover have "l < rg_end r" using r(2) [of l] l pos by simp
    ultimately show ?L
      using l pos r(1) by (intro bexI [of _ r]) (auto simp: word_le_nat_alt word_less_nat_alt)
  qed
  with False user_range_contains_iff [OF assms] show ?thesis by simp
qed (simp add: user_range_contains_iff [OF assms])

lemma example_region:
  "\<exists>p q. process_add_user_region (Some (process_init 1 (Some ''app'') blank_process)) 0x400000 0x2000 = (Some p, OK) \<and>
     regions_wf p \<and> regions p = [q] \<and> rg_start q = 0x400000 \<and> rg_end q = 0x402000"
  using add_user_region_spec [OF example_region_wf, of "0x2000" "0x400000"]
  by (auto simp: regions_empty split: prod.splits)

theorem process_user_range_contains_correct_witness:
  "\<exists>p. process_add_user_region (Some (process_init 1 (Some ''app'') blank_process)) 0x400000 0x2000 = (Some p, OK) \<and>
     process_user_range_contains (Some p) 0x400010 0x100 \<and> \<not> process_user_range_contains (Some p) 0x401ff0 0x20"
proof -
  obtain p q where p: "process_add_user_region (Some (process_init 1 (Some ''app'') blank_process)) 0x400000 0x2000 = (Some p, OK)"
    "regions_wf p" "regions p = [q]" "rg_start q = 0x400000" "rg_end q = 0x402000"
    using example_region by blast
  have "process_user_range_contains (Some p) 0x400010 0x100"
    unfolding process_user_range_contains_correct [OF p(2)] by (simp add: p word_le_nat_alt word_less_nat_alt)
  moreover have "\<not> process_user_range_contains (Some p) 0x401ff0 0x20"
  proof
    assume "process_user_range_contains (Some p) 0x401ff0 0x20"
    then have "\<forall>a. unat (0x401ff0::u64) \<le> unat a \<and> unat a < unat (0x401ff0::u64) + unat (0x20::u64) \<longrightarrow>
        rg_start q \<le> a \<and> a < rg_end q"
      unfolding process_user_range_contains_correct [OF p(2)] by (simp add: p)
    from this [rule_format, of "0x402000"] p show False by simp
  qed
  ultimately show ?thesis using p(1) by blast
qed

lemma set_mapping_split:
  assumes "regions_wf p"
  shows "case process_set_user_region_mapping (Some p) start sz paddr flags of (p', r) \<Rightarrow>
      (if sz \<noteq> 0 \<and> unat start + unat sz < 2 ^ 64 \<and> (\<exists>q\<in>set (regions p). rg_start q = start \<and> rg_end q = start + sz)
       then r = OK \<and> regions_wf (the p') \<and>
         (\<exists>xs q ys. regions p = xs @ q # ys \<and> rg_start q = start \<and> rg_end q = start + sz \<and>
            regions (the p') = xs @ q\<lparr>rg_paddr := paddr, rg_flags := flags\<rparr> # ys)
       else r = ERR \<and> p' = Some p)"
proof -
  obtain p' r where m: "process_set_user_region_mapping (Some p) start sz paddr flags = (p', r)" by fastforce
  from set_user_region_mapping_spec [OF assms m] show ?thesis
  proof
    assume ok: "r = OK \<and> sz \<noteq> 0 \<and> unat start + unat sz < 2 ^ 64 \<and> (\<exists>p1 i. p' = Some p1 \<and> regions_wf p1 \<and> i < length (regions p) \<and>
      rg_start (regions p ! i) = start \<and> rg_end (regions p ! i) = start + sz \<and>
      regions p1 = (regions p)[i := (regions p ! i)\<lparr>rg_paddr := paddr, rg_flags := flags\<rparr>])"
    then obtain p1 i where i: "p' = Some p1" "regions_wf p1" "i < length (regions p)" "rg_start (regions p ! i) = start"
      "rg_end (regions p ! i) = start + sz"
      "regions p1 = (regions p)[i := (regions p ! i)\<lparr>rg_paddr := paddr, rg_flags := flags\<rparr>]" by blast
    have "regions p = take i (regions p) @ regions p ! i # drop (Suc i) (regions p)" by (rule id_take_nth_drop [OF i(3)])
    moreover have "regions p1 = take i (regions p) @ (regions p ! i)\<lparr>rg_paddr := paddr, rg_flags := flags\<rparr> # drop (Suc i) (regions p)"
      unfolding i(6) by (rule upd_conv_take_nth_drop [OF i(3)])
    moreover have "\<exists>q\<in>set (regions p). rg_start q = start \<and> rg_end q = start + sz" using i(3-5) nth_mem by blast
    ultimately show ?thesis using i ok unfolding m by auto
  qed (use m in auto)
qed

text \<open>
  C18: the regions of a process stay non-empty and pairwise disjoint.  Adding, allocating,
  remapping and removing a region all keep this; an allocated region is page aligned, at
  least as large as asked for, below the mmap limit and disjoint from every other region;
  remapping succeeds exactly for the bounds of an existing region and changes the physical
  address and flags of that region alone; removal takes exactly the named region out; every
  refused call returns the process unchanged.
\<close>

theorem process_regions_invariant:
  assumes "regions_wf p"
  shows "(case process_add_user_region (Some p) start sz of (p', r) \<Rightarrow>
      (if length (regions p) < 8 \<and> sz \<noteq> 0 \<and> unat start + unat sz < 2 ^ 64 \<and>
          (\<forall>q\<in>set (regions p). start + sz \<le> rg_start q \<or> rg_end q \<le> start)
       then r = OK \<and> regions_wf (the p') \<and>
         (\<exists>q. regions (the p') = regions p @ [q] \<and> rg_start q = start \<and> rg_end q = start + sz)
       else r = ERR \<and> p' = Some p)) \<and>
    (case process_alloc_user_region (Some p) sz True of (p', a, r) \<Rightarrow>
      (if r = OK then regions_wf (the p') \<and> a AND 4095 = 0 \<and> next_user_vaddr p \<le> a \<and>
         (\<exists>q. regions (the p') = regions p @ [q] \<and> rg_start q = a \<and> unat a + unat sz \<le> unat (rg_end q) \<and>
            rg_end q \<le> PROCESS_USER_MMAP_LIMIT \<and> next_user_vaddr (the p') = rg_end q)
       else r = ERR \<and> p' = Some p)) \<and>
    (case process_set_user_region_mapping (Some p) start sz paddr flags of (p', r) \<Rightarrow>
      (if sz \<noteq> 0 \<and> unat start + unat sz < 2 ^ 64 \<and> (\<exists>q\<in>set (regions p). rg_start q = start \<and> rg_end q = start + sz)
       then r = OK \<and> regions_wf (the p') \<and>
         (\<exists>xs q ys. regions p = xs @ q # ys \<and> rg_start q = start \<and> rg_end q = start + sz \<and>
            regions (the p') = xs @ q\<lparr>rg_paddr := paddr, rg_flags := flags\<rparr> # ys)
       else r = ERR \<and> p' = Some p)) \<and>
    (case process_remove_user_region_info (Some p) start sz out of (p', out', r) \<Rightarrow>
      (if r = OK then regions_wf (the p') \<and>
         (\<exists>xs q ys. regions p = xs @ q # ys \<and> regions (the p') = xs @ ys \<and> rg_start q = start \<and> rg_end q = start + sz \<and>
            out' = map_option (\<lambda>o'. region_copy o' q) out)
       else r = ERR \<and> p' = Some p \<and> out' = out))"
proof (intro conjI)
  show "case process_add_user_region (Some p) start sz of (p', r) \<Rightarrow>
      (if length (regions p) < 8 \<and> sz \<noteq> 0 \<and> unat start + unat sz < 2 ^ 64 \<and>
          (\<forall>q\<in>set (regions p). start + sz \<le> rg_start q \<or> rg_end q \<le> start)
       then r = OK \<and> regions_wf (the p') \<and>
         (\<exists>q. regions (the p') = regions p @ [q] \<and> rg_start q = start \<and> rg_end q = start + sz)
       else r = ERR \<and> p' = Some p)"
    using add_user_region_spec [OF assms, of sz start] by (auto split: prod.splits if_splits)
  obtain p' a r where al: "process_alloc_user_region (Some p) sz True = (p', a, r)" by (metis prod_cases3)
  have "unat a + unat sz \<le> unat e" if "unat sz \<le> unat e - unat a" "r = OK" "sz \<noteq> 0" for e :: u64
    using that by (cases "unat a \<le> unat e") (auto simp: unat_eq_zero)
  moreover have "sz \<noteq> 0" if "r = OK" using al that by (auto simp: process_alloc_user_region_def)
  ultimately show "case process_alloc_user_region (Some p) sz True of (p', a, r) \<Rightarrow>
      (if r = OK then regions_wf (the p') \<and> a AND 4095 = 0 \<and> next_user_vaddr p \<le> a \<and>
         (\<exists>q. regions (the p') = regions p @ [q] \<and> rg_start q = a \<and> unat a + unat sz \<le> unat (rg_end q) \<and>
            rg_end q \<le> PROCESS_USER_MMAP_LIMIT \<and> next_user_vaddr (the p') = rg_end q)
       else r = ERR \<and> p' = Some p)"
    using alloc_user_region_spec [OF assms al] unfolding al by auto
  show "case process_set_user_region_mapping (Some p) start sz paddr flags of (p', r) \<Rightarrow>
      (if sz \<noteq> 0 \<and> unat start + unat sz < 2 ^ 64 \<and> (\<exists>q\<in>set (regions p). rg_start q = start \<and> rg_end q = start + sz)
       then r = OK \<and> regions_wf (the p') \<and>
         (\<exists>xs q ys. regions p = xs @ q # ys \<and> rg_start q = start \<and> rg_end q = start + sz \<and>
            regions (the p') = xs @ q\<lparr>rg_paddr := paddr, rg_flags := flags\<rparr> # ys)
       else r = ERR \<and> p' = Some p)"
    by (rule set_mapping_split [OF assms])
  obtain p' out' r where rm: "process_remove_user_region_info (Some p) start sz out = (p', out', r)" by (metis prod_cases3)
  have split: "i < length xs \<Longrightarrow> xs = take i xs @ xs ! i # drop (Suc i) xs" for i and xs :: "user_region list"
    by (simp add: id_take_nth_drop [symmetric])
  show "case process_remove_user_region_info (Some p) start sz out of (p', out', r) \<Rightarrow>
      (if r = OK then regions_wf (the p') \<and>
         (\<exists>xs q ys. regions p = xs @ q # ys \<and> regions (the p') = xs @ ys \<and> rg_start q = start \<and> rg_end q = start + sz \<and>
            out' = map_option (\<lambda>o'. region_copy o' q) out)
       else r = ERR \<and> p' = Some p \<and> out' = out)"
    using remove_user_region_spec [OF assms rm] split unfolding rm by auto blast
qed


theorem process_regions_invariant_witness:
  "\<exists>p. process_add_user_region (Some (process_init 1 (Some ''app'') blank_process)) 0x400000 0x2000 = (Some p, OK) \<and>
     snd (process_add_user_region (Some p) 0x401000 0x1000) = ERR \<and>
     snd (process_add_user_region (Some p) 0x402000 0x1000) = OK"
proof -
  obtain p q where p: "process_add_user_region (Some (process_init 1 (Some ''app'') blank_process)) 0x400000 0x2000 = (Some p, OK)"
    "regions_wf p" "regions p = [q]" "rg_start q = 0x400000" "rg_end q = 0x402000"
    using example_region by blast
  have "snd (process_add_user_region (Some p) 0x401000 0x1000) = ERR"
    using process_regions_invariant [OF p(2), THEN conjunct1, of "0x1000" "0x401000"]
    by (auto simp: p split: prod.splits if_splits)
  moreover have "snd (process_add_user_region (Some p) 0x402000 0x1000) = OK"
    using process_regions_invariant [OF p(2), THEN conjunct1, of "0x1000" "0x402000"]
    by (auto simp: p split: prod.splits if_splits)
  ultimately show ?thesis using p(1) by blast
qed

text \<open>
  C19: every process table the kernel can build is consistent.  Whatever sequence of steps is
  taken from \<open>process_table_init\<close> - allocating, preparing, publishing and starting processes
  as the spawn path does, setting entry points and page tables, dispatching, exiting,
  killing, waiting, reclaiming, releasing entries in any state, saving contexts and
  bookkeeping of regions - live entries have unique non-zero process ids, the process counter
  is the number of live entries, the current process is a live table entry, and every entry
  has well-formed regions.
\<close>

theorem process_table_reachable_inv:
  assumes "pstep\<^sup>*\<^sup>* (process_table_init t0, s0) (t, s)"
    and "\<And>i. i < 16 \<Longrightarrow> length (user_regions (g_processes t0 i)) = 8 \<and> length (regs (g_processes t0 i)) = 31 \<and>
      length (name_storage (g_processes t0 i)) = 16"
  shows "pt_inv t"
proof -
  have "pt_inv (fst y)" if "pstep\<^sup>*\<^sup>* x y" "pt_inv (fst x)" for x y
    using that by (induction rule: rtranclp_induct) (auto dest: pstep_inv)
  from this [OF assms(1)] process_table_init_inv [of t0] assms(2) show ?thesis by simp
qed

text \<open>A process is prepared, gets a page table, and is released again before it ever ran.\<close>

theorem process_table_reachable_inv_witness:
  "\<exists>t1 i. process_alloc 5 (Some ''init'') example_ptable = (t1, Some i) \<and>
     (let t2 = spawn_prepare (g_current_process example_ptable) i t1;
          t3 = set_process i (process_set_page_table 0x40001000 (g_processes t2 i)) t2
      in pt_inv t3 \<and> pt_inv (fst (process_release (Some i) (t3, fst example_vm))))"
proof -
  let ?t0 = "\<lparr>g_processes = (\<lambda>_. blank_process), g_current_process = None, g_process_count = 5, cpu_ttbr0 = 0\<rparr>"
  let ?s = "fst example_vm"
  obtain t1 i where a: "process_alloc 5 (Some ''init'') example_ptable = (t1, Some i)" "i < 16" using example_alloc by blast
  define t2 where "t2 = spawn_prepare (g_current_process example_ptable) i t1"
  define t3 where "t3 = set_process i (process_set_page_table 0x40001000 (g_processes t2 i)) t2"
  obtain t4 s4 where r: "process_release (Some i) (t3, ?s) = (t4, s4)" by fastforce
  have "pstep (process_table_init ?t0, ?s) (t2, ?s)"
    using pstep.prepare [OF a(1)] by (simp only: t2_def example_ptable_def)
  moreover have "pstep (t2, ?s) (t3, ?s)" unfolding t3_def by (rule pstep.set_page_table [OF a(2)])
  ultimately have s3: "pstep\<^sup>*\<^sup>* (process_table_init ?t0, ?s) (t3, ?s)" by auto
  then have s4: "pstep\<^sup>*\<^sup>* (process_table_init ?t0, ?s) (t4, s4)" using pstep.release [OF a(2) r] by auto
  have "pt_inv t3" "pt_inv t4"
    using process_table_reachable_inv [OF s3] process_table_reachable_inv [OF s4] by (simp_all add: blank_process_def)
  then have "pt_inv t3 \<and> pt_inv (fst (process_release (Some i) (t3, ?s)))" using r by simp
  then show ?thesis using a(1) unfolding t3_def t2_def Let_def by blast
qed

text \<open>
  C20: a zombie never runs again.  Whatever step the kernel takes, an entry that is a zombie
  stays the same zombie, with its exit code, or becomes unused; and an entry that is neither
  unused nor a zombie becomes unused only when \<open>process_release\<close> is called on that very entry.
  Waiting and reclaiming never remove a process that has not exited.
\<close>

theorem process_zombie_is_final:
  assumes "pstep (t, s) (t', s')" "pt_inv t" "i < 16"
  shows "(state (g_processes t i) = PROCESS_ZOMBIE \<longrightarrow>
       state (g_processes t' i) = PROCESS_UNUSED \<or>
       state (g_processes t' i) = PROCESS_ZOMBIE \<and> pid (g_processes t' i) = pid (g_processes t i) \<and>
       exit_code (g_processes t' i) = exit_code (g_processes t i)) \<and>
     (state (g_processes t i) \<noteq> PROCESS_UNUSED \<and> state (g_processes t i) \<noteq> PROCESS_ZOMBIE \<and>
      state (g_processes t' i) = PROCESS_UNUSED \<longrightarrow> process_release (Some i) (t, s) = (t', s'))"
proof -
  have "step_ok t t' \<or> (\<exists>j<16. process_release (Some j) (t, s) = (t', s'))"
    using pstep_ok [OF assms(1)] assms(2) by simp
  then show ?thesis
  proof
    assume "step_ok t t'"
    then show ?thesis using assms(3) by (auto simp: step_ok_def entry_step_def same_identity_def)
  next
    assume "\<exists>j<16. process_release (Some j) (t, s) = (t', s')"
    then obtain j where j: "j < 16" "process_release (Some j) (t, s) = (t', s')" by blast
    from process_release_table [OF assms(2) j(1), of s] j show ?thesis by (cases "i = j") auto
  qed
qed

theorem process_zombie_is_final_witness:
  "\<exists>t t' s s' i. pstep (t, s) (t', s') \<and> state (g_processes t i) = PROCESS_ZOMBIE \<and>
     (state (g_processes t' i) = PROCESS_UNUSED \<or> state (g_processes t' i) = PROCESS_ZOMBIE)"
proof -
  obtain t i where t: "pt_inv t" "i < 16" "state (g_processes t i) = PROCESS_ZOMBIE" using example_zombie by blast
  obtain t' s' where "process_reclaim_zombies (t, fst example_vm) = (t', s')" by fastforce
  then have "pstep (t, fst example_vm) (t', s')" by (rule pstep.reclaim)
  with process_zombie_is_final [OF this t(1,2)] t(3) show ?thesis by blast
qed

text \<open>
  C21: preemption is fair.  While a process runs, every ready process gets the processor
  within sixteen timer ticks, and the order is the cyclic order of the table.
\<close>

theorem process_preemption_fair:
  assumes "pt_inv t" "g_current_process t = Some c" "state (g_processes t c) = PROCESS_RUNNING"
    "p < 16" "state (g_processes t p) = PROCESS_READY" "length (frame_x fr) = 31"
  shows "\<exists>k\<le>16. g_current_process ((tick fr ^^ k) t) = Some p \<and>
     state (g_processes ((tick fr ^^ k) t) p) = PROCESS_RUNNING"
proof -
  have "c < 16" using pt_invD(5) [OF assms(1,2)] by simp
  then have "gap c p < 16" by (rule gap_unique(1) [OF _ assms(4)])
  then have "k \<le> 16" if "k \<le> gap c p + 1" for k using that by simp
  with tick_reaches [OF assms] show ?thesis by blast
qed

theorem process_preemption_fair_witness:
  "\<exists>t p k. state (g_processes t p) = PROCESS_READY \<and> k \<le> 16 \<and>
     state (g_processes ((tick (frame_of blank_process) ^^ k) t) p) = PROCESS_RUNNING"
proof -
  obtain t c p where t: "pt_inv t" "g_current_process t = Some c" "state (g_processes t c) = PROCESS_RUNNING" "p < 16"
    "state (g_processes t p) = PROCESS_READY" using example_running by blast
  have "length (frame_x (frame_of blank_process)) = 31" by (simp add: frame_of_def blank_process_def)
  from process_preemption_fair [OF t this] t(5) show ?thesis by blast
qed

text \<open>
  C22: \<open>process_reclaim_zombies\<close> releases exactly the zombies nobody can wait for, those
  without a parent process id or whose parent is gone or itself a zombie, and leaves every
  other entry untouched.
\<close>

theorem process_reclaim_zombies_exact:
  assumes "pt_inv t" "process_reclaim_zombies (t, s) = (t', s')"
  shows "pt_inv t' \<and>
    (\<forall>i<16. if orphan t i then state (g_processes t' i) = PROCESS_UNUSED
            else g_processes t' i = g_processes t i)"
proof -
  have xs: "set [0..<16] \<subseteq> {..<16::nat}" by auto
  have f: "fold reclaim_at [0..<16] (t, s) = (t', s')"
    using assms(2) by (simp only: process_reclaim_zombies_def PROCESS_MAX_PROCESSES_def)
  from fold_reclaim [OF assms(1) xs, of s] have inv: "pt_inv t'" and
    r: "\<And>j. if j < 16 \<and> orphan t j then \<not> live t' j else g_processes t' j = g_processes t j"
    unfolding f by auto
  have "if orphan t i then state (g_processes t' i) = PROCESS_UNUSED else g_processes t' i = g_processes t i"
    if "i < 16" for i using r [of i] that by (auto split: if_splits)
  with inv show ?thesis by blast
qed

theorem process_reclaim_zombies_exact_witness:
  "\<exists>t i. state (g_processes t i) = PROCESS_ZOMBIE \<and>
     state (g_processes (fst (process_reclaim_zombies (t, fst example_vm))) i) = PROCESS_UNUSED"
proof -
  obtain t i where t: "pt_inv t" "i < 16" "state (g_processes t i) = PROCESS_ZOMBIE" "parent_pid (g_processes t i) = 0"
    using example_zombie by blast
  obtain t' s' where r: "process_reclaim_zombies (t, fst example_vm) = (t', s')" by fastforce
  have "orphan t i" using t by (simp add: orphan_def)
  with process_reclaim_zombies_exact [OF t(1) r] t r show ?thesis by (intro exI [of _ t] exI [of _ i]) auto
qed

text \<open>
  C23: \<open>process_free_resources\<close> gives back exactly the pages the process owns, those of its
  owned regions and those of its page tables; afterwards the process owns nothing, and a
  second call does nothing.
\<close>

theorem process_free_resources_exact:
  assumes "proc_wf p" "pmm_inv (vm_pmm s)" "owned_pages p \<subseteq> managed_addrs (vm_pmm s) - {0}"
    "table_pages (page_table p) s \<subseteq> managed_addrs (vm_pmm s) - {0}"
  shows "case process_free_resources p s of (p', s') \<Rightarrow>
     pmm_inv (vm_pmm s') \<and>
     free_addrs (vm_pmm s') = free_addrs (vm_pmm s) \<union> owned_pages p \<union> table_pages (page_table p) s \<and>
     owned_pages p' = {} \<and> page_table p' = 0 \<and> process_free_resources p' s' = (p', s')"
proof -
  obtain p' s' where f: "process_free_resources p s = (p', s')" by fastforce
  note r = free_resources_released [OF assms f]
  from r(1) have "pmm_inv (vm_pmm s')"
    "free_addrs (vm_pmm s') = free_addrs (vm_pmm s) \<union> (owned_pages p \<union> table_pages (page_table p) s)"
    by (simp_all add: released_def)
  with r(2-4) f show ?thesis by (simp add: Un_assoc)
qed


definition example_owner :: process where
  "example_owner = (process_init 1 (Some ''app'') blank_process)\<lparr>user_region_count := 1,
     user_regions := \<lparr>rg_start = 0x400000, rg_end = 0x401000, rg_paddr = 0x40001000, rg_flags = 1\<rparr> #
       replicate 7 \<lparr>rg_start = 0, rg_end = 0, rg_paddr = 0, rg_flags = 0\<rparr>\<rparr>"

theorem process_free_resources_exact_witness:
  "0x40001000 \<in> free_addrs (vm_pmm (snd (process_free_resources example_owner
     \<lparr>vm_pmm = pmm_init 0x40000000 0x4000, vm_mem = (\<lambda>_. 0)\<rparr>)))"
proof -
  let ?s = "\<lparr>vm_pmm = pmm_init 0x40000000 0x4000, vm_mem = (\<lambda>_. 0)\<rparr>"
  have reg: "regions example_owner = [\<lparr>rg_start = 0x400000, rg_end = 0x401000, rg_paddr = 0x40001000, rg_flags = 1\<rparr>]"
    by (simp add: regions_def example_owner_def)
  have wf: "proc_wf example_owner"
    unfolding proc_wf_def regions_wf_def reg
    by (simp add: example_owner_def process_init_def blank_process_def length_fold_update)
  have own: "owned_pages example_owner = {0x40001000}"
    by (simp add: owned_pages_def reg region_pages_def PROCESS_USER_REGION_OWNED_PAGES_def lessThan_Suc)
  have man: "0x40001000 \<in> managed_addrs (vm_pmm ?s)"
    by (auto simp: managed_addrs_def page_addr_def pmm_init_base pmm_init_total PMM_MAX_PAGES_def PAGE_SIZE_def
        intro!: image_eqI [of _ _ 1])
  have inv: "pmm_inv (vm_pmm ?s)" using example_pmm_inv by simp
  have tab: "table_pages (page_table example_owner) ?s = {}" by (simp add: table_pages_def example_owner_def)
  show ?thesis
    using process_free_resources_exact [OF wf inv] man own tab by (auto split: prod.splits)
qed

end
