(* ===== verification/Kernel_Fs.thy ===== *)
theory Kernel_Fs
  imports Vfs_Fd Tmpfs Bytes Process_Life
begin

text \<open>
  The two filesystems mounted at boot: the embedded application images of
  \<open>kernel/boot_program.c\<close> and \<open>kernel/bootfs.c\<close>, and the nodes \<open>kernel/tmpfs.c\<close> registers
  for its files.  The image blobs are placed by the linker, so they are the parameter
  \<open>blobs\<close>: from the name of an application to the bytes between its start and end symbols.
\<close>

section \<open>Application images\<close>

definition USER_IMAGE_MAGIC :: u32 where "USER_IMAGE_MAGIC = 0x31494c4b"
definition USER_IMAGE_MAX_ENTRIES :: u16 where "USER_IMAGE_MAX_ENTRIES = 8"
definition USER_IMAGE_HEADER_SIZE :: nat where "USER_IMAGE_HEADER_SIZE = 80"

record user_flat_image_header =
  ih_magic :: u32
  ih_header_size :: u16
  ih_entry_count :: u16
  ih_image_size :: u64
  ih_entry_offsets :: "u64 list"

text \<open>Reading the header through a pointer to the first byte of the image.\<close>

definition header_of :: "u8 list \<Rightarrow> user_flat_image_header" where
  "header_of img =
     \<lparr>ih_magic = le32 img 0, ih_header_size = le16 img 4, ih_entry_count = le16 img 6, ih_image_size = le64 img 8,
      ih_entry_offsets = map (\<lambda>i. le64 img (16 + 8 * i)) [0..<8]\<rparr>"

definition boot_apps :: "string list" where
  "boot_apps = [''shell'', ''editor'', ''files'', ''monitor'', ''control'', ''clock'', ''panel'']"


definition boot_program_source_is_kli1 :: "u8 list \<Rightarrow> u64 option" where
  "boot_program_source_is_kli1 img =
     (if length img = 0 then None
      else let size = (of_nat (length img) :: u64)
           in if size < of_nat USER_IMAGE_HEADER_SIZE then None
              else let header = header_of img
                   in if ih_magic header \<noteq> USER_IMAGE_MAGIC \<or> unat (ih_header_size header) \<noteq> USER_IMAGE_HEADER_SIZE \<or>
                         ih_image_size header > size \<or> ih_entry_count header = 0 \<or>
                         ih_entry_count header > USER_IMAGE_MAX_ENTRIES then None
                      else if list_ex (\<lambda>i. ih_entry_offsets header ! i < ucast (ih_header_size header) \<or>
                                ih_entry_offsets header ! i \<ge> ih_image_size header) [0..<unat (ih_entry_count header)]
                           then None
                      else Some size)"

record boot_program =
  bp_name :: string
  bp_image :: "u8 list"
  bp_size :: u64

definition boot_program_find :: "(string \<Rightarrow> u8 list) \<Rightarrow> cstr \<Rightarrow> boot_program option" where
  "boot_program_find blobs name =
     (if name = None \<or> cchar (the name) = NUL then None
      else case find (\<lambda>i. kstreq (Some (boot_apps ! i)) name \<and> boot_program_source_is_kli1 (blobs (boot_apps ! i)) \<noteq> None)
                  [0..<length boot_apps] of
             None \<Rightarrow> None
           | Some i \<Rightarrow> Some \<lparr>bp_name = boot_apps ! i, bp_image = blobs (boot_apps ! i),
                             bp_size = the (boot_program_source_is_kli1 (blobs (boot_apps ! i)))\<rparr>)"

section \<open>The boot filesystem\<close>

record bootfs_file =
  bf_name :: cstr
  bf_data :: "u8 list"
  bf_size :: u64

record kernel_fs =
  kf_tmpfs :: tmpfs
  g_tmpfs_vfs_nodes :: "vfs_node list"
  g_tmpfs_vfs_names :: "string list"
  g_tmpfs_vfs_node_count :: u32
  g_found_files :: "bootfs_file list"

type_synonym fs_world = "vfs \<times> kernel_fs"

text \<open>The function codes the nodes carry.\<close>

definition BOOTFS_VFS_READ :: fnptr where "BOOTFS_VFS_READ = 1"
definition TMPFS_VFS_READ :: fnptr where "TMPFS_VFS_READ = 2"
definition TMPFS_VFS_WRITE :: fnptr where "TMPFS_VFS_WRITE = 3"
definition TMPFS_VFS_STAT :: fnptr where "TMPFS_VFS_STAT = 4"

lemmas callback_codes = BOOTFS_VFS_READ_def TMPFS_VFS_READ_def TMPFS_VFS_WRITE_def TMPFS_VFS_STAT_def

definition file_read :: "bootfs_file \<Rightarrow> u64 \<Rightarrow> u8 list option \<Rightarrow> u64 \<Rightarrow> bool \<Rightarrow> u8 list option \<times> u64 \<times> int" where
  "file_read f offset buffer capacity has_out =
     (case buffer of None \<Rightarrow> (buffer, 0, ERR)
      | Some buf \<Rightarrow>
          if \<not> has_out \<or> offset > bf_size f then (buffer, 0, ERR)
          else let available = bf_size f - offset;
                   count = (if capacity > available then available else capacity)
               in (Some (kmemcpy buf (drop (unat offset) (bf_data f)) (unat (ucast count :: u32))), count, OK))"

definition bootfs_vfs_read ::
  "ctxptr option \<Rightarrow> u64 \<Rightarrow> u8 list option \<Rightarrow> u64 \<Rightarrow> bool \<Rightarrow> 'a kernel_fs_scheme \<Rightarrow> u8 list option \<times> u64 \<times> int" where
  "bootfs_vfs_read context offset buffer capacity has_out k =
     (case context of None \<Rightarrow> (buffer, 0, ERR)
      | Some i \<Rightarrow> file_read (g_found_files k ! i) offset buffer capacity has_out)"

definition bootfs_find :: "(string \<Rightarrow> u8 list) \<Rightarrow> cstr \<Rightarrow> 'a kernel_fs_scheme \<Rightarrow> 'a kernel_fs_scheme \<times> nat option" where
  "bootfs_find blobs name k =
     (case boot_program_find blobs name of
        None \<Rightarrow> (k, None)
      | Some program \<Rightarrow>
          (case find (\<lambda>i. kstreq (Some (bp_name program)) (Some (boot_apps ! i))) [0..<length boot_apps] of
             None \<Rightarrow> (k, None)
           | Some i \<Rightarrow> (k\<lparr>g_found_files := (g_found_files k)[i := \<lparr>bf_name = Some (bp_name program),
                            bf_data = bp_image program, bf_size = bp_size program\<rparr>]\<rparr>, Some i)))"

definition bootfs_read ::
  "(string \<Rightarrow> u8 list) \<Rightarrow> cstr \<Rightarrow> u64 \<Rightarrow> u8 list option \<Rightarrow> u64 \<Rightarrow> bool \<Rightarrow> 'a kernel_fs_scheme \<Rightarrow>
    'a kernel_fs_scheme \<times> u8 list option \<times> u64 \<times> int" where
  "bootfs_read blobs name offset buffer capacity has_out k =
     (case bootfs_find blobs name k of
        (k', None) \<Rightarrow> (k', buffer, 0, ERR)
      | (k', Some i) \<Rightarrow> (k', file_read (g_found_files k' ! i) offset buffer capacity has_out))"



section \<open>Temporary files as nodes\<close>

definition tmpfs_clear_vfs_slot :: "nat \<Rightarrow> 'a kernel_fs_scheme \<Rightarrow> 'a kernel_fs_scheme" where
  "tmpfs_clear_vfs_slot index k =
     (if index \<ge> TMPFS_MAX_FILES then k
      else k\<lparr>g_tmpfs_vfs_nodes := (g_tmpfs_vfs_nodes k)[index := (g_tmpfs_vfs_nodes k ! index)\<lparr>nd_path := None,
               nd_size := 0, nd_read := None, nd_write := None, nd_stat := None, nd_context := None\<rparr>],
             g_tmpfs_vfs_names := (g_tmpfs_vfs_names k)
               [index := fold (\<lambda>j d. d[j := NUL]) [0..<TMPFS_MAX_NAME] (g_tmpfs_vfs_names k ! index)]\<rparr>)"

definition tmpfs_context :: "ctxptr option \<Rightarrow> 'a kernel_fs_scheme \<Rightarrow> cstr" where
  "tmpfs_context context k = map_option (\<lambda>i. c_string (g_tmpfs_vfs_names k ! i)) context"

definition tmpfs_vfs_read ::
  "ctxptr option \<Rightarrow> u64 \<Rightarrow> u8 list option \<Rightarrow> u64 \<Rightarrow> bool \<Rightarrow> 'a kernel_fs_scheme \<Rightarrow> u8 list option \<times> u64 \<times> int" where
  "tmpfs_vfs_read context offset buffer capacity has_out k =
     tmpfs_read (tmpfs_context context k) offset buffer capacity has_out (kf_tmpfs k)"

definition tmpfs_vfs_write ::
  "ctxptr option \<Rightarrow> u64 \<Rightarrow> u8 list option \<Rightarrow> u64 \<Rightarrow> bool \<Rightarrow> 'a kernel_fs_scheme \<Rightarrow> 'a kernel_fs_scheme \<times> u64 \<times> int" where
  "tmpfs_vfs_write context offset buffer sz has_out k =
     (case tmpfs_write (tmpfs_context context k) offset buffer sz has_out (kf_tmpfs k) of
        (s, n, r) \<Rightarrow> (k\<lparr>kf_tmpfs := s\<rparr>, n, r))"

text \<open>The status and, when it is zero, the size stored in \<open>*stat\<close>; on failure \<open>*stat\<close> keeps \<open>old\<close>.\<close>

definition tmpfs_vfs_stat :: "ctxptr option \<Rightarrow> u64 option \<Rightarrow> 'a kernel_fs_scheme \<Rightarrow> u64 option \<times> int" where
  "tmpfs_vfs_stat context old k =
     (case old of None \<Rightarrow> (None, ERR)
      | Some old_size \<Rightarrow>
          (case tmpfs_stat (tmpfs_context context k) True (kf_tmpfs k) of
             (sz, r) \<Rightarrow> if r \<noteq> 0 then (Some old_size, ERR) else (Some sz, OK)))"

text \<open>The whole of \<open>tmpfs_reset\<close>, node slots included.\<close>

definition tmpfs_reset_all :: "'a kernel_fs_scheme \<Rightarrow> 'a kernel_fs_scheme" where
  "tmpfs_reset_all k =
     (fold (\<lambda>i k. tmpfs_clear_vfs_slot i (k\<lparr>kf_tmpfs := (kf_tmpfs k)\<lparr>g_tmpfs_files :=
          (g_tmpfs_files (kf_tmpfs k))[i := tmpfs_clear_file (g_tmpfs_files (kf_tmpfs k) ! i)]\<rparr>\<rparr>))
        [0..<TMPFS_MAX_FILES] k)\<lparr>g_tmpfs_vfs_node_count := 0\<rparr>"

definition tmpfs_mount_vfs :: "cstr \<Rightarrow> cstr \<Rightarrow> vfs \<times> 'a kernel_fs_scheme \<Rightarrow> (vfs \<times> 'a kernel_fs_scheme) \<times> int" where
  "tmpfs_mount_vfs path name w =
     (let v = fst w; k = snd w; index = unat (g_tmpfs_vfs_node_count k)
      in case (path, tmpfs_find_file name (kf_tmpfs k)) of
           (Some p, Some file) \<Rightarrow>
             if cchar p \<noteq> CHR ''/'' \<or> index \<ge> TMPFS_MAX_FILES then (w, ERR)
             else (case tmpfs_copy_name (g_tmpfs_vfs_names k ! index) name of (nm, status) \<Rightarrow>
               let k1 = k\<lparr>g_tmpfs_vfs_names := (g_tmpfs_vfs_names k)[index := nm]\<rparr>
               in if status \<noteq> 0 then ((v, k1), ERR)
                  else
                    let node = (g_tmpfs_vfs_nodes k1 ! index)\<lparr>nd_path := Some p,
                          nd_size := tf_size (g_tmpfs_files (kf_tmpfs k) ! file), nd_read := Some TMPFS_VFS_READ,
                          nd_write := Some TMPFS_VFS_WRITE, nd_stat := Some TMPFS_VFS_STAT, nd_context := Some index\<rparr>;
                        k2 = k1\<lparr>g_tmpfs_vfs_nodes := (g_tmpfs_vfs_nodes k1)[index := node]\<rparr>
                    in (case vfs_mount_static (Some [node]) 1 v of (v', r) \<Rightarrow>
                          if r \<noteq> 0 then ((v', tmpfs_clear_vfs_slot index k2), ERR)
                          else ((v', k2\<lparr>g_tmpfs_vfs_node_count := g_tmpfs_vfs_node_count k2 + 1\<rparr>), OK)))
         | _ \<Rightarrow> (w, ERR))"

section \<open>Calls through the stored function codes\<close>

text \<open>A code that names no function of the right kind is never stored in a node; calling it
  fails.\<close>

definition kernel_callbacks :: "'a kernel_fs_scheme vfs_callbacks" where
  "kernel_callbacks =
     \<lparr>cb_read = (\<lambda>f c off buf cap w.
         case (if f = BOOTFS_VFS_READ then bootfs_vfs_read c off (Some buf) cap True (snd w)
               else if f = TMPFS_VFS_READ then tmpfs_vfs_read c off (Some buf) cap True (snd w)
               else (Some buf, 0, ERR)) of (b, n, r) \<Rightarrow> (w, the b, n, r)),
      cb_write = (\<lambda>f c off buf n w.
         if f = TMPFS_VFS_WRITE then (case tmpfs_vfs_write c off (Some buf) n True (snd w) of (k, m, r) \<Rightarrow> ((fst w, k), m, r))
         else (w, 0, ERR)),
      cb_stat = (\<lambda>f c w.
         if f = TMPFS_VFS_STAT then (case tmpfs_vfs_stat c (Some 0) (snd w) of (sz, r) \<Rightarrow> (w, the sz, r)) else (w, 0, ERR)),
      cb_open = (\<lambda>f c p fl w. (w, ERR)),
      cb_read_path = (\<lambda>f c p off buf cap w. (w, buf, 0, ERR)),
      cb_list = (\<lambda>f c off buf cap w. (w, buf, 0, ERR)),
      cb_stat_path = (\<lambda>f c p w. (w, 0, ERR)),
      cb_list_path = (\<lambda>f c p off buf cap w. (w, buf, 0, ERR)),
      cb_metadata_path = (\<lambda>f c p md w. (w, md, ERR)),
      cb_readdir_path = (\<lambda>f c p start es cap w. (w, es, 0, ERR)),
      cb_fsinfo = (\<lambda>f c p fi w. (w, fi, ERR)),
      cb_unlink = (\<lambda>f c p w. (w, ERR)),
      cb_rename = (\<lambda>f c p q w. (w, ERR))\<rparr>"

interpretation kfs: vfs_provider "kernel_callbacks :: kernel_fs vfs_callbacks"
  by unfold_locales (auto simp: kernel_callbacks_def split: prod.splits)

section \<open>Sequences of descriptor calls\<close>

datatype fd_call =
    Open cstr u32
  | Read int "u8 list option" u64
  | Write int "u8 list option" u64
  | Seek int u64
  | Close int

text \<open>One call made by the process that runs in \<open>t\<close>.\<close>

definition fd_step :: "'w vfs_callbacks \<Rightarrow> ptable \<times> fd_call \<Rightarrow> vfs \<times> 'w \<Rightarrow> vfs \<times> 'w" where
  "fd_step cb tc w =
     (case snd tc of
        Open path flags \<Rightarrow> fst (vfs_open_flags cb (fst tc) path flags w)
      | Read fd buf cap \<Rightarrow> fst (vfs_read_fd cb (fst tc) fd buf cap True w)
      | Write fd buf n \<Rightarrow> fst (vfs_write_fd cb (fst tc) fd buf n True w)
      | Seek fd off \<Rightarrow> fst (vfs_seek cb (fst tc) fd off w)
      | Close fd \<Rightarrow> (fst (vfs_close (fst tc) fd (fst w)), snd w))"

definition call_by_other :: "u32 \<Rightarrow> ptable \<times> fd_call \<Rightarrow> bool" where
  "call_by_other q tc \<longleftrightarrow> me_alive (fst tc) \<and> vfs_owner_is_alive (fst tc) q \<and> vfs_current_owner_pid (fst tc) \<noteq> q \<and>
     (\<forall>path flags. snd tc = Open path flags \<longrightarrow> c_ok path)"

lemma live_alive: "vfs_owner_is_alive t q \<Longrightarrow> live_descriptors t v (q, fd) = descriptors v (q, fd)"
  by (simp add: live_descriptors_def)

context vfs_provider
begin

lemma fd_step_isolated:
  assumes inv: "vfs_inv (fst w)" and other: "call_by_other q tc"
  shows "vfs_inv (fst (fd_step cb tc w)) \<and> descriptors (fst (fd_step cb tc w)) (q, fd) = descriptors (fst w) (q, fd)"
proof -
  obtain t c where tc: "tc = (t, c)" by fastforce
  have t: "me_alive t" "vfs_owner_is_alive t q" "vfs_current_owner_pid t \<noteq> q" using other by (auto simp: call_by_other_def tc)
  note live = live_alive [OF t(2), symmetric]
  show ?thesis
  proof (cases c)
    case (Open path flags)
    then have "c_ok path" using other by (simp add: call_by_other_def tc)
    then show ?thesis using open_flags_spec [OF inv t(1) _ surjective_pairing, of path flags] t(3) Open
      by (auto simp: fd_step_def tc live split: if_splits)
  next
    case (Read d buf cap)
    obtain w' buf' n r where e: "vfs_read_fd cb t d buf cap True w = (w', buf', n, r)" by (metis prod_cases4)
    then show ?thesis using read_fd_spec [OF inv t(1) e] t(3) Read
      by (auto simp: fd_step_def tc live read_through_def split: if_splits)
  next
    case (Write d buf m)
    obtain w' n r where e: "vfs_write_fd cb t d buf m True w = (w', n, r)" by (metis prod_cases3)
    then show ?thesis using write_fd_spec [OF inv t(1) e] t(3) Write
      by (auto simp: fd_step_def tc live write_through_def split: if_splits)
  next
    case (Seek d off)
    then show ?thesis using seek_spec [OF inv t(1) surjective_pairing, of d off] t(3)
      by (auto simp: fd_step_def tc live split: if_splits)
  next
    case (Close d)
    then show ?thesis using vfs_close_spec [OF inv t(1) surjective_pairing, of d] t(3)
      by (auto simp: fd_step_def tc live)
  qed
qed

lemma fd_calls_isolated:
  assumes "vfs_inv (fst w)" "\<forall>tc\<in>set calls. call_by_other q tc"
  shows "vfs_inv (fst (fold (fd_step cb) calls w)) \<and>
    descriptors (fst (fold (fd_step cb) calls w)) (q, fd) = descriptors (fst w) (q, fd)"
  using assms
proof (induction calls arbitrary: w)
  case (Cons tc calls)
  then have "call_by_other q tc" by simp
  from fd_step_isolated [OF Cons.prems(1) this] Cons show ?case by simp
qed simp

end

subsection \<open>Properties\<close>

text \<open>
  C27: descriptors are private to their process.  Whatever sequence of open, read, write, seek
  and close calls other processes make, on any descriptor numbers, with any buffers and
  through the boot and temporary filesystems, every descriptor of a live process \<open>q\<close> still
  names the same node at the same offset with the same mode, and the invariant of the VFS
  tables holds at the end.  Closing all descriptors of a process removes exactly those.
\<close>

theorem vfs_descriptors_isolated:
  fixes w :: fs_world
  assumes "vfs_inv (fst w)" "\<forall>tc\<in>set calls. call_by_other q tc" "w' = fold (fd_step kernel_callbacks) calls w"
  shows "vfs_inv (fst w') \<and> (\<forall>fd. descriptors (fst w') (q, fd) = descriptors (fst w) (q, fd)) \<and>
    (case vfs_close_all_for_pid p (fst w') of (v, n) \<Rightarrow> vfs_inv v \<and> descriptors v = descriptors (fst w') |` {k. fst k \<noteq> p})"
  using kfs.fd_calls_isolated [OF assms(1,2)] close_all_spec [of "fst w'" p] unfolding assms(3) by (auto split: prod.splits)

definition example_kernel_fs :: kernel_fs where
  "example_kernel_fs =
     \<lparr>kf_tmpfs = example_tmpfs,
      g_tmpfs_vfs_nodes = replicate 8 \<lparr>nd_path = None, nd_size = 0, nd_read = None, nd_write = None, nd_stat = None, nd_context = None\<rparr>,
      g_tmpfs_vfs_names = replicate 8 (replicate 32 NUL), g_tmpfs_vfs_node_count = 0,
      g_found_files = replicate 7 \<lparr>bf_name = None, bf_data = [], bf_size = 0\<rparr>\<rparr>"

text \<open>The process table with one running process, number 5.\<close>

definition example_running_table :: ptable where
  "example_running_table =
     \<lparr>g_processes = (\<lambda>i. blank_process\<lparr>pid := if i = 0 then 5 else 0, state := if i = 0 then PROCESS_RUNNING else PROCESS_UNUSED\<rparr>),
      g_current_process = Some 0, g_process_count = 1, cpu_ttbr0 = 0\<rparr>"

lemma example_running_table: "vfs_current_owner_pid example_running_table = 5" "vfs_owner_is_alive example_running_table 5"
  "vfs_owner_is_alive example_running_table 0"
  by code_simp+

text \<open>A file of the boot kernel (owner 0) stays where it was while process 5 opens, reads and closes.\<close>

theorem vfs_descriptors_isolated_witness:
  "let w = (fst (vfs_mount_static (Some example_nodes) 2 empty_vfs), example_kernel_fs);
       calls = [(example_running_table, Open (Some ''/a'') 0), (example_running_table, Read 0 (Some [0, 0]) 2),
                (example_running_table, Close 0)]
   in \<forall>fd. descriptors (fst (fold (fd_step kernel_callbacks) calls w)) (0, fd) = descriptors (fst w) (0, fd)"
proof -
  let ?v = "fst (vfs_mount_static (Some example_nodes) 2 empty_vfs)"
  have ok: "\<forall>n\<in>set (take 2 example_nodes). c_ok (nd_path n)" by (simp add: example_nodes_def c_ok_def)
  have "vfs_inv ?v" using mount_static_spec [OF empty_vfs_inv _ ok surjective_pairing] empty_vfs_inv
    by (simp add: example_nodes_def split: if_splits)
  then have inv: "vfs_inv (fst (?v, example_kernel_fs))" by simp
  let ?calls = "[(example_running_table, Open (Some ''/a'') 0), (example_running_table, Read 0 (Some [0, 0]) 2),
    (example_running_table, Close 0)]"
  have "\<forall>tc\<in>set ?calls. call_by_other 0 tc" by (simp add: call_by_other_def example_running_table c_ok_def)
  from vfs_descriptors_isolated [OF inv this refl] show ?thesis unfolding Let_def fst_conv by blast
qed

section \<open>Calls that succeed\<close>

lemma fd_at_live:
  assumes inv: "vfs_inv v" and me: "me_alive t" and fd: "0 \<le> fd" "fd < 8"
    and l: "live_descriptors t v (my_fd t fd) = Some (i, off, fl)"
  obtains v1 h where "vfs_fd_at t fd v = (v1, Some h)" "vfs_inv v1" "live_descriptors t v1 = live_descriptors t v"
    "g_vfs_nodes v1 = g_vfs_nodes v" "h < 128" "file_for (g_open_files v1 ! h) (my_fd t fd)"
    "of_node (g_open_files v1 ! h) = Some i" "of_offset (g_open_files v1 ! h) = off" "of_flags (g_open_files v1 ! h) = fl"
proof -
  obtain v1 x where f: "vfs_fd_at t fd v = (v1, x)" by fastforce
  note fa = fd_at_spec [OF inv me f]
  obtain h where h: "x = Some h" using fa(4) fd l by (cases x) auto
  from fa(5) [OF h] l have "fd_content (g_open_files v1 ! h) = (i, off, fl)" "\<exists>n. of_node (g_open_files v1 ! h) = Some n"
    "h < 128" "file_for (g_open_files v1 ! h) (my_fd t fd)" by auto
  then show thesis using that [OF f [unfolded h] fa(1-3)] by (auto simp: fd_content_def)
qed

lemma advance_nodes [simp]: "g_vfs_nodes (advance h n v) = g_vfs_nodes v"
  by (simp add: advance_def)

context vfs_provider
begin

lemma write_fd_succeeds:
  assumes inv: "vfs_inv v" and me: "me_alive t" and fd: "0 \<le> fd" "fd < 8"
    and l: "live_descriptors t v (my_fd t fd) = Some (i, off, fl)" "fl \<noteq> VFS_O_RDONLY"
    and f: "nd_write (g_vfs_nodes v ! i) = Some f"
    and sz: "\<And>u. vfs_node_size cb (g_vfs_nodes v ! i) (u, k) = ((u, k), Some sz)" "off \<le> sz"
    and wr: "\<And>u. cb_write cb f (nd_context (g_vfs_nodes v ! i)) off b req (u, k) = ((u, k'), n, OK)"
    and valid: "vfs_write_result_valid off req n"
  obtains v' where "vfs_write_fd cb t fd (Some b) req True (v, k) = ((v', k'), n, OK)" "vfs_inv v'"
    "live_descriptors t v' = (live_descriptors t v)(my_fd t fd \<mapsto> (i, off + n, fl))" "g_vfs_nodes v' = g_vfs_nodes v"
proof -
  obtain v1 h where h: "vfs_fd_at t fd v = (v1, Some h)" "vfs_inv v1" "live_descriptors t v1 = live_descriptors t v"
    "g_vfs_nodes v1 = g_vfs_nodes v" "h < 128" "file_for (g_open_files v1 ! h) (my_fd t fd)"
    "of_node (g_open_files v1 ! h) = Some i" "of_offset (g_open_files v1 ! h) = off" "of_flags (g_open_files v1 ! h) = fl"
    by (rule fd_at_live [OF inv me fd l(1)])
  have c: "fd_content (g_open_files v1 ! h) = (i, off, fl)" using h by (simp add: fd_content_def)
  have "vfs_write_fd cb t fd (Some b) req True (v, k) = ((advance h n v1, k'), n, OK)"
    using h l(2) f sz valid by (simp add: vfs_write_fd_def Let_def wr checked_write_def not_less [symmetric])
  then show thesis using advance_spec [OF h(2,5,6) _ c, of t] me h(3,4) that by simp
qed

lemma read_fd_succeeds:
  assumes inv: "vfs_inv v" and me: "me_alive t" and fd: "0 \<le> fd" "fd < 8"
    and l: "live_descriptors t v (my_fd t fd) = Some (i, off, fl)" "fl \<noteq> VFS_O_WRONLY"
    and f: "nd_read (g_vfs_nodes v ! i) = Some f"
    and sz: "\<And>u. vfs_node_size cb (g_vfs_nodes v ! i) (u, k) = ((u, k), Some sz)" "off \<le> sz"
    and rd: "\<And>u. cb_read cb f (nd_context (g_vfs_nodes v ! i)) off b cap (u, k) = ((u, k'), b', n, OK)"
    and valid: "vfs_read_result_valid off sz cap n"
  obtains v' where "vfs_read_fd cb t fd (Some b) cap True (v, k) = ((v', k'), Some b', n, OK)" "vfs_inv v'"
    "live_descriptors t v' = (live_descriptors t v)(my_fd t fd \<mapsto> (i, off + n, fl))" "g_vfs_nodes v' = g_vfs_nodes v"
proof -
  obtain v1 h where h: "vfs_fd_at t fd v = (v1, Some h)" "vfs_inv v1" "live_descriptors t v1 = live_descriptors t v"
    "g_vfs_nodes v1 = g_vfs_nodes v" "h < 128" "file_for (g_open_files v1 ! h) (my_fd t fd)"
    "of_node (g_open_files v1 ! h) = Some i" "of_offset (g_open_files v1 ! h) = off" "of_flags (g_open_files v1 ! h) = fl"
    by (rule fd_at_live [OF inv me fd l(1)])
  have c: "fd_content (g_open_files v1 ! h) = (i, off, fl)" using h by (simp add: fd_content_def)
  have "vfs_read_fd cb t fd (Some b) cap True (v, k) = ((advance h n v1, k'), Some b', n, OK)"
    using h l(2) f sz valid by (simp add: vfs_read_fd_def Let_def rd checked_read_def not_less [symmetric])
  then show thesis using advance_spec [OF h(2,5,6) _ c, of t] me h(3,4) that by simp
qed

lemma seek_succeeds:
  assumes inv: "vfs_inv v" and me: "me_alive t" and fd: "0 \<le> fd" "fd < 8"
    and l: "live_descriptors t v (my_fd t fd) = Some (i, off, fl)"
    and sz: "\<And>u. vfs_node_size cb (g_vfs_nodes v ! i) (u, k) = ((u, k), Some sz)" "new \<le> sz"
  obtains v' where "vfs_seek cb t fd new (v, k) = ((v', k), OK)" "vfs_inv v'"
    "live_descriptors t v' = (live_descriptors t v)(my_fd t fd \<mapsto> (i, new, fl))" "g_vfs_nodes v' = g_vfs_nodes v"
proof -
  obtain v1 h where h: "vfs_fd_at t fd v = (v1, Some h)" "vfs_inv v1" "live_descriptors t v1 = live_descriptors t v"
    "g_vfs_nodes v1 = g_vfs_nodes v" "h < 128" "file_for (g_open_files v1 ! h) (my_fd t fd)"
    "of_node (g_open_files v1 ! h) = Some i" "of_offset (g_open_files v1 ! h) = off" "of_flags (g_open_files v1 ! h) = fl"
    by (rule fd_at_live [OF inv me fd l(1)])
  let ?f = "(g_open_files v1 ! h)\<lparr>of_offset := new\<rparr>"
  let ?v = "v1\<lparr>g_open_files := (g_open_files v1)[h := ?f]\<rparr>"
  have f: "of_used ?f \<noteq> 0" "fd_key ?f = my_fd t fd" "of_node ?f = of_node (g_open_files v1 ! h)" "fd_content ?f = (i, new, fl)"
    using h by (auto simp: file_for_def fd_content_def)
  have "vfs_seek cb t fd new (v, k) = ((?v, k), OK)"
    using h sz by (simp add: vfs_seek_def not_less [symmetric])
  then show thesis using live_update [OF h(2,5,6) _ f(1-3) refl, of t] me h(3,4) f(4) that [of ?v] by simp
qed

end

section \<open>Files of the temporary filesystem behind descriptors\<close>

text \<open>In \<open>w\<close>, descriptor \<open>fd\<close> of the process running in \<open>t\<close> is open for reading and writing at
  offset \<open>off\<close> on the node of the temporary file \<open>nm\<close>, whose bytes are \<open>c\<close>.\<close>

definition tmp_fd :: "ptable \<Rightarrow> int \<Rightarrow> string \<Rightarrow> u8 list \<Rightarrow> u64 \<Rightarrow> fs_world \<Rightarrow> bool" where
  "tmp_fd t fd nm c off w \<longleftrightarrow> vfs_inv (fst w) \<and> tmpfs_inv (kf_tmpfs (snd w)) \<and> 0 \<le> fd \<and> fd < 8 \<and>
     tmpfs_view (kf_tmpfs (snd w)) nm = Some c \<and>
     (\<exists>i x. live_descriptors t (fst w) (my_fd t fd) = Some (i, off, VFS_O_RDWR) \<and>
        nd_read (g_vfs_nodes (fst w) ! i) = Some TMPFS_VFS_READ \<and> nd_write (g_vfs_nodes (fst w) ! i) = Some TMPFS_VFS_WRITE \<and>
        nd_stat (g_vfs_nodes (fst w) ! i) = Some TMPFS_VFS_STAT \<and> nd_context (g_vfs_nodes (fst w) ! i) = Some x \<and>
        c_string (g_tmpfs_vfs_names (snd w) ! x) = nm)"

lemma view_length:
  assumes "tmpfs_inv s" "tmpfs_view s nm = Some c"
  shows "length c \<le> 256"
proof -
  obtain f where "f \<in> set (g_tmpfs_files s)" "c = file_content f"
    using assms(2) by (auto simp: tmpfs_view_def find_Some_iff split: option.splits dest: nth_mem)
  then show ?thesis using assms(1) by (auto simp: tmpfs_inv_def file_content_def file_wf_def word_le_nat_alt)
qed

lemma tmpfs_stat_view:
  assumes "tmpfs_inv s" "NUL \<notin> set nm" "tmpfs_view s nm = Some c"
  shows "tmpfs_stat (Some nm) True s = (of_nat (length c), OK)"
  using assms(1,2)
proof (cases rule: find_file_view)
  case (found i)
  then have "c = file_content (g_tmpfs_files s ! i)" using assms(3) by simp
  then have "length c = unat (tf_size (g_tmpfs_files s ! i))"
    using found(4) by (simp add: file_content_def file_wf_def word_le_nat_alt)
  then show ?thesis using found by (simp add: tmpfs_stat_def)
qed (use assms in simp)

lemma tmp_fd_size:
  assumes "tmpfs_inv (kf_tmpfs k)" "tmpfs_view (kf_tmpfs k) nm = Some c" "nd_stat node = Some TMPFS_VFS_STAT"
    "nd_context node = Some x" "c_string (g_tmpfs_vfs_names k ! x) = nm"
  shows "vfs_node_size kernel_callbacks node (u, k) = ((u, k), Some (of_nat (length c)))"
proof -
  have "NUL \<notin> set nm" using assms(5) by auto
  from tmpfs_stat_view [OF assms(1) this assms(2)] assms(3-5) show ?thesis
    by (simp add: vfs_node_size_def kernel_callbacks_def tmpfs_vfs_stat_def tmpfs_context_def)
qed


lemma tmp_fd_write:
  assumes fd: "tmp_fd t fd nm c off (v, k)" and me: "me_alive t" and off: "unat off \<le> length c" and d: "length d = unat n"
  obtains v' k' m where "vfs_write_fd kernel_callbacks t fd (Some d) n True (v, k) = ((v', k'), m, OK)"
    "unat m = min (unat n) (256 - unat off)" "tmp_fd t fd nm (write_at c (unat off) (take (unat m) d)) (off + m) (v', k')"
proof -
  have inv: "vfs_inv v" "tmpfs_inv (kf_tmpfs k)" "0 \<le> fd" "fd < 8" "tmpfs_view (kf_tmpfs k) nm = Some c"
    using fd by (auto simp: tmp_fd_def)
  obtain i x where l: "live_descriptors t v (my_fd t fd) = Some (i, off, VFS_O_RDWR)"
    and node: "nd_read (g_vfs_nodes v ! i) = Some TMPFS_VFS_READ" "nd_write (g_vfs_nodes v ! i) = Some TMPFS_VFS_WRITE"
      "nd_stat (g_vfs_nodes v ! i) = Some TMPFS_VFS_STAT" "nd_context (g_vfs_nodes v ! i) = Some x"
    and x: "c_string (g_tmpfs_vfs_names k ! x) = nm"
    using fd by (auto simp: tmp_fd_def)
  have nul: "NUL \<notin> set nm" using x by auto
  have le: "length c \<le> 256" by (rule view_length [OF inv(2,5)])
  obtain s m r where w: "tmpfs_write (Some nm) off (Some d) n True (kf_tmpfs k) = (s, m, r)" by (metis prod_cases3)
  note ws = tmpfs_write_spec [OF inv(2) nul d, of off, unfolded w inv(5)]
  have s: "tmpfs_inv s" "r = OK" "unat m = min (unat n) (256 - unat off)"
    "tmpfs_view s nm = Some (write_at c (unat off) (take (unat m) d))"
    using ws off le by (auto split: if_splits)
  have valid: "vfs_write_result_valid off n m"
  proof -
    have "unat off + unat m < 2 ^ 64" using s(3) off le by simp
    then have "\<not> off > - 1 - m" by (simp add: word_less_nat_alt unat_max_minus)
    then show ?thesis using s(3) by (simp add: vfs_write_result_valid_def word_less_nat_alt)
  qed
  have sz: "off \<le> of_nat (length c)" using off le by (simp add: word_le_nat_alt unat_of_nat)
  obtain v' where v': "vfs_write_fd kernel_callbacks t fd (Some d) n True (v, k) = ((v', k\<lparr>kf_tmpfs := s\<rparr>), m, OK)" "vfs_inv v'"
    "live_descriptors t v' = (live_descriptors t v)(my_fd t fd \<mapsto> (i, off + m, VFS_O_RDWR))" "g_vfs_nodes v' = g_vfs_nodes v"
  proof (rule kfs.write_fd_succeeds [OF inv(1) me inv(3,4) l _ node(2) tmp_fd_size [OF inv(2,5) node(3,4) x] sz _ valid])
    show "VFS_O_RDWR \<noteq> VFS_O_RDONLY" by (simp add: VFS_O_RDWR_def VFS_O_RDONLY_def)
    show "cb_write kernel_callbacks TMPFS_VFS_WRITE (nd_context (g_vfs_nodes v ! i)) off d n (u, k) = ((u, k\<lparr>kf_tmpfs := s\<rparr>), m, OK)" for u
      using w s(2) x node(4) by (simp add: kernel_callbacks_def tmpfs_vfs_write_def tmpfs_context_def)
  qed
  show thesis
    by (rule that [OF v'(1) s(3)]) (use v'(2-4) s inv node x in \<open>simp add: tmp_fd_def\<close>)
qed

lemma tmp_fd_seek:
  assumes fd: "tmp_fd t fd nm c off (v, k)" and me: "me_alive t" and new: "unat new \<le> length c"
  obtains v' where "vfs_seek kernel_callbacks t fd new (v, k) = ((v', k), OK)" "tmp_fd t fd nm c new (v', k)"
proof -
  have inv: "vfs_inv v" "tmpfs_inv (kf_tmpfs k)" "0 \<le> fd" "fd < 8" "tmpfs_view (kf_tmpfs k) nm = Some c"
    using fd by (auto simp: tmp_fd_def)
  obtain i x where l: "live_descriptors t v (my_fd t fd) = Some (i, off, VFS_O_RDWR)"
    and node: "nd_read (g_vfs_nodes v ! i) = Some TMPFS_VFS_READ" "nd_write (g_vfs_nodes v ! i) = Some TMPFS_VFS_WRITE"
      "nd_stat (g_vfs_nodes v ! i) = Some TMPFS_VFS_STAT" "nd_context (g_vfs_nodes v ! i) = Some x"
    and x: "c_string (g_tmpfs_vfs_names k ! x) = nm"
    using fd by (auto simp: tmp_fd_def)
  have sz: "new \<le> of_nat (length c)" using new view_length [OF inv(2,5)] by (simp add: word_le_nat_alt unat_of_nat)
  show thesis
    by (rule kfs.seek_succeeds [OF inv(1) me inv(3,4) l tmp_fd_size [OF inv(2,5) node(3,4) x] sz])
       (rule that, use inv node x in \<open>auto simp: tmp_fd_def\<close>)
qed

lemma tmp_fd_read:
  assumes fd: "tmp_fd t fd nm c off (v, k)" and me: "me_alive t" and off: "unat off \<le> length c" and b: "length b = unat cap"
  defines "m \<equiv> min (unat cap) (length c - unat off)"
  obtains v' where "vfs_read_fd kernel_callbacks t fd (Some b) cap True (v, k) =
      ((v', k), Some (take m (drop (unat off) c) @ drop m b), of_nat m, OK)"
    "tmp_fd t fd nm c (off + of_nat m) (v', k)"
proof -
  have inv: "vfs_inv v" "tmpfs_inv (kf_tmpfs k)" "0 \<le> fd" "fd < 8" "tmpfs_view (kf_tmpfs k) nm = Some c"
    using fd by (auto simp: tmp_fd_def)
  obtain i x where l: "live_descriptors t v (my_fd t fd) = Some (i, off, VFS_O_RDWR)"
    and node: "nd_read (g_vfs_nodes v ! i) = Some TMPFS_VFS_READ" "nd_write (g_vfs_nodes v ! i) = Some TMPFS_VFS_WRITE"
      "nd_stat (g_vfs_nodes v ! i) = Some TMPFS_VFS_STAT" "nd_context (g_vfs_nodes v ! i) = Some x"
    and x: "c_string (g_tmpfs_vfs_names k ! x) = nm"
    using fd by (auto simp: tmp_fd_def)
  have nul: "NUL \<notin> set nm" using x by auto
  have le: "length c \<le> 256" by (rule view_length [OF inv(2,5)])
  have rd: "tmpfs_read (Some nm) off (Some b) cap True (kf_tmpfs k) = (Some (take m (drop (unat off) c) @ drop m b), of_nat m, OK)"
    using tmpfs_read_spec [OF inv(2) nul b, of off] off inv(5) by (simp add: m_def Let_def)
  have sz: "off \<le> of_nat (length c)" using off le by (simp add: word_le_nat_alt unat_of_nat)
  have um: "unat (of_nat m :: u64) = m" using le by (simp add: m_def unat_of_nat)
  have valid: "vfs_read_result_valid off (of_nat (length c)) cap (of_nat m)"
    using sz um le by (simp add: vfs_read_result_valid_def not_less word_le_nat_alt unat_minus_no_underflow)
      (simp add: m_def unat_of_nat)
  show thesis
  proof (rule kfs.read_fd_succeeds [OF inv(1) me inv(3,4) l _ node(1) tmp_fd_size [OF inv(2,5) node(3,4) x] sz _ valid])
    show "VFS_O_RDWR \<noteq> VFS_O_WRONLY" by (simp add: VFS_O_RDWR_def VFS_O_WRONLY_def)
    show "cb_read kernel_callbacks TMPFS_VFS_READ (nd_context (g_vfs_nodes v ! i)) off b cap (u, k) =
        ((u, k), take m (drop (unat off) c) @ drop m b, of_nat m, OK)" for u
      using rd x node(4) by (simp add: kernel_callbacks_def tmpfs_vfs_read_def tmpfs_context_def callback_codes)
  qed (rule that, use inv node x in \<open>auto simp: tmp_fd_def\<close>)
qed

lemma copy_name_ok:
  assumes "tmpfs_copy_name dest (Some nm) = (x, OK)" "length dest = 32" "NUL \<notin> set nm"
  shows "c_string x = nm"
  using assms copy_name_loop_eq [of dest nm 0] c_string_append_NUL [OF assms(3)]
  by (auto simp: tmpfs_copy_name_def split: if_splits)

text \<open>Opening a file never changes the nodes while only the boot and temporary filesystems
  are there: neither registers nodes when a path is opened.\<close>

lemma kernel_open_keeps:
  fixes w :: fs_world
  assumes "vfs_open_flags kernel_callbacks t path flags w = (w', r)"
  shows "g_vfs_nodes (fst w') = g_vfs_nodes (fst w)" "snd w' = snd w"
proof -
  have m: "fst (materialise (kernel_callbacks :: kernel_fs vfs_callbacks) q fl w) = w" for q fl
    by (auto simp: materialise_def kernel_callbacks_def split: option.splits)
  have "g_vfs_nodes (fst w') = g_vfs_nodes (fst w) \<and> snd w' = snd w"
    using assms by (auto simp: vfs_open_flags_def Let_def split: if_splits option.splits prod.splits dest: m [symmetric, THEN trans])
      (metis m fst_conv snd_conv)+
  then show "g_vfs_nodes (fst w') = g_vfs_nodes (fst w)" "snd w' = snd w" by simp_all
qed

definition kernel_fs_inv :: "fs_world \<Rightarrow> bool" where
  "kernel_fs_inv w \<longleftrightarrow> vfs_inv (fst w) \<and> tmpfs_inv (kf_tmpfs (snd w)) \<and> length (g_tmpfs_vfs_names (snd w)) = 8 \<and>
     length (g_tmpfs_vfs_nodes (snd w)) = 8 \<and> (\<forall>x\<in>set (g_tmpfs_vfs_names (snd w)). length x = 32)"

lemma tmpfs_mount_node:
  assumes inv: "kernel_fs_inv w" and p: "NUL \<notin> set p" and nm: "NUL \<notin> set nm"
    and m: "tmpfs_mount_vfs (Some p) (Some nm) w = (w', OK)"
  obtains q c node x where "normalized (Some p) = Some q" "tmpfs_view (kf_tmpfs (snd w)) nm = Some c"
    "vfs_inv (fst w')" "kf_tmpfs (snd w') = kf_tmpfs (snd w)"
    "registered (fst w') q = Some node" "nd_read node = Some TMPFS_VFS_READ" "nd_write node = Some TMPFS_VFS_WRITE"
    "nd_stat node = Some TMPFS_VFS_STAT" "nd_context node = Some x" "c_string (g_tmpfs_vfs_names (snd w') ! x) = nm"
proof -
  obtain v k where w: "w = (v, k)" by fastforce
  have k: "vfs_inv v" "tmpfs_inv (kf_tmpfs k)" "length (g_tmpfs_vfs_names k) = 8" "length (g_tmpfs_vfs_nodes k) = 8"
    "\<forall>x\<in>set (g_tmpfs_vfs_names k). length x = 32" using inv by (simp_all add: kernel_fs_inv_def w)
  define index where "index = unat (g_tmpfs_vfs_node_count k)"
  obtain i where f: "tmpfs_find_file (Some nm) (kf_tmpfs k) = Some i"
    using m by (cases "tmpfs_find_file (Some nm) (kf_tmpfs k)") (auto simp: tmpfs_mount_vfs_def w Let_def)
  have idx: "index < 8" "cchar p = CHR ''/''"
    using m f by (auto simp: tmpfs_mount_vfs_def w Let_def index_def TMPFS_MAX_FILES_def split: if_splits)
  obtain x st where cp: "tmpfs_copy_name (g_tmpfs_vfs_names k ! index) (Some nm) = (x, st)" by fastforce
  define node where "node = (g_tmpfs_vfs_nodes k ! index)\<lparr>nd_path := Some p,
      nd_size := tf_size (g_tmpfs_files (kf_tmpfs k) ! i), nd_read := Some TMPFS_VFS_READ,
      nd_write := Some TMPFS_VFS_WRITE, nd_stat := Some TMPFS_VFS_STAT, nd_context := Some index\<rparr>"
  obtain v' r where mt: "vfs_mount_static (Some [node]) 1 v = (v', r)" by fastforce
  have st: "st = OK" "r = OK" and w': "fst w' = v'" "kf_tmpfs (snd w') = kf_tmpfs k"
      "g_tmpfs_vfs_names (snd w') = (g_tmpfs_vfs_names k)[index := x]"
    using m f idx cp mt
    by (auto simp: tmpfs_mount_vfs_def w Let_def index_def [symmetric] node_def [symmetric] TMPFS_MAX_FILES_def
        split: if_splits)
  have "c_ok (nd_path node)" using p by (simp add: node_def c_ok_def)
  then have ms: "vfs_inv v'" "registered v' = registered v ++ map_of [place node]" "normalized (Some p) \<noteq> None"
    using mount_static_spec [OF k(1) _ _ mt] st(2) by (simp_all add: node_def)
  then obtain q where q: "normalized (Some p) = Some q" by blast
  have "c_string x = nm" using copy_name_ok [OF cp [unfolded st(1)] _ nm] k(3,5) idx(1) by simp
  moreover obtain c where "tmpfs_view (kf_tmpfs k) nm = Some c"
    using k(2) nm f by (cases rule: find_file_view) auto
  moreover have "registered v' q = Some (node\<lparr>nd_path := Some q\<rparr>)"
    using ms(2) q by (simp add: place_def node_def)
  ultimately show thesis using that [of q c "node\<lparr>nd_path := Some q\<rparr>" index] q ms(1) w' idx k(3) w by (simp add: node_def)
qed

lemma tmp_fd_open:
  assumes inv: "kernel_fs_inv w" and p: "NUL \<notin> set p" and nm: "NUL \<notin> set nm" and me: "me_alive t"
    and m: "tmpfs_mount_vfs (Some p) (Some nm) w = (w1, OK)"
    and o: "vfs_open_flags kernel_callbacks t (Some p) VFS_O_RDWR w1 = (w2, fd)" "0 \<le> fd"
  obtains c where "tmpfs_view (kf_tmpfs (snd w)) nm = Some c" "tmp_fd t fd nm c 0 w2"
proof -
  obtain q c node x where q: "normalized (Some p) = Some q" "tmpfs_view (kf_tmpfs (snd w)) nm = Some c"
    "vfs_inv (fst w1)" "kf_tmpfs (snd w1) = kf_tmpfs (snd w)"
    and node: "registered (fst w1) q = Some node" "nd_read node = Some TMPFS_VFS_READ" "nd_write node = Some TMPFS_VFS_WRITE"
    "nd_stat node = Some TMPFS_VFS_STAT" "nd_context node = Some x" "c_string (g_tmpfs_vfs_names (snd w1) ! x) = nm"
    by (rule tmpfs_mount_node [OF inv p nm m])
  have ok: "c_ok (Some p)" using p by (simp add: c_ok_def)
  note keep = kernel_open_keeps [OF o(1)]
  have mode: "vfs_open_access_mode VFS_O_RDWR = VFS_O_RDWR" by code_simp
  have modes: "VFS_O_RDWR \<noteq> VFS_O_RDONLY" "VFS_O_RDWR \<noteq> VFS_O_WRONLY" by code_simp+
  from kfs.open_flags_spec [OF q(3) me ok o(1)] o(2) q(1) obtain i where i: "vfs_inv (fst w2)" "fd < 8" "i < 24"
    "node_path (fst w2) i = Some q" "live_descriptors t (fst w2) (my_fd t fd) = Some (i, 0, VFS_O_RDWR)"
    using modes by (auto simp: mode)
  have ninv: "nodes_inv (fst w1)" using q(3) by (simp add: vfs_inv_def)
  have "registered (fst w1) q = Some (g_vfs_nodes (fst w1) ! i)"
    using registered_iff [OF ninv] i(3,4) unfolding keep by blast
  then have "g_vfs_nodes (fst w2) ! i = node" using node(1) keep by simp
  moreover have "tmpfs_inv (kf_tmpfs (snd w2))" using inv keep(2) q(4) by (simp add: kernel_fs_inv_def)
  ultimately have "tmp_fd t fd nm c 0 w2"
    unfolding tmp_fd_def using i o(2) node q(2,4) keep(2) by (intro conjI exI [of _ i] exI [of _ x]) simp_all
  then show thesis by (rule that [OF q(2)])
qed


text \<open>
  C28: what a program writes to a temporary file through the VFS is what it reads back.  After
  a file is mounted at a path and opened for reading and writing there, a write at the start
  of the file succeeds for as many bytes as fit in 256, rewinding succeeds, and reading the
  same number of bytes returns exactly the bytes written; the file holds them followed by
  whatever it held behind them.
\<close>

theorem tmpfs_descriptor_roundtrip:
  assumes inv: "kernel_fs_inv w" and p: "NUL \<notin> set p" and nm: "NUL \<notin> set nm" and me: "me_alive t"
    and m: "tmpfs_mount_vfs (Some p) (Some nm) w = (w1, OK)"
    and o: "vfs_open_flags kernel_callbacks t (Some p) VFS_O_RDWR w1 = (w2, fd)" "0 \<le> fd"
    and d: "length d = unat n" "unat n \<le> 256" and b: "length b = unat n"
  shows "\<exists>c w3 w4 w5. tmpfs_view (kf_tmpfs (snd w)) nm = Some c \<and>
    vfs_write_fd kernel_callbacks t fd (Some d) n True w2 = (w3, n, OK) \<and>
    vfs_seek kernel_callbacks t fd 0 w3 = (w4, OK) \<and>
    vfs_read_fd kernel_callbacks t fd (Some b) n True w4 = (w5, Some d, n, OK) \<and>
    tmpfs_view (kf_tmpfs (snd w5)) nm = Some (d @ drop (length d) c)"
proof -
  obtain c where c: "tmpfs_view (kf_tmpfs (snd w)) nm = Some c" "tmp_fd t fd nm c 0 w2"
    by (rule tmp_fd_open [OF inv p nm me m o])
  obtain v2 k2 where w2: "w2 = (v2, k2)" by fastforce
  obtain v3 k3 j where wr: "vfs_write_fd kernel_callbacks t fd (Some d) n True w2 = ((v3, k3), j, OK)"
    "unat j = min (unat n) (256 - unat (0 :: u64))" "tmp_fd t fd nm (write_at c (unat (0 :: u64)) (take (unat j) d)) (0 + j) (v3, k3)"
    using tmp_fd_write [OF c(2) [unfolded w2] me _ d(1)] unfolding w2 by auto
  have j: "j = n" using wr(2) d(2) by (simp add: unsigned_word_eqI)
  define c' where "c' = d @ drop (length d) c"
  have "write_at c (unat (0 :: u64)) (take (unat j) d) = c'" using j d(1) by (simp add: write_at_def c'_def)
  then have fd3: "tmp_fd t fd nm c' (0 + j) (v3, k3)" using wr(3) by simp
  obtain v4 where sk: "vfs_seek kernel_callbacks t fd 0 (v3, k3) = ((v4, k3), OK)" "tmp_fd t fd nm c' 0 (v4, k3)"
    by (rule tmp_fd_seek [OF fd3 me, of 0]) simp
  have min: "min (unat n) (length c' - unat (0 :: u64)) = unat n" "take (unat n) c' @ drop (unat n) b = d"
    using d b by (auto simp: c'_def)
  obtain v5 where rd: "vfs_read_fd kernel_callbacks t fd (Some b) n True (v4, k3) = ((v5, k3), Some d, n, OK)"
    "tmp_fd t fd nm c' (0 + n) (v5, k3)"
    using tmp_fd_read [OF sk(2) me _ b] min by (auto simp: min)
  then show ?thesis using c(1) wr(1) sk(1) j by (auto simp: tmp_fd_def c'_def)
qed


definition example_note :: fs_world where
  "example_note = (empty_vfs, example_kernel_fs\<lparr>kf_tmpfs := \<lparr>g_tmpfs_files =
     \<lparr>tf_name = ''note'' @ replicate 28 NUL, tf_data = replicate 256 0, tf_size = 0, tf_used = 1\<rparr> #
     replicate 7 \<lparr>tf_name = replicate 32 NUL, tf_data = replicate 256 0, tf_size = 0, tf_used = 0\<rparr>\<rparr>\<rparr>)"

lemma example_note_inv: "kernel_fs_inv example_note"
proof -
  have "tmpfs_inv (kf_tmpfs (snd example_note))"
    by (auto simp: tmpfs_inv_def example_note_def file_wf_def nth_Cons split: nat.splits)
  then show ?thesis
    by (simp add: kernel_fs_inv_def example_note_def empty_vfs_inv example_kernel_fs_def)
qed

definition example_note_mounted :: fs_world where
  "example_note_mounted = fst (tmpfs_mount_vfs (Some ''/tmp/note'') (Some ''note'') example_note)"

definition example_note_opened :: "fs_world \<times> int" where
  "example_note_opened = vfs_open_flags kernel_callbacks example_running_table (Some ''/tmp/note'') VFS_O_RDWR example_note_mounted"

lemma example_note_calls:
  "snd (tmpfs_mount_vfs (Some ''/tmp/note'') (Some ''note'') example_note) = OK" "snd example_note_opened = 0"
  by code_simp+

theorem tmpfs_descriptor_roundtrip_witness:
  "\<exists>c w3 w4 w5. tmpfs_view (kf_tmpfs (snd example_note)) ''note'' = Some c \<and>
     vfs_write_fd kernel_callbacks example_running_table 0 (Some [104, 105]) 2 True (fst example_note_opened) = (w3, 2, OK) \<and>
     vfs_seek kernel_callbacks example_running_table 0 0 w3 = (w4, OK) \<and>
     vfs_read_fd kernel_callbacks example_running_table 0 (Some [0, 0]) 2 True w4 = (w5, Some [104, 105], 2, OK) \<and>
     tmpfs_view (kf_tmpfs (snd w5)) ''note'' = Some ([104, 105] @ drop (length [104, 105 :: u8]) c)"
proof (rule tmpfs_descriptor_roundtrip [OF example_note_inv])
  show "tmpfs_mount_vfs (Some ''/tmp/note'') (Some ''note'') example_note = (example_note_mounted, OK)"
    using example_note_calls(1) by (simp add: example_note_mounted_def prod_eq_iff)
  show "vfs_open_flags kernel_callbacks example_running_table (Some ''/tmp/note'') VFS_O_RDWR example_note_mounted =
      (fst example_note_opened, 0)"
    using example_note_calls(2) by (simp add: example_note_opened_def prod_eq_iff)
qed (simp_all add: example_running_table)

section \<open>What the boot filesystem serves\<close>
























end
