(* ===== verification/Spec2Isabelle.thy ===== *)
theory Spec2Isabelle
  imports Ipc Kernel_Fs
begin

text \<open>
  A verification library for the ArmoniOS kernel.
\<close>

end
